(* ===== verification/Prelude.thy ===== *)
theory Prelude
  imports Main "HOL-Library.Word" "HOL-Library.Multiset" "HOL-Library.List_Lexorder"
    "HOL-Library.Char_ord"
begin

text \<open>
  Shared vocabulary of the development. Go's machine types as words and lists, Go's three
  ways for a call to end (a value, an error, a panic) as the type \<open>result\<close>, Go's slice
  expressions with their bound checks, little-endian integers of \<open>encoding/binary\<close>, the
  functions of package \<open>strings\<close> the code uses, and the contract of \<open>sort.Slice\<close>.
  Two locales state interfaces that several components share: \<open>frame_codec\<close> (a record
  encoding that can be read back from the front of a longer byte sequence) and \<open>slice_sort\<close>
  (what \<open>sort.Slice\<close> promises, which does not include stability).
\<close>

unbundle bit_operations_syntax

section \<open>Go's basic types\<close>

type_synonym u8 = "8 word"
type_synonym u32 = "32 word"
type_synonym u64 = "64 word"
type_synonym bytes = "u8 list"

named_theorems codec_simps \<open>equations of encoders and decoders\<close>
named_theorems result_simps \<open>equations of the result type\<close>

text \<open>
  Errors keep the identity the code tests with \<open>errors.As\<close> and the format string of
  \<open>fmt.Errorf\<close>; the formatted arguments are dropped. \<open>ErrWrap\<close> is the \<open>%w\<close> verb.
\<close>

datatype err =
    ErrNotFound string
  | ErrPreconditionFailed string
  | ErrManifestConflict u64
  | ErrLocked
  | ErrMsg string
  | ErrWrap string err

fun as_not_found :: "err \<Rightarrow> bool" where
  "as_not_found (ErrNotFound k) = True"
| "as_not_found (ErrWrap m e) = as_not_found e"
| "as_not_found _ = False"

fun as_precondition_failed :: "err \<Rightarrow> bool" where
  "as_precondition_failed (ErrPreconditionFailed k) = True"
| "as_precondition_failed (ErrWrap m e) = as_precondition_failed e"
| "as_precondition_failed _ = False"

fun as_manifest_conflict :: "err \<Rightarrow> bool" where
  "as_manifest_conflict (ErrManifestConflict v) = True"
| "as_manifest_conflict (ErrWrap m e) = as_manifest_conflict e"
| "as_manifest_conflict _ = False"

datatype 'a result = Ok 'a | Err err | Panic

definition res_bind :: "'a result \<Rightarrow> ('a \<Rightarrow> 'b result) \<Rightarrow> 'b result" where
  "res_bind r f = (case r of Ok x \<Rightarrow> f x | Err e \<Rightarrow> Err e | Panic \<Rightarrow> Panic)"

definition res_wrap :: "string \<Rightarrow> 'a result \<Rightarrow> 'a result" where
  "res_wrap m r = (case r of Err e \<Rightarrow> Err (ErrWrap m e) | _ \<Rightarrow> r)"

lemma res_bind_simps [simp, result_simps]:
  "res_bind (Ok x) f = f x"
  "res_bind (Err e) f = Err e"
  "res_bind Panic f = Panic"
  by (simp_all add: res_bind_def)

lemma res_wrap_simps [simp, result_simps]:
  "res_wrap m (Ok x) = Ok x"
  "res_wrap m (Err e) = Err (ErrWrap m e)"
  "res_wrap m Panic = Panic"
  by (simp_all add: res_wrap_def)

lemma res_bind_eq_Ok:
  "res_bind r f = Ok y \<longleftrightarrow> (\<exists>x. r = Ok x \<and> f x = Ok y)"
  by (cases r) auto

lemma res_wrap_eq_Ok [simp]: "res_wrap m r = Ok y \<longleftrightarrow> r = Ok y"
  by (cases r) auto

lemma res_wrap_eq_Panic [simp]: "res_wrap m r = Panic \<longleftrightarrow> r = Panic"
  by (cases r) auto

lemma res_bind_cong [fundef_cong]:
  "r = r' \<Longrightarrow> (\<And>x. r' = Ok x \<Longrightarrow> f x = g x) \<Longrightarrow> res_bind r f = res_bind r' g"
  by (cases r') auto

text \<open>
  Sequencing of calls that change a state and may fail: the next call runs only after a normal
  return, and the state reached so far is kept in every case.
\<close>

definition st_bind :: "'a result \<times> 's \<Rightarrow> ('a \<Rightarrow> 's \<Rightarrow> 'b result \<times> 's) \<Rightarrow> 'b result \<times> 's" where
  "st_bind m f =
     (case m of (r, s) \<Rightarrow> case r of Ok x \<Rightarrow> f x s | Err e \<Rightarrow> (Err e, s) | Panic \<Rightarrow> (Panic, s))"

definition st_wrap :: "string \<Rightarrow> 'a result \<times> 's \<Rightarrow> 'a result \<times> 's" where
  "st_wrap msg m = (case m of (r, s) \<Rightarrow> (res_wrap msg r, s))"

lemma st_bind_simps [simp, result_simps]:
  "st_bind (Ok x, s) f = f x s"
  "st_bind (Err e, s) f = (Err e, s)"
  "st_bind (Panic, s) f = (Panic, s)"
  by (simp_all add: st_bind_def)

lemma st_wrap_pair [simp, result_simps]: "st_wrap msg (r, s) = (res_wrap msg r, s)"
  by (simp add: st_wrap_def)

lemma st_bind_eq_Ok:
  "st_bind m f = (Ok y, s') \<longleftrightarrow> (\<exists>x s. m = (Ok x, s) \<and> f x s = (Ok y, s'))"
  by (cases m; cases "fst m") auto

section \<open>Slices\<close>

text \<open>
  \<open>b[off:]\<close> panics when \<open>off\<close> is past the length. \<open>b[lo:hi]\<close> panics when the bounds
  are out of order or \<open>hi\<close> is past the \<^emph>\<open>capacity\<close>: Go checks a slice of a slice against
  the capacity, so \<open>spare\<close> stands for the bytes between length and capacity.
\<close>

definition slice_from :: "'a list \<Rightarrow> nat \<Rightarrow> 'a list result" where
  "slice_from b off = (if off \<le> length b then Ok (drop off b) else Panic)"

definition slice_cap :: "'a list \<Rightarrow> 'a list \<Rightarrow> nat \<Rightarrow> nat \<Rightarrow> 'a list result" where
  "slice_cap b spare lo hi =
     (if lo \<le> hi \<and> hi \<le> length b + length spare
      then Ok (take (hi - lo) (drop lo (b @ spare))) else Panic)"

text \<open>The \<open>i\<close>-th part of a concatenation, at the offset of the parts before it.\<close>

lemma slice_concat:
  "i < length xss \<Longrightarrow> take (length (xss ! i)) (drop (length (concat (take i xss))) (concat xss)) = xss ! i"
proof (induction xss arbitrary: i)
  case (Cons xs xss)
  then show ?case by (cases i) simp_all
qed simp

lemma slice_concat_bound:
  "i < length xss \<Longrightarrow> length (concat (take i xss)) + length (xss ! i) \<le> length (concat xss)"
proof (induction xss arbitrary: i)
  case (Cons xs xss)
  then show ?case by (cases i) auto
qed simp

section \<open>Little-endian integers\<close>

fun le_bytes :: "nat \<Rightarrow> 'a::len word \<Rightarrow> bytes" where
  "le_bytes 0 w = []"
| "le_bytes (Suc n) w = ucast w # le_bytes n (drop_bit 8 w)"

fun le_word :: "bytes \<Rightarrow> 'a::len word" where
  "le_word [] = 0"
| "le_word (b # bs) = ucast b OR push_bit 8 (le_word bs)"

definition put_u32 :: "u32 \<Rightarrow> bytes" where "put_u32 = le_bytes 4"
definition put_u64 :: "u64 \<Rightarrow> bytes" where "put_u64 = le_bytes 8"

definition le_u32 :: "bytes \<Rightarrow> u32 result" where
  "le_u32 b = (if length b < 4 then Panic else Ok (le_word (take 4 b)))"

definition le_u64 :: "bytes \<Rightarrow> u64 result" where
  "le_u64 b = (if length b < 8 then Panic else Ok (le_word (take 8 b)))"

lemma length_le_bytes [simp]: "length (le_bytes n w) = n"
  by (induction n arbitrary: w) auto

lemma bit_ucast_u8: "bit (ucast (b :: u8) :: 'a::len word) n \<longleftrightarrow> n < LENGTH('a) \<and> bit b n"
  by (simp add: bit_simps)

lemma le_word_le_bytes:
  "(le_word (le_bytes n w) :: 'a::len word) = take_bit (8 * n) (w :: 'a word)"
proof (induction n arbitrary: w)
  case 0
  then show ?case by simp
next
  case (Suc n)
  show ?case
  proof (rule bit_word_eqI)
    fix k assume k: "k < LENGTH('a)"
    have "bit (le_word (le_bytes (Suc n) w) :: 'a word) k
      \<longleftrightarrow> (k < 8 \<and> bit w k) \<or> (8 \<le> k \<and> k - 8 < 8 * n \<and> bit w k)"
      using k by (auto simp: Suc.IH bit_simps)
    then show "bit (le_word (le_bytes (Suc n) w) :: 'a word) k
      \<longleftrightarrow> bit (take_bit (8 * Suc n) w) k"
      by (auto simp: bit_take_bit_iff)
  qed
qed

lemma take_bit_full_word: "LENGTH('a) \<le> n \<Longrightarrow> take_bit n (w :: 'a::len word) = w"
  by (rule bit_word_eqI) (auto simp: bit_simps)

lemma word_less_exp_iff:
  assumes "n < LENGTH('a)"
  shows "w < 2 ^ n \<longleftrightarrow> take_bit n w = (w :: 'a::len word)"
proof -
  have "unat (word_of_nat (2 ^ n) :: 'a word) = 2 ^ n"
    using assms by (simp only: unat_of_nat) simp
  then have "unat (2 ^ n :: 'a word) = 2 ^ n" by simp
  moreover have "take_bit n w = w \<longleftrightarrow> take_bit n (unat w) = unat w"
    by (metis unsigned_take_bit_eq word_eq_iff_unsigned)
  ultimately show ?thesis by (simp add: word_less_nat_alt take_bit_nat_eq_self_iff)
qed

lemma ucast_u32_u64_u32 [simp]: "(ucast (ucast (w :: u32) :: u64) :: u32) = w"
  by (rule bit_word_eqI) (simp add: bit_simps)

lemma word_eq_of_natI: "unat w = n \<Longrightarrow> w = word_of_nat n"
  by (metis of_nat_unat ucast_id)

lemma unat_u32_of_nat: "n < 2 ^ 32 \<Longrightarrow> unat (word_of_nat n :: u32) = n"
  by (simp add: unat_of_nat)

lemma unat_u64_of_nat: "n < 2 ^ 64 \<Longrightarrow> unat (word_of_nat n :: u64) = n"
  by (simp add: unat_of_nat)

lemma u32_of_nat_inj: "i < 2 ^ 32 \<Longrightarrow> j < 2 ^ 32 \<Longrightarrow> (word_of_nat i :: u32) = word_of_nat j \<longleftrightarrow> i = j"
  by (metis unat_u32_of_nat)

lemma unat_ucast_u8: "unat (ucast (v :: 'a::len word) :: u8) = unat v mod 256"
  by (simp only: unsigned_ucast_eq take_bit_eq_mod) simp

lemma le_word_u32 [simp]: "(le_word (le_bytes 4 w) :: u32) = w"
  by (simp add: le_word_le_bytes take_bit_full_word)

lemma le_word_u64 [simp]: "(le_word (le_bytes 8 w) :: u64) = w"
  by (simp add: le_word_le_bytes take_bit_full_word)

lemma length_put [simp]: "length (put_u32 w) = 4" "length (put_u64 v) = 8"
  by (simp_all add: put_u32_def put_u64_def)

lemma le_word_put [simp]: "(le_word (put_u32 w) :: u32) = w" "(le_word (put_u64 v) :: u64) = v"
  by (simp_all add: put_u32_def put_u64_def)

lemma le_u32_put [simp, codec_simps]: "le_u32 (put_u32 w @ rest) = Ok w"
  by (simp add: le_u32_def put_u32_def)

lemma le_u64_put [simp, codec_simps]: "le_u64 (put_u64 w @ rest) = Ok w"
  by (simp add: le_u64_def put_u64_def)

lemma le_u32_put_nil [simp, codec_simps]: "le_u32 (put_u32 w) = Ok w"
  using le_u32_put [of w "[]"] by simp

lemma le_u64_put_nil [simp, codec_simps]: "le_u64 (put_u64 w) = Ok w"
  using le_u64_put [of w "[]"] by simp

lemma ucast_le_word: "(ucast (ucast (b :: u8) :: 'a::len word) :: u8) = b" if "8 \<le> LENGTH('a)"
  using that by (intro bit_word_eqI) (auto simp: bit_simps)

lemma le_bytes_le_word:
  "8 * length bs \<le> LENGTH('a) \<Longrightarrow> le_bytes (length bs) (le_word bs :: 'a::len word) = bs"
proof (induction bs)
  case Nil
  then show ?case by simp
next
  case (Cons b bs)
  let ?w = "le_word bs :: 'a word"
  have len: "8 \<le> LENGTH('a)" using Cons.prems by simp
  have hi: "\<not> bit ?w k" if "8 * length bs \<le> k" for k
  proof -
    have "?w = take_bit (8 * length bs) ?w"
      using Cons le_word_le_bytes [of "length bs" ?w] by simp
    then have "bit ?w k = bit (take_bit (8 * length bs) ?w) k" by simp
    with that show ?thesis by (simp add: bit_take_bit_iff)
  qed
  have "ucast (ucast b OR push_bit 8 ?w) = b"
    using len by (intro bit_word_eqI) (auto simp: bit_simps)
  moreover have "drop_bit 8 (ucast b OR push_bit 8 ?w) = ?w"
  proof (rule bit_word_eqI)
    fix k assume k: "k < LENGTH('a)"
    show "bit (drop_bit 8 (ucast b OR push_bit 8 ?w)) k \<longleftrightarrow> bit ?w k"
    proof (cases "8 + k < LENGTH('a)")
      case True
      then show ?thesis by (auto simp: bit_simps dest: bit_imp_le_length)
    next
      case False
      with Cons.prems have "\<not> bit ?w k" by (intro hi) simp
      with False show ?thesis by (auto simp: bit_simps)
    qed
  qed
  ultimately show ?case using Cons by simp
qed

section \<open>Decoding a run of records\<close>

text \<open>
  The interface of an encoding that can be read back from the front of a longer byte
  sequence, with the rest returned: what every section of the file formats relies on.
  \<open>wf\<close> says which values the encoder represents faithfully.
\<close>

fun decode_n :: "(bytes \<Rightarrow> ('a \<times> bytes) result) \<Rightarrow> nat \<Rightarrow> bytes \<Rightarrow> ('a list \<times> bytes) result" where
  "decode_n dec 0 bs = Ok ([], bs)"
| "decode_n dec (Suc n) bs =
     res_bind (dec bs) (\<lambda>(x, rest). res_bind (decode_n dec n rest) (\<lambda>(xs, rest'). Ok (x # xs, rest')))"

locale frame_codec =
  fixes enc :: "'a \<Rightarrow> bytes"
    and dec :: "bytes \<Rightarrow> ('a \<times> bytes) result"
    and wf :: "'a \<Rightarrow> bool"
  assumes dec_enc: "wf x \<Longrightarrow> dec (enc x @ rest) = Ok (x, rest)"
begin

lemma enc_inj:
  assumes "wf x" and "wf y" and "enc x = enc y"
  shows "x = y"
proof -
  have "Ok (x, [] :: bytes) = Ok (y, [])"
    using dec_enc [OF assms(1), of "[]"] dec_enc [OF assms(2), of "[]"] assms(3) by metis
  then show ?thesis by simp
qed

lemma enc_prefix_free:
  assumes "wf x" and "wf y" and "enc x @ r = enc y @ s"
  shows "x = y \<and> r = s"
proof -
  have "Ok (x, r) = Ok (y, s)"
    using dec_enc [OF assms(1), of r] dec_enc [OF assms(2), of s] assms(3) by metis
  then show ?thesis by simp
qed

lemma decode_n_concat:
  "(\<forall>x \<in> set xs. wf x) \<Longrightarrow>
   decode_n dec (length xs) (concat (map enc xs) @ rest) = Ok (xs, rest)"
proof (induction xs)
  case (Cons x xs)
  then have "dec (enc x @ concat (map enc xs) @ rest) = Ok (x, concat (map enc xs) @ rest)"
    by (intro dec_enc) simp
  with Cons show ?case by simp
qed simp

end

section \<open>Package strings\<close>

definition byte_of_char :: "char \<Rightarrow> u8" where "byte_of_char c = word_of_nat (of_char c)"
definition char_of_byte :: "u8 \<Rightarrow> char" where "char_of_byte b = char_of (unat b)"

definition bytes_of :: "string \<Rightarrow> bytes" where "bytes_of = map byte_of_char"
definition string_of :: "bytes \<Rightarrow> string" where "string_of = map char_of_byte"

lemma char_of_byte_inverse [simp]: "char_of_byte (byte_of_char c) = c"
proof -
  have "of_char c < (256 :: nat)" by simp
  then show ?thesis
    by (simp add: byte_of_char_def char_of_byte_def unat_of_nat)
qed

lemma byte_of_char_inverse [simp]: "byte_of_char (char_of_byte b) = b"
proof -
  have "unat b < 256" using unsigned_less [of b] by simp
  then show ?thesis
    by (simp add: byte_of_char_def char_of_byte_def of_char_of)
qed

lemma string_of_bytes_of [simp]: "string_of (bytes_of s) = s"
  by (simp add: string_of_def bytes_of_def comp_def)

lemma bytes_of_string_of [simp]: "bytes_of (string_of b) = b"
  by (simp add: string_of_def bytes_of_def comp_def)

lemma length_bytes_of [simp]: "length (bytes_of s) = length s"
  by (simp add: bytes_of_def)

lemma byte_of_char_less: "c < d \<Longrightarrow> byte_of_char c < byte_of_char d"
proof -
  assume "c < d"
  then have "(of_char c :: nat) < of_char d" by (simp add: less_char_def)
  moreover have "unat (word_of_nat (of_char x) :: u8) = of_char x" for x
    by (cases x) (simp add: unat_of_nat of_char_def horner_sum_of_bool_2_less)
  ultimately show ?thesis by (simp add: byte_of_char_def word_less_nat_alt)
qed

lemma bytes_of_less: "s < t \<Longrightarrow> bytes_of s < bytes_of t"
proof (induction s arbitrary: t)
  case Nil
  then show ?case by (cases t) (simp_all add: bytes_of_def)
next
  case (Cons c s)
  then obtain d t' where t: "t = d # t'" by (cases t) auto
  show ?case
  proof (cases "c = d")
    case True
    then show ?thesis using Cons t by (simp add: bytes_of_def)
  next
    case False
    then show ?thesis using Cons.prems t byte_of_char_less [of c d] by (simp add: bytes_of_def)
  qed
qed

lemma inj_bytes_of: "inj bytes_of"
  by (rule inj_on_inverseI [of _ string_of]) simp

definition HasPrefix :: "string \<Rightarrow> string \<Rightarrow> bool" where
  "HasPrefix s p \<longleftrightarrow> take (length p) s = p"

definition HasSuffix :: "string \<Rightarrow> string \<Rightarrow> bool" where
  "HasSuffix s p \<longleftrightarrow> length p \<le> length s \<and> drop (length s - length p) s = p"

definition TrimPrefix :: "string \<Rightarrow> string \<Rightarrow> string" where
  "TrimPrefix s p = (if HasPrefix s p then drop (length p) s else s)"

definition TrimSuffix :: "string \<Rightarrow> string \<Rightarrow> string" where
  "TrimSuffix s p = (if HasSuffix s p then take (length s - length p) s else s)"

text \<open>Index and LastIndex of a one-byte pattern; \<open>None\<close> is Go's \<open>-1\<close>.\<close>

fun IndexByte :: "string \<Rightarrow> char \<Rightarrow> nat option" where
  "IndexByte [] c = None"
| "IndexByte (x # xs) c = (if x = c then Some 0 else map_option Suc (IndexByte xs c))"

fun LastIndexByte :: "string \<Rightarrow> char \<Rightarrow> nat option" where
  "LastIndexByte [] c = None"
| "LastIndexByte (x # xs) c =
     (case LastIndexByte xs c of Some i \<Rightarrow> Some (Suc i)
      | None \<Rightarrow> (if x = c then Some 0 else None))"

lemma HasPrefix_append [simp]: "HasPrefix (p @ s) p"
  by (simp add: HasPrefix_def)

lemma HasPrefix_iff: "HasPrefix s p \<longleftrightarrow> (\<exists>r. s = p @ r)"
proof
  assume "HasPrefix s p"
  then have "s = p @ drop (length p) s"
    unfolding HasPrefix_def by (metis append_take_drop_id)
  then show "\<exists>r. s = p @ r" by blast
qed auto

lemma HasSuffix_iff: "HasSuffix s p \<longleftrightarrow> (\<exists>r. s = r @ p)"
proof
  assume "HasSuffix s p"
  then have "s = take (length s - length p) s @ p"
    unfolding HasSuffix_def by (metis append_take_drop_id)
  then show "\<exists>r. s = r @ p" by blast
qed (auto simp: HasSuffix_def)

lemma TrimSuffix_append [simp]: "TrimSuffix (s @ p) p = s"
  by (simp add: TrimSuffix_def HasSuffix_def)

lemma TrimPrefix_append [simp]: "TrimPrefix (p @ s) p = s"
  by (simp add: TrimPrefix_def HasPrefix_def)

lemma IndexByte_None [simp]: "IndexByte s c = None \<longleftrightarrow> c \<notin> set s"
  by (induction s) auto

lemma LastIndexByte_None [simp]: "LastIndexByte s c = None \<longleftrightarrow> c \<notin> set s"
  by (induction s) (auto split: option.splits)

lemma IndexByte_append: "c \<notin> set p \<Longrightarrow> IndexByte (p @ c # s) c = Some (length p)"
  by (induction p) auto

lemma IndexByte_Some: "IndexByte s c = Some i \<Longrightarrow> i < length s \<and> s ! i = c \<and> c \<notin> set (take i s)"
  by (induction s arbitrary: i) (auto split: if_splits)

lemma LastIndexByte_append:
  "c \<notin> set s \<Longrightarrow> LastIndexByte (p @ c # s) c = Some (length p)"
proof (induction p)
  case Nil
  then show ?case by (simp split: option.split)
qed simp

section \<open>Package sort\<close>

text \<open>
  \<open>sort.Slice(xs, less)\<close> permutes \<open>xs\<close> so that no later element is \<open>less\<close> than an
  earlier one. It is documented as not stable: the order of equal elements is not
  determined, so the code may rely on the following laws only. \<open>key\<close> is what the
  comparison functions of the code compare.
\<close>

locale slice_sort =
  fixes sort_slice :: "('a \<Rightarrow> 'k::linorder) \<Rightarrow> 'a list \<Rightarrow> 'a list"
  assumes sort_mset: "mset (sort_slice key xs) = mset xs"
    and sort_sorted: "sorted (map key (sort_slice key xs))"
begin

lemma sort_set: "set (sort_slice key xs) = set xs"
  using sort_mset [of key xs] by (metis set_mset_mset)

lemma sort_length: "length (sort_slice key xs) = length xs"
  using sort_mset [of key xs] by (metis size_mset)

lemma sort_keys: "map key (sort_slice key xs) = sort (map key xs)"
proof (rule properties_for_sort [symmetric])
  show "mset (map key (sort_slice key xs)) = mset (map key xs)"
    by (simp add: sort_mset)
qed (rule sort_sorted)

end

lemma last_sort_eqI:
  assumes "m \<in> set xs" and "\<And>x. x \<in> set xs \<Longrightarrow> x \<le> (m :: 'a::linorder)"
  shows "last (sort xs) = m"
proof -
  have ne: "sort xs \<noteq> []" using assms(1) by (metis empty_iff empty_set set_sort)
  then obtain ys where ys: "sort xs = ys @ [last (sort xs)]"
    by (metis append_butlast_last_id)
  have "sorted (ys @ [last (sort xs)])" using ys by (metis sorted_sort)
  moreover have "m \<in> set (ys @ [last (sort xs)])" using ys assms(1) by (metis set_sort)
  ultimately have "m \<le> last (sort xs)" by (auto simp: sorted_append)
  moreover have "last (sort xs) \<le> m" using ne assms(2) last_in_set by fastforce
  ultimately show ?thesis by simp
qed

text \<open>
  The insertion sort \<open>sort.Slice\<close> runs on short slices: element \<open>i\<close> is swapped towards the
  front while it is less than its left neighbour.
\<close>

fun insert_back :: "('a \<Rightarrow> 'k::linorder) \<Rightarrow> 'a \<Rightarrow> 'a list \<Rightarrow> 'a list" where
  "insert_back key x [] = [x]"
| "insert_back key x (y # ys) = (if key x < key y then x # y # ys else y # insert_back key x ys)"

definition insertion_sort :: "('a \<Rightarrow> 'k::linorder) \<Rightarrow> 'a list \<Rightarrow> 'a list" where
  "insertion_sort key xs = foldl (\<lambda>acc x. insert_back key x acc) [] xs"

lemma mset_insert_back [simp]: "mset (insert_back key x xs) = add_mset x (mset xs)"
  by (induction xs) auto

lemma sorted_insert_back: "sorted (map key xs) \<Longrightarrow> sorted (map key (insert_back key x xs))"
proof (induction xs)
  case (Cons y ys)
  have "set (insert_back key x ys) = insert x (set ys)"
    using mset_insert_back [of key x ys] by (metis set_mset_add_mset_insert set_mset_mset)
  with Cons show ?case by auto
qed simp

lemma insertion_sort_aux:
  "mset (foldl (\<lambda>acc x. insert_back key x acc) acc xs) = mset acc + mset xs \<and>
   (sorted (map key acc) \<longrightarrow> sorted (map key (foldl (\<lambda>acc x. insert_back key x acc) acc xs)))"
  by (induction xs arbitrary: acc) (auto simp: sorted_insert_back)

interpretation insertion: slice_sort insertion_sort
  by unfold_locales (simp_all add: insertion_sort_def insertion_sort_aux)

end
