(* ===== verification/Postings.thy ===== *)
theory Postings
  imports Prelude
begin

text \<open>
  Package \<open>postings\<close> (\<open>src/pkg/postings/postings.go\<close>): posting lists, which wrap a roaring
  bitmap, and the varint encoding of term positions. The roaring library is not part of the
  repository: it is the parameter \<open>R\<close>, a record of its operations, and \<open>roaring_ok R\<close> states
  what its documentation promises. \<open>binary.PutUvarint\<close> and \<open>binary.Uvarint\<close> of Go's standard
  library are modelled on 64-bit words. Results: posting lists survive serialisation, and
  \<open>DecodePositions\<close> inverts \<open>EncodePositions\<close> for every list of entries, the positions of
  an entry need not even be sorted, because the deltas wrap around at 32 bits both ways.
\<close>

section \<open>The roaring bitmap library\<close>

record 'b roaring =
  bm_New :: 'b
  bm_Add :: "'b \<Rightarrow> u32 \<Rightarrow> 'b"
  bm_AddRange :: "'b \<Rightarrow> u64 \<Rightarrow> u64 \<Rightarrow> 'b"
  bm_And :: "'b \<Rightarrow> 'b \<Rightarrow> 'b"
  bm_Or :: "'b \<Rightarrow> 'b \<Rightarrow> 'b"
  bm_AndNot :: "'b \<Rightarrow> 'b \<Rightarrow> 'b"
  bm_Contains :: "'b \<Rightarrow> u32 \<Rightarrow> bool"
  bm_Iterator :: "'b \<Rightarrow> u32 list"
  bm_GetCardinality :: "'b \<Rightarrow> u64"
  bm_MarshalBinary :: "'b \<Rightarrow> bytes result"
  bm_UnmarshalBinary :: "bytes \<Rightarrow> 'b result"

definition bm_docs :: "('b, 'z) roaring_scheme \<Rightarrow> 'b \<Rightarrow> u32 set" where
  "bm_docs R b = set (bm_Iterator R b)"

text \<open>
  A bitmap is a set of 32-bit integers: the iterator lists it in ascending order without
  repetition, the operations are the set operations, and a marshalled bitmap (a non-empty
  byte string, it starts with a cookie) unmarshals to a bitmap with the same elements.
\<close>

definition roaring_ok :: "('b, 'z) roaring_scheme \<Rightarrow> bool" where
  "roaring_ok R \<longleftrightarrow>
     (\<forall>b. sorted (bm_Iterator R b) \<and> distinct (bm_Iterator R b)) \<and>
     bm_docs R (bm_New R) = {} \<and>
     (\<forall>b x. bm_docs R (bm_Add R b x) = insert x (bm_docs R b)) \<and>
     (\<forall>b lo hi. bm_docs R (bm_AddRange R b lo hi) =
        bm_docs R b \<union> {x. unat lo \<le> unat x \<and> unat x < unat hi}) \<and>
     (\<forall>b c. bm_docs R (bm_And R b c) = bm_docs R b \<inter> bm_docs R c) \<and>
     (\<forall>b c. bm_docs R (bm_Or R b c) = bm_docs R b \<union> bm_docs R c) \<and>
     (\<forall>b c. bm_docs R (bm_AndNot R b c) = bm_docs R b - bm_docs R c) \<and>
     (\<forall>b x. bm_Contains R b x \<longleftrightarrow> x \<in> bm_docs R b) \<and>
     (\<forall>b. bm_GetCardinality R b = word_of_nat (length (bm_Iterator R b))) \<and>
     (\<forall>b. \<exists>d b'. bm_MarshalBinary R b = Ok d \<and> d \<noteq> [] \<and>
        bm_UnmarshalBinary R d = Ok b' \<and> bm_docs R b' = bm_docs R b)"

lemma roaring_okD:
  assumes "roaring_ok R"
  shows roaring_sorted: "sorted (bm_Iterator R b)"
    and roaring_distinct: "distinct (bm_Iterator R b)"
    and roaring_New: "bm_docs R (bm_New R) = {}"
    and roaring_Add: "bm_docs R (bm_Add R b x) = insert x (bm_docs R b)"
    and roaring_AddRange: "bm_docs R (bm_AddRange R b lo hi) =
      bm_docs R b \<union> {x. unat lo \<le> unat x \<and> unat x < unat hi}"
    and roaring_And: "bm_docs R (bm_And R b c) = bm_docs R b \<inter> bm_docs R c"
    and roaring_Or: "bm_docs R (bm_Or R b c) = bm_docs R b \<union> bm_docs R c"
    and roaring_AndNot: "bm_docs R (bm_AndNot R b c) = bm_docs R b - bm_docs R c"
    and roaring_Contains: "bm_Contains R b x \<longleftrightarrow> x \<in> bm_docs R b"
    and roaring_Card: "bm_GetCardinality R b = word_of_nat (length (bm_Iterator R b))"
    and roaring_Marshal: "\<exists>d b'. bm_MarshalBinary R b = Ok d \<and> d \<noteq> [] \<and>
        bm_UnmarshalBinary R d = Ok b' \<and> bm_docs R b' = bm_docs R b"
  using assms unfolding roaring_ok_def by simp_all

lemmas roaring_set_simps = roaring_New roaring_Add roaring_AddRange roaring_And roaring_Or
  roaring_AndNot roaring_Contains

lemma roaring_iterator_docs:
  "roaring_ok R \<Longrightarrow> bm_docs R b = bm_docs R c \<Longrightarrow> bm_Iterator R b = bm_Iterator R c"
  by (auto simp: bm_docs_def intro: sorted_distinct_set_unique
      dest: roaring_sorted roaring_distinct)

lemma roaring_card_docs:
  assumes "roaring_ok R"
  shows "bm_GetCardinality R b = word_of_nat (card (bm_docs R b))"
  using assms by (simp add: roaring_Card bm_docs_def distinct_card roaring_distinct)

section \<open>Posting lists\<close>

datatype 'b List = List (List_bm: 'b)

definition postings_New :: "'b roaring \<Rightarrow> 'b List" where
  "postings_New R = List (bm_New R)"

definition FromBitmap :: "'b \<Rightarrow> 'b List" where
  "FromBitmap bm = List bm"

definition postings_Add :: "'b roaring \<Rightarrow> 'b List \<Rightarrow> u32 \<Rightarrow> 'b List" where
  "postings_Add R l docID = List (bm_Add R (List_bm l) docID)"

definition postings_Bitmap :: "'b List \<Rightarrow> 'b" where
  "postings_Bitmap l = List_bm l"

definition postings_Cardinality :: "'b roaring \<Rightarrow> 'b List \<Rightarrow> u64" where
  "postings_Cardinality R l = bm_GetCardinality R (List_bm l)"

definition postings_Serialize :: "'b roaring \<Rightarrow> 'b List \<Rightarrow> bytes result" where
  "postings_Serialize R l = res_wrap ''postings serialize'' (bm_MarshalBinary R (List_bm l))"

definition postings_Deserialize :: "'b roaring \<Rightarrow> bytes \<Rightarrow> 'b List result" where
  "postings_Deserialize R data =
     res_bind (res_wrap ''postings deserialize'' (bm_UnmarshalBinary R data))
       (\<lambda>bm. Ok (List bm))"

definition postings_docs :: "'b roaring \<Rightarrow> 'b List \<Rightarrow> u32 set" where
  "postings_docs R l = bm_docs R (List_bm l)"

lemma postings_docs_New [simp]: "roaring_ok R \<Longrightarrow> postings_docs R (postings_New R) = {}"
  by (simp add: postings_docs_def postings_New_def roaring_New)

lemma postings_docs_Add [simp]:
  "roaring_ok R \<Longrightarrow> postings_docs R (postings_Add R l d) = insert d (postings_docs R l)"
  by (simp add: postings_docs_def postings_Add_def roaring_Add)

lemma postings_Serialize_ok:
  assumes "roaring_ok R"
  obtains d l' where "postings_Serialize R l = Ok d" "d \<noteq> []"
    "postings_Deserialize R d = Ok l'" "postings_docs R l' = postings_docs R l"
proof -
  obtain d b' where "bm_MarshalBinary R (List_bm l) = Ok d" "d \<noteq> []"
    "bm_UnmarshalBinary R d = Ok b'" "bm_docs R b' = bm_docs R (List_bm l)"
    using roaring_Marshal [OF assms, of "List_bm l"] by blast
  then show thesis
    by (intro that [of d "List b'"])
      (simp_all add: postings_Serialize_def postings_Deserialize_def postings_docs_def)
qed

section \<open>Varints of encoding/binary\<close>

lemma unat_drop_bit_7_less: "\<not> v < 0x80 \<Longrightarrow> unat (drop_bit 7 (v :: u64)) < unat v"
  by (simp add: drop_bit_eq_div word_less_nat_alt unat_div)

function PutUvarint :: "u64 \<Rightarrow> bytes" where
  "PutUvarint x =
     (if x < 0x80 then [ucast x] else (ucast x OR 0x80) # PutUvarint (drop_bit 7 x))"
  by pat_completeness auto
termination
  by (relation "measure unat") (simp_all add: unat_drop_bit_7_less)

declare PutUvarint.simps [simp del]

fun uvarint_loop :: "nat \<Rightarrow> u64 \<Rightarrow> nat \<Rightarrow> bytes \<Rightarrow> u64 \<times> int" where
  "uvarint_loop i x s [] = (0, 0)"
| "uvarint_loop i x s (b # buf) =
     (if i = 10 then (0, - (int i + 1))
      else if b < 0x80 then
        (if i = 9 \<and> b > 1 then (0, - (int i + 1)) else (x OR push_bit s (ucast b), int i + 1))
      else uvarint_loop (Suc i) (x OR push_bit s (ucast (b AND 0x7f))) (s + 7) buf)"

definition Uvarint :: "bytes \<Rightarrow> u64 \<times> int" where
  "Uvarint buf = uvarint_loop 0 0 0 buf"

lemma uvarint_loop_le: "uvarint_loop i x s bs = (v, n) \<Longrightarrow> n \<le> int i + int (length bs)"
  by (induction i x s bs rule: uvarint_loop.induct) (fastforce split: if_splits)+

lemma Uvarint_le: "Uvarint bs = (v, n) \<Longrightarrow> nat n \<le> length bs"
  unfolding Uvarint_def by (drule uvarint_loop_le) simp

lemma PutUvarint_length_pos [simp]: "PutUvarint v \<noteq> []"
  by (subst PutUvarint.simps) simp

lemma bit_0x80: "bit (0x80 :: u8) n \<longleftrightarrow> n = 7"
proof -
  have "(0x80 :: u8) = 2 ^ 7" by simp
  then show ?thesis by (simp only: bit_simps) auto
qed

lemma and_0x7f: "b AND 0x7f = take_bit 7 (b :: u8)"
  by (simp add: take_bit_eq_mask mask_eq_exp_minus_1)

lemma less_0x80: "v < 0x80 \<longleftrightarrow> take_bit 7 v = (v :: u64)"
  using word_less_exp_iff [of 7 v] by simp

lemma msb_byte: "\<not> (ucast (v :: u64) OR 0x80 :: u8) < 0x80"
proof
  assume "(ucast v OR 0x80 :: u8) < 0x80"
  then have "take_bit 7 (ucast v OR 0x80 :: u8) = ucast v OR 0x80"
    using word_less_exp_iff [of 7 "ucast v OR 0x80 :: u8"] by simp
  then have "bit (take_bit 7 (ucast v OR 0x80 :: u8)) 7" by (simp add: bit_simps bit_0x80)
  then show False by (simp add: bit_simps)
qed

lemma low7_byte: "(ucast ((ucast (v :: u64) OR 0x80 :: u8) AND 0x7f) :: u64) = take_bit 7 v"
  by (rule bit_word_eqI) (auto simp: and_0x7f bit_simps bit_0x80)

lemma ucast_ucast_small: "v < 0x80 \<Longrightarrow> (ucast (ucast (v :: u64) :: u8) :: u64) = v"
proof -
  assume "v < 0x80"
  then have v: "take_bit 7 v = v" by (simp only: less_0x80)
  have "ucast (ucast (take_bit 7 v) :: u8) = take_bit 7 v"
    by (rule bit_word_eqI) (auto simp: bit_simps)
  with v show ?thesis by simp
qed

lemma push_bit_split7:
  "push_bit s (take_bit 7 v) OR push_bit (s + 7) (drop_bit 7 v) = push_bit s (v :: u64)"
proof (rule bit_word_eqI)
  fix n :: nat
  show "bit (push_bit s (take_bit 7 v) OR push_bit (s + 7) (drop_bit 7 v)) n \<longleftrightarrow>
    bit (push_bit s v) n"
  proof (cases "s + 7 \<le> n")
    case True
    then have "7 + (n - (s + 7)) = n - s" by simp
    with True show ?thesis by (auto simp: bit_simps)
  qed (auto simp: bit_simps)
qed

lemma uvarint_put:
  assumes "i \<le> 9" and "unat v < 2 ^ (64 - 7 * i)"
  shows "uvarint_loop i x (7 * i) (PutUvarint v @ rest) =
    (x OR push_bit (7 * i) v, int i + int (length (PutUvarint v)))"
  using assms
proof (induction v arbitrary: i x rule: PutUvarint.induct)
  case (1 v)
  show ?case
  proof (cases "v < 0x80")
    case True
    have "\<not> (i = 9 \<and> (ucast v :: u8) > 1)"
    proof
      assume "i = 9 \<and> (ucast v :: u8) > 1"
      then have "unat v < 2" and "1 < unat (ucast v :: u8)"
        using "1.prems" by (simp_all add: word_less_nat_alt)
      then show False by (simp add: unat_ucast_u8)
    qed
    moreover have "(ucast v :: u8) < 0x80"
      using True by (simp add: word_less_nat_alt unat_ucast_u8)
    ultimately show ?thesis
      using True "1.prems" by (simp add: PutUvarint.simps [of v] ucast_ucast_small)
  next
    case False
    then have "128 \<le> unat v" by (simp add: word_less_nat_alt)
    with "1.prems" have i: "i < 9" by (cases "i = 9") auto
    let ?d = "drop_bit 7 v"
    have "unat ?d < 2 ^ (64 - 7 * Suc i)"
    proof -
      have "64 - 7 * i = 7 + (64 - 7 * Suc i)" using i by simp
      then have "(2::nat) ^ (64 - 7 * i) = 128 * 2 ^ (64 - 7 * Suc i)"
        by (simp only: power_add) simp
      with "1.prems" show ?thesis
        by (simp add: drop_bit_eq_div unat_div less_mult_imp_div_less mult.commute)
    qed
    with "1.IH" [OF False, of "Suc i"] i show ?thesis
      using False "1.prems"
      by (simp add: PutUvarint.simps [of v] msb_byte low7_byte add.commute or.assoc
          push_bit_split7 [of "7 * i" v, unfolded add.commute [of "7 * i"]])
  qed
qed

lemma Uvarint_Put [simp, codec_simps]:
  "Uvarint (PutUvarint v @ rest) = (v, int (length (PutUvarint v)))"
proof -
  have "unat v < 2 ^ 64" using unsigned_less [of v] by simp
  then show ?thesis
    unfolding Uvarint_def using uvarint_put [of 0 v 0 rest] by simp
qed

section \<open>Term positions\<close>

record PositionsEntry =
  DocID :: u32
  Positions :: "u32 list"

definition appendVarint :: "bytes \<Rightarrow> u64 \<Rightarrow> bytes" where
  "appendVarint buf v = buf @ PutUvarint v"

text \<open>The inner loop over \<open>e.Positions\<close>: deltas to the previous position, in \<open>uint32\<close>.\<close>

fun encode_deltas :: "bytes \<Rightarrow> u32 \<Rightarrow> u32 list \<Rightarrow> bytes" where
  "encode_deltas buf prev [] = buf"
| "encode_deltas buf prev (p # ps) = encode_deltas (appendVarint buf (ucast (p - prev))) p ps"

definition encode_entry :: "bytes \<Rightarrow> PositionsEntry \<Rightarrow> bytes" where
  "encode_entry buf e =
     (let buf = appendVarint buf (ucast (DocID e));
          buf = appendVarint buf (word_of_nat (length (Positions e)))
      in encode_deltas buf 0 (Positions e))"

definition EncodePositions :: "PositionsEntry list \<Rightarrow> bytes" where
  "EncodePositions entries = foldl encode_entry [] entries"

text \<open>
  \<open>make([]uint32, count)\<close> panics when the slice would exceed the runtime's address space
  limit of \<open>2^48\<close> bytes.
\<close>

definition max_u32_slice :: nat where "max_u32_slice = 2 ^ 46"

fun decode_deltas :: "nat \<Rightarrow> u32 \<Rightarrow> bytes \<Rightarrow> (u32 list \<times> bytes) result" where
  "decode_deltas 0 prev data = Ok ([], data)"
| "decode_deltas (Suc k) prev data =
     (let (delta, n) = Uvarint data in
      if n \<le> 0 then Err (ErrMsg ''positions: bad delta varint'')
      else let p = prev + ucast delta in
        res_bind (decode_deltas k p (drop (nat n) data)) (\<lambda>(ps, rest). Ok (p # ps, rest)))"

definition decode_entry :: "bytes \<Rightarrow> (PositionsEntry \<times> bytes) result" where
  "decode_entry data =
     (let (docID, n) = Uvarint data in
      if n \<le> 0 then Err (ErrMsg ''positions: bad docID varint'')
      else let data = drop (nat n) data; (count, n) = Uvarint data in
        if n \<le> 0 then Err (ErrMsg ''positions: bad count varint'')
        else if unat count > max_u32_slice then Panic
        else res_bind (decode_deltas (unat count) 0 (drop (nat n) data))
          (\<lambda>(ps, rest). Ok (\<lparr>DocID = ucast docID, Positions = ps\<rparr>, rest)))"

lemma decode_deltas_le:
  "decode_deltas k prev data = Ok (ps, rest) \<Longrightarrow> length rest \<le> length data"
proof (induction k arbitrary: prev data ps)
  case (Suc k)
  then obtain delta n ps' where "Uvarint data = (delta, n)"
    and "decode_deltas k (prev + ucast delta) (drop (nat n) data) = Ok (ps', rest)"
    by (auto simp: Let_def res_bind_eq_Ok split: prod.splits if_splits)
  with Suc.IH show ?case by fastforce
qed simp

lemma decode_entry_less:
  assumes "decode_entry data = Ok (e, rest)"
  shows "length rest < length data"
proof -
  obtain docID n where n: "Uvarint data = (docID, n)" by (cases "Uvarint data")
  obtain count m where m: "Uvarint (drop (nat n) data) = (count, m)"
    by (cases "Uvarint (drop (nat n) data)")
  from assms n m have pos: "0 < n" "0 < m" and ps: "\<exists>ps. decode_deltas (unat count) 0
      (drop (nat m) (drop (nat n) data)) = Ok (ps, rest)"
    by (auto simp: decode_entry_def Let_def res_bind_eq_Ok split: if_splits)
  then have "length rest \<le> length data - nat n - nat m"
    using decode_deltas_le by fastforce
  moreover have "nat n \<le> length data" using n by (rule Uvarint_le)
  ultimately show ?thesis using pos by linarith
qed

function DecodePositions :: "bytes \<Rightarrow> PositionsEntry list result" where
  "DecodePositions data =
     (if data = [] then Ok []
      else res_bind (decode_entry data) (\<lambda>(e, rest).
        res_bind (DecodePositions rest) (\<lambda>es. Ok (e # es))))"
  by pat_completeness auto
termination
  by (relation "measure length") (auto dest: decode_entry_less)

declare DecodePositions.simps [simp del]

lemma encode_deltas_append: "encode_deltas (a @ buf) prev ps = a @ encode_deltas buf prev ps"
  by (induction ps arbitrary: buf prev) (auto simp: appendVarint_def)

lemma encode_entry_append: "encode_entry buf e = buf @ encode_entry [] e"
  using encode_deltas_append [of buf] by (simp add: encode_entry_def appendVarint_def)

lemma EncodePositions_concat: "EncodePositions es = concat (map (encode_entry []) es)"
proof -
  have "foldl encode_entry buf es = buf @ concat (map (encode_entry []) es)" for buf
  proof (induction es arbitrary: buf)
    case (Cons e es)
    show ?case using Cons [of "encode_entry buf e"] encode_entry_append [of buf e] by simp
  qed simp
  then show ?thesis by (simp add: EncodePositions_def)
qed

lemma decode_deltas_encode:
  "decode_deltas (length ps) prev (encode_deltas [] prev ps @ rest) = Ok (ps, rest)"
proof (induction ps arbitrary: prev)
  case (Cons p ps)
  have "prev + ucast (ucast (p - prev) :: u64) = p" by simp
  then show ?case
    using Cons encode_deltas_append [of "PutUvarint (ucast (p - prev))" "[]" p ps]
    by (simp add: appendVarint_def)
qed simp

definition entry_wf :: "PositionsEntry \<Rightarrow> bool" where
  "entry_wf e \<longleftrightarrow> length (Positions e) \<le> max_u32_slice"

lemma decode_entry_encode:
  assumes "entry_wf e"
  shows "decode_entry (encode_entry [] e @ rest) = Ok (e, rest)"
proof -
  have len: "length (Positions e) \<le> 2 ^ 46"
    using assms by (simp add: entry_wf_def max_u32_slice_def)
  then have "unat (word_of_nat (length (Positions e)) :: u64) = length (Positions e)"
    by (simp add: unat_of_nat)
  moreover have "(ucast (ucast (DocID e) :: u64) :: u32) = DocID e" by simp
  moreover have "encode_entry [] e = PutUvarint (ucast (DocID e)) @
      PutUvarint (word_of_nat (length (Positions e))) @ encode_deltas [] 0 (Positions e)"
    using encode_deltas_append [of "PutUvarint (ucast (DocID e)) @
      PutUvarint (word_of_nat (length (Positions e)))" "[]" 0 "Positions e"]
    by (simp add: encode_entry_def appendVarint_def)
  ultimately show ?thesis
    using len by (simp add: decode_entry_def Let_def decode_deltas_encode max_u32_slice_def)
qed

interpretation positions_frame: frame_codec "encode_entry []" decode_entry entry_wf
  by unfold_locales (rule decode_entry_encode)

lemma DecodePositions_concat:
  "(\<forall>e \<in> set es. entry_wf e) \<Longrightarrow> DecodePositions (concat (map (encode_entry []) es)) = Ok es"
proof (induction es)
  case Nil
  then show ?case by (simp add: DecodePositions.simps)
next
  case (Cons e es)
  have "encode_entry [] e \<noteq> []"
    using encode_deltas_append by (simp add: encode_entry_def appendVarint_def)
  with Cons show ?case
    by (subst DecodePositions.simps) (simp add: positions_frame.dec_enc)
qed

section \<open>A bitmap library that satisfies the laws\<close>

text \<open>Sorted lists: used to show that \<open>roaring_ok\<close> can hold and to run the model.\<close>

definition list_iter :: "u32 list \<Rightarrow> u32 list" where
  "list_iter b = sorted_list_of_set (set b)"

definition list_unmarshal :: "bytes \<Rightarrow> u32 list result" where
  "list_unmarshal d =
     res_bind (decode_n (\<lambda>b. if length b < 4 then Err (ErrMsg ''short'') else Ok (le_word (take 4 b), drop 4 b))
       ((length d - 1) div 4) (tl d)) (\<lambda>(xs, _). Ok xs)"

definition list_roaring :: "u32 list roaring" where
  "list_roaring = \<lparr>bm_New = [], bm_Add = (\<lambda>b x. x # b),
     bm_AddRange = (\<lambda>b lo hi. map word_of_nat [unat lo..<min (unat hi) (2 ^ 32)] @ b),
     bm_And = (\<lambda>b c. filter (\<lambda>x. x \<in> set c) b), bm_Or = (\<lambda>b c. b @ c),
     bm_AndNot = (\<lambda>b c. filter (\<lambda>x. x \<notin> set c) b), bm_Contains = (\<lambda>b x. x \<in> set b),
     bm_Iterator = list_iter, bm_GetCardinality = (\<lambda>b. word_of_nat (length (list_iter b))),
     bm_MarshalBinary = (\<lambda>b. Ok (1 # concat (map put_u32 b))), bm_UnmarshalBinary = list_unmarshal\<rparr>"

lemma list_roaring_docs: "bm_docs list_roaring b = set b"
  by (simp add: bm_docs_def list_roaring_def list_iter_def)

lemma list_roaring_range:
  "word_of_nat ` {unat (lo :: u64)..<min (unat (hi :: u64)) (2 ^ 32)} =
     {x :: u32. unat lo \<le> unat x \<and> unat x < unat hi}"
proof (intro set_eqI iffI)
  fix x :: u32
  assume "x \<in> {x. unat lo \<le> unat x \<and> unat x < unat hi}"
  then have "unat x \<in> {unat lo..<min (unat hi) (2 ^ 32)}" using unsigned_less [of x] by simp
  moreover have "x = word_of_nat (unat x)" by simp
  ultimately show "x \<in> word_of_nat ` {unat lo..<min (unat hi) (2 ^ 32)}" by blast
qed (auto simp: unat_of_nat)

interpretation list_words: frame_codec put_u32
    "\<lambda>b. if length b < 4 then Err (ErrMsg ''short'') else Ok (le_word (take 4 b), drop 4 b)"
    "\<lambda>_. True"
  by unfold_locales simp

lemma list_unmarshal_marshal: "list_unmarshal (1 # concat (map put_u32 b)) = Ok b"
proof -
  have "length (concat (map put_u32 b)) = 4 * length b" by (induction b) simp_all
  then show ?thesis
    using list_words.decode_n_concat [of b "[]"] by (simp add: list_unmarshal_def)
qed

lemma list_roaring_ok: "roaring_ok list_roaring"
proof -
  have "bm_docs list_roaring (bm_AddRange list_roaring b lo hi) =
      bm_docs list_roaring b \<union> {x. unat lo \<le> unat x \<and> unat x < unat hi}" for b lo hi
    using list_roaring_range [of lo hi]
    by (simp add: list_roaring_docs) (simp add: list_roaring_def Un_commute)
  then show ?thesis
    unfolding roaring_ok_def
    by (auto simp: list_roaring_docs) (auto simp: list_roaring_def list_iter_def list_unmarshal_marshal)
qed

section \<open>Properties\<close>

text \<open>C29: Decoding an encoded positions file gives back every entry, document by document, with
  all its positions in order; the positions need not be sorted. The only bound is on the number
  of positions of one entry, the largest slice Go can allocate.\<close>

theorem positions_roundtrip:
  assumes "\<forall>e \<in> set es. length (Positions e) \<le> max_u32_slice"
  shows "DecodePositions (EncodePositions es) = Ok es"
  using assms DecodePositions_concat by (simp add: EncodePositions_concat entry_wf_def)

theorem positions_roundtrip_witness:
  "DecodePositions (EncodePositions [\<lparr>DocID = 7, Positions = [3, 300, 1]\<rparr>, \<lparr>DocID = 9, Positions = []\<rparr>]) =
    Ok [\<lparr>DocID = 7, Positions = [3, 300, 1]\<rparr>, \<lparr>DocID = 9, Positions = []\<rparr>]"
  by (rule positions_roundtrip) (simp add: max_u32_slice_def)

text \<open>A posting list built by adding document numbers holds exactly those numbers, and
  serialising and deserialising it keeps them.\<close>

theorem postings_roundtrip:
  assumes "roaring_ok R"
  shows "\<exists>d l. postings_Serialize R (foldl (postings_Add R) (postings_New R) xs) = Ok d \<and>
    postings_Deserialize R d = Ok l \<and> postings_docs R l = set xs"
proof -
  have "postings_docs R (foldl (postings_Add R) l xs) = postings_docs R l \<union> set xs" for l
    using assms by (induction xs arbitrary: l) simp_all
  then have "postings_docs R (foldl (postings_Add R) (postings_New R) xs) = set xs"
    using assms by simp
  then show ?thesis
    using postings_Serialize_ok [OF assms, of "foldl (postings_Add R) (postings_New R) xs"] by metis
qed

theorem postings_roundtrip_witness:
  "\<exists>d l. postings_Serialize list_roaring
      (foldl (postings_Add list_roaring) (postings_New list_roaring) [5, 2, 5]) = Ok d \<and>
    postings_Deserialize list_roaring d = Ok l \<and> postings_docs list_roaring l = {2, 5}"
  using postings_roundtrip [OF list_roaring_ok, of "[5, 2, 5]"] by (simp add: insert_commute)

end
