(* ===== verification/Docstore.thy ===== *)
theory Docstore
  imports Prelude
begin

text \<open>
  Package \<open>docstore\<close> (\<open>src/pkg/docstore/docstore.go\<close>): the writer packs documents, each with
  a 32-bit length in front, into blocks of about 64 KB that are compressed one by one, and
  records for every document the block and the offset; the reader goes the other way. The
  zstd library is the parameter \<open>Z\<close>. Results: the writer's invariant, every document
  written is read back unchanged from the finished store, the loop in \<open>flushBlock\<close> that
  repairs block numbers never has anything to repair, and the index encoding is a bijection
  between entry lists and byte strings whose length is a multiple of eight.
\<close>

section \<open>The zstd library\<close>

record zstd =
  zstd_NewWriter :: "unit result"
  zstd_NewReader :: "unit result"
  zstd_EncodeAll :: "bytes \<Rightarrow> bytes"
  zstd_DecodeAll :: "bytes \<Rightarrow> bytes result"

definition zstd_ok :: "zstd \<Rightarrow> bool" where
  "zstd_ok Z \<longleftrightarrow> zstd_NewWriter Z = Ok () \<and> zstd_NewReader Z = Ok () \<and>
     (\<forall>b. zstd_DecodeAll Z (zstd_EncodeAll Z b) = Ok b) \<and> (\<forall>b. b \<noteq> [] \<longrightarrow> zstd_EncodeAll Z b \<noteq> [])"

section \<open>Writer\<close>

definition blockSize :: nat where "blockSize = 64 * 1024"

record BlockEntry =
  Block :: u32
  Offset :: u32

record ds_Writer =
  blocks :: "bytes list"
  index :: "BlockEntry list"
  curBuf :: bytes
  curDocs :: u32
  curStart :: u32

definition ds_NewWriter :: "zstd \<Rightarrow> ds_Writer result" where
  "ds_NewWriter Z = res_bind (zstd_NewWriter Z)
     (\<lambda>_. Ok \<lparr>blocks = [], index = [], curBuf = [], curDocs = 0, curStart = 0\<rparr>)"

text \<open>The loop of \<open>flushBlock\<close> runs over the index from its end, here over its reverse.\<close>

fun fix_blocks :: "u32 \<Rightarrow> BlockEntry list \<Rightarrow> BlockEntry list" where
  "fix_blocks commitIdx [] = []"
| "fix_blocks commitIdx (e # es) =
     (if Block e = commitIdx then e # es else e\<lparr>Block := commitIdx\<rparr> # fix_blocks commitIdx es)"

definition ds_flushBlock :: "zstd \<Rightarrow> ds_Writer \<Rightarrow> ds_Writer" where
  "ds_flushBlock Z w =
     (if curBuf w = [] then w
      else let compressed = zstd_EncodeAll Z (curBuf w);
               w = w\<lparr>blocks := blocks w @ [compressed]\<rparr>;
               commitIdx = word_of_nat (length (blocks w) - 1);
               w = w\<lparr>index := rev (fix_blocks commitIdx (rev (index w)))\<rparr>
           in w\<lparr>curBuf := []\<rparr>)"

definition ds_Add :: "zstd \<Rightarrow> ds_Writer \<Rightarrow> u32 \<Rightarrow> bytes \<Rightarrow> ds_Writer" where
  "ds_Add Z w docID rawJSON =
     (let n = word_of_nat (length rawJSON) :: u32;
          w = w\<lparr>curBuf := curBuf w @ put_u32 n @ rawJSON\<rparr>;
          blockIdx = word_of_nat (length (blocks w));
          offset = word_of_nat (length (curBuf w)) - n - 4;
          w = w\<lparr>index := index w @ [\<lparr>Block = blockIdx, Offset = offset\<rparr>]\<rparr>
      in if blockSize \<le> length (curBuf w) then ds_flushBlock Z w else w)"

definition ds_Finalize :: "zstd \<Rightarrow> ds_Writer \<Rightarrow> bytes list \<times> BlockEntry list" where
  "ds_Finalize Z w = (let w = ds_flushBlock Z w in (blocks w, index w))"

section \<open>Index encoding\<close>

definition enc_block_entry :: "BlockEntry \<Rightarrow> bytes" where
  "enc_block_entry e = put_u32 (Block e) @ put_u32 (Offset e)"

definition dec_block_entry :: "bytes \<Rightarrow> (BlockEntry \<times> bytes) result" where
  "dec_block_entry data =
     res_bind (le_u32 data) (\<lambda>b.
     res_bind (res_bind (slice_from data 4) le_u32) (\<lambda>off.
       Ok (\<lparr>Block = b, Offset = off\<rparr>, drop 8 data)))"

definition EncodeIndex :: "BlockEntry list \<Rightarrow> bytes" where
  "EncodeIndex idx = concat (map enc_block_entry idx)"

definition DecodeIndex :: "bytes \<Rightarrow> BlockEntry list result" where
  "DecodeIndex data =
     (if length data mod 8 \<noteq> 0 then Err (ErrMsg ''docstore index: invalid length'')
      else res_bind (decode_n dec_block_entry (length data div 8) data) (\<lambda>(out, _). Ok out))"

section \<open>Reader\<close>

text \<open>
  \<open>end\<close> and \<open>start\<close> are \<open>uint32\<close>: the sum may wrap, and then the slice expression panics.
  Where it does not panic, the slice has exactly \<open>docLen\<close> bytes, which \<open>copy\<close> transfers.
\<close>

definition ds_Get :: "zstd \<Rightarrow> bytes list \<Rightarrow> BlockEntry \<Rightarrow> bytes result" where
  "ds_Get Z blks entry =
     (if length blks \<le> unat (Block entry) then Err (ErrMsg ''docstore: block out of range'')
      else res_bind (res_wrap ''docstore decompress'' (zstd_DecodeAll Z (blks ! unat (Block entry))))
        (\<lambda>raw. let off = Offset entry in
          if length raw < unat off + 4 then Err (ErrMsg ''docstore: offset out of range'')
          else res_bind (res_bind (slice_from raw (unat off)) le_u32)
            (\<lambda>docLen. let start = off + 4; stop = start + docLen in
              if length raw < unat stop then Err (ErrMsg ''docstore: doc length overruns block'')
              else slice_cap raw [] (unat start) (unat stop))))"

section \<open>Index encoding: a bijection\<close>

lemma dec_block_entry_enc: "dec_block_entry (enc_block_entry e @ rest) = Ok (e, rest)"
  by (simp add: dec_block_entry_def enc_block_entry_def slice_from_def)

interpretation block_entry: frame_codec enc_block_entry dec_block_entry "\<lambda>_. True"
  by unfold_locales (rule dec_block_entry_enc)

lemma length_enc_block_entry [simp]: "length (enc_block_entry e) = 8"
  by (simp add: enc_block_entry_def)

lemma length_EncodeIndex [simp]: "length (EncodeIndex idx) = 8 * length idx"
  by (induction idx) (auto simp: EncodeIndex_def)

lemma DecodeIndex_EncodeIndex: "DecodeIndex (EncodeIndex idx) = Ok idx"
  using block_entry.decode_n_concat [of idx "[]"]
  by (simp add: DecodeIndex_def flip: EncodeIndex_def)

lemma dec_block_entry_long:
  assumes "8 \<le> length data"
  shows "dec_block_entry data =
    Ok (\<lparr>Block = le_word (take 4 data), Offset = le_word (take 4 (drop 4 data))\<rparr>, drop 8 data)"
proof -
  have "\<not> length data - 4 < 4" using assms by simp
  then show ?thesis using assms by (simp add: dec_block_entry_def le_u32_def slice_from_def)
qed

lemma dec_block_entry_Ok:
  assumes "dec_block_entry data = Ok (e, rest)" and "8 \<le> length data"
  shows "data = enc_block_entry e @ rest"
proof -
  have "Block e = le_word (take 4 data)" "Offset e = le_word (take 4 (drop 4 data))"
    "rest = drop 8 data"
    using assms by (auto simp: dec_block_entry_long)
  moreover have "le_bytes 4 (le_word (take 4 data) :: u32) = take 4 data"
    "le_bytes 4 (le_word (take 4 (drop 4 data)) :: u32) = take 4 (drop 4 data)"
    using le_bytes_le_word [of "take 4 data", where 'a = 32]
      le_bytes_le_word [of "take 4 (drop 4 data)", where 'a = 32] assms(2) by simp_all
  moreover have "take 4 data @ take 4 (drop 4 data) = take 8 data"
    using take_add [of 4 4 data] by simp
  ultimately show ?thesis by (simp add: enc_block_entry_def put_u32_def)
qed

lemma decode_n_block_entry:
  "length data = 8 * n \<Longrightarrow> \<exists>idx. decode_n dec_block_entry n data = Ok (idx, []) \<and>
     data = EncodeIndex idx"
proof (induction n arbitrary: data)
  case 0
  then show ?case by (simp add: EncodeIndex_def)
next
  case (Suc n)
  then have len: "8 \<le> length data" by simp
  then obtain e rest where e: "dec_block_entry data = Ok (e, rest)"
    by (simp add: dec_block_entry_long)
  with len have data: "data = enc_block_entry e @ rest" by (intro dec_block_entry_Ok)
  with Suc.prems have "length rest = 8 * n" by simp
  with Suc.IH [of rest] e data show ?case by (auto simp: EncodeIndex_def)
qed

lemma DecodeIndex_iff: "DecodeIndex data = Ok idx \<longleftrightarrow> data = EncodeIndex idx"
proof
  assume "DecodeIndex data = Ok idx"
  then have "length data mod 8 = 0" and
    idx: "\<exists>rest. decode_n dec_block_entry (length data div 8) data = Ok (idx, rest)"
    by (auto simp: DecodeIndex_def res_bind_eq_Ok split: if_splits)
  then have "length data = 8 * (length data div 8)" by presburger
  then obtain idx' where "decode_n dec_block_entry (length data div 8) data = Ok (idx', [])"
    "data = EncodeIndex idx'" using decode_n_block_entry by blast
  with idx show "data = EncodeIndex idx" by auto
qed (simp add: DecodeIndex_EncodeIndex)

section \<open>The writer's invariant\<close>

text \<open>
  \<open>doc_at\<close> says that a buffer holds a document with its length prefix at an offset.
  In a writer that has been given \<open>docs\<close>, every entry of the index points at its document,
  in a finished block or in the open buffer. \<open>raws\<close> are the uncompressed finished blocks.
\<close>

definition doc_at :: "bytes \<Rightarrow> nat \<Rightarrow> bytes \<Rightarrow> bool" where
  "doc_at buf off d \<longleftrightarrow> off + 4 + length d \<le> length buf \<and>
     take (4 + length d) (drop off buf) = put_u32 (word_of_nat (length d)) @ d"

definition ds_max_doc :: nat where "ds_max_doc = 2 ^ 32 - 65540"

definition entry_ok :: "bytes list \<Rightarrow> BlockEntry \<Rightarrow> bytes \<Rightarrow> bool" where
  "entry_ok bufs e d \<longleftrightarrow> unat (Block e) < length bufs \<and> unat (Offset e) < blockSize \<and>
     length d \<le> ds_max_doc \<and> doc_at (bufs ! unat (Block e)) (unat (Offset e)) d"

definition writer_core :: "zstd \<Rightarrow> bytes list \<Rightarrow> bytes list \<Rightarrow> ds_Writer \<Rightarrow> bool" where
  "writer_core Z raws docs w \<longleftrightarrow>
     blocks w = map (zstd_EncodeAll Z) raws \<and>
     list_all2 (entry_ok (raws @ [curBuf w])) (index w) docs \<and>
     (curBuf w \<noteq> [] \<longrightarrow> index w \<noteq> [] \<and> unat (Block (last (index w))) = length raws) \<and>
     length raws + (if curBuf w = [] then 0 else 1) \<le> length docs"

definition writer_inv :: "zstd \<Rightarrow> bytes list \<Rightarrow> bytes list \<Rightarrow> ds_Writer \<Rightarrow> bool" where
  "writer_inv Z raws docs w \<longleftrightarrow> writer_core Z raws docs w \<and> length (curBuf w) < blockSize"

lemma list_all2_snoc [simp]:
  "list_all2 P (xs @ [x]) (ys @ [y]) \<longleftrightarrow> list_all2 P xs ys \<and> P x y"
proof (cases "length xs = length ys")
  case True
  then show ?thesis by (simp add: list_all2_append)
next
  case False
  then show ?thesis by (auto dest: list_all2_lengthD)
qed

lemma doc_at_append: "doc_at buf off d \<Longrightarrow> doc_at (buf @ ext) off d"
  unfolding doc_at_def by auto

lemma doc_at_new: "doc_at (buf @ put_u32 (word_of_nat (length d)) @ d) (length buf) d"
  by (simp add: doc_at_def)

lemma entry_ok_grow:
  "entry_ok (raws @ [buf]) e d \<Longrightarrow> entry_ok (raws @ [buf @ ext]) e d"
  by (auto simp: entry_ok_def nth_append doc_at_append split: if_splits)

lemma entry_ok_more: "entry_ok bufs e d \<Longrightarrow> entry_ok (bufs @ ext) e d"
  by (auto simp: entry_ok_def nth_append)

lemma fix_blocks_idle:
  "es \<noteq> [] \<Longrightarrow> Block (last es) = c \<Longrightarrow> rev (fix_blocks c (rev es)) = es"
  by (cases es rule: rev_cases) auto

lemma flushBlock_no_repair:
  assumes inv: "writer_core Z raws docs w" and len: "length docs < 2 ^ 32" and "curBuf w \<noteq> []"
  shows "ds_flushBlock Z w =
    w\<lparr>blocks := blocks w @ [zstd_EncodeAll Z (curBuf w)], curBuf := []\<rparr>"
proof -
  have "length raws < 2 ^ 32" using inv len by (auto simp: writer_core_def split: if_splits)
  then have "unat (word_of_nat (length raws) :: u32) = length raws" by (simp add: unat_of_nat)
  then have "Block (last (index w)) = word_of_nat (length raws)"
    using inv assms(3) by (metis writer_core_def word_eq_iff_unsigned)
  moreover have "length (blocks w) = length raws" using inv by (simp add: writer_core_def)
  ultimately show ?thesis
    using inv assms(3) fix_blocks_idle [of "index w" "word_of_nat (length raws)"]
    by (simp add: ds_flushBlock_def Let_def writer_core_def)
qed

lemma flushBlock_inv:
  assumes "writer_core Z raws docs w" and "length docs < 2 ^ 32" and "curBuf w \<noteq> []"
  shows "writer_core Z (raws @ [curBuf w]) docs (ds_flushBlock Z w)"
proof -
  have "list_all2 (entry_ok (raws @ [curBuf w])) (index w) docs"
    using assms(1) by (simp add: writer_core_def)
  then have "list_all2 (entry_ok ((raws @ [curBuf w]) @ [[]])) (index w) docs"
    by (rule list_all2_mono) (rule entry_ok_more)
  then show ?thesis
    using assms by (simp add: flushBlock_no_repair) (simp add: writer_core_def)
qed

lemma writer_core_len: "writer_core Z raws docs w \<Longrightarrow> length (index w) = length docs"
  by (auto simp: writer_core_def dest: list_all2_lengthD)

text \<open>The state of \<open>Add\<close> before the block is flushed.\<close>

definition ds_append :: "ds_Writer \<Rightarrow> bytes \<Rightarrow> ds_Writer" where
  "ds_append w d = w\<lparr>curBuf := curBuf w @ put_u32 (word_of_nat (length d)) @ d,
     index := index w @ [\<lparr>Block = word_of_nat (length (blocks w)),
       Offset = word_of_nat (length (curBuf w))\<rparr>]\<rparr>"

lemma ds_Add_append:
  "ds_Add Z w docID d = (let w = ds_append w d in
     if blockSize \<le> length (curBuf w) then ds_flushBlock Z w else w)"
  by (simp add: ds_Add_def ds_append_def Let_def)

lemma ds_append_core:
  assumes inv: "writer_inv Z raws docs w" and d: "length d \<le> ds_max_doc"
    and len: "length docs < 2 ^ 32"
  shows "writer_core Z raws (docs @ [d]) (ds_append w d)"
proof -
  let ?buf = "curBuf w @ put_u32 (word_of_nat (length d)) @ d"
  have core: "writer_core Z raws docs w" and buf: "length (curBuf w) < 65536"
    using inv by (simp_all add: writer_inv_def blockSize_def)
  then have "length raws < 2 ^ 32" using len by (auto simp: writer_core_def split: if_splits)
  then have raws: "unat (word_of_nat (length raws) :: u32) = length raws"
    by (simp add: unat_of_nat)
  have off: "unat (word_of_nat (length (curBuf w)) :: u32) = length (curBuf w)"
    using buf by (simp add: unat_of_nat)
  have blk: "length (blocks w) = length raws" using core by (simp add: writer_core_def)
  have "entry_ok (raws @ [?buf]) \<lparr>Block = word_of_nat (length (blocks w)),
       Offset = word_of_nat (length (curBuf w))\<rparr> d"
    using raws off buf d doc_at_new [of "curBuf w" d]
    by (simp add: entry_ok_def blk nth_append blockSize_def)
  moreover have "list_all2 (entry_ok (raws @ [?buf])) (index w) docs"
    using core by (auto simp: writer_core_def intro: list_all2_mono entry_ok_grow)
  ultimately have "list_all2 (entry_ok (raws @ [?buf])) (index (ds_append w d)) (docs @ [d])"
    by (simp add: ds_append_def list_all2_appendI)
  then show ?thesis
    using core raws blk by (auto simp: writer_core_def ds_append_def split: if_splits)
qed

lemma ds_Add_inv:
  assumes "writer_inv Z raws docs w" and "length d \<le> ds_max_doc"
    and "length docs + 1 < 2 ^ 32"
  shows "\<exists>raws'. writer_inv Z raws' (docs @ [d]) (ds_Add Z w docID d)"
proof (cases "blockSize \<le> length (curBuf (ds_append w d))")
  case True
  have core: "writer_core Z raws (docs @ [d]) (ds_append w d)"
    using assms by (intro ds_append_core) auto
  have ne: "curBuf (ds_append w d) \<noteq> []" using True by (auto simp: blockSize_def)
  have "writer_core Z (raws @ [curBuf (ds_append w d)]) (docs @ [d]) (ds_flushBlock Z (ds_append w d))"
    using core ne assms(3) by (intro flushBlock_inv) auto
  moreover have "curBuf (ds_flushBlock Z (ds_append w d)) = []"
    using core ne assms(3) by (subst flushBlock_no_repair) auto
  ultimately show ?thesis
    using True by (auto simp: ds_Add_append Let_def writer_inv_def blockSize_def)
next
  case False
  with assms show ?thesis
    by (auto simp: ds_Add_append Let_def writer_inv_def intro!: ds_append_core exI [of _ raws])
qed

section \<open>Reading back\<close>

text \<open>Document IDs are given by the memtable's counter: the \<open>i\<close>-th document gets ID \<open>i\<close>.\<close>

fun ds_AddAll :: "zstd \<Rightarrow> ds_Writer \<Rightarrow> u32 \<Rightarrow> bytes list \<Rightarrow> ds_Writer" where
  "ds_AddAll Z w docID [] = w"
| "ds_AddAll Z w docID (d # ds) = ds_AddAll Z (ds_Add Z w docID d) (docID + 1) ds"

lemma ds_AddAll_inv:
  assumes "writer_inv Z raws docs w" and "\<forall>d \<in> set ds. length d \<le> ds_max_doc"
    and "length docs + length ds < 2 ^ 32"
  shows "\<exists>raws'. writer_inv Z raws' (docs @ ds) (ds_AddAll Z w docID ds)"
  using assms
proof (induction ds arbitrary: w docs docID raws)
  case (Cons d ds)
  then obtain raws' where "writer_inv Z raws' (docs @ [d]) (ds_Add Z w docID d)"
    using ds_Add_inv [of Z raws docs w d docID] by auto
  with Cons.prems Cons.IH [of raws' "docs @ [d]" "ds_Add Z w docID d" "docID + 1"]
  show ?case by simp
qed auto

lemma writer_inv_New:
  "ds_NewWriter Z = Ok w \<Longrightarrow> writer_inv Z [] [] w"
  by (auto simp: ds_NewWriter_def res_bind_eq_Ok writer_inv_def writer_core_def blockSize_def)

lemma ds_Get_doc_at:
  assumes Z: "zstd_ok Z" and e: "entry_ok bufs e d"
  shows "ds_Get Z (map (zstd_EncodeAll Z) bufs) e = Ok d"
proof -
  let ?raw = "bufs ! unat (Block e)" and ?off = "unat (Offset e)"
  from e have blk: "unat (Block e) < length bufs" and off: "?off < 65536"
    and d: "length d \<le> 2 ^ 32 - 65540" and at: "doc_at ?raw ?off d"
    by (simp_all add: entry_ok_def blockSize_def ds_max_doc_def)
  from at have len: "?off + 4 + length d \<le> length ?raw" by (simp add: doc_at_def)
  have n: "unat (word_of_nat (length d) :: u32) = length d" using d by (simp add: unat_of_nat)
  have split: "drop ?off ?raw = put_u32 (word_of_nat (length d)) @ d @ drop (4 + length d) (drop ?off ?raw)"
    using at unfolding doc_at_def by (metis append_assoc append_take_drop_id)
  have start: "unat (Offset e + 4) = ?off + 4"
    using off by (simp add: unat_word_ariths)
  have stop: "unat (Offset e + 4 + word_of_nat (length d)) = ?off + 4 + length d"
    using off d start n by (simp add: unat_word_ariths(1) [of "Offset e + 4"])
  have body: "take (length d) (drop (?off + 4) ?raw) = d"
  proof -
    have "drop (?off + 4) ?raw = drop 4 (drop ?off ?raw)" by (simp add: add.commute)
    also have "\<dots> = d @ drop (4 + length d) (drop ?off ?raw)" by (subst split) simp
    finally show ?thesis by simp
  qed
  have lenword: "res_bind (slice_from ?raw ?off) le_u32 = Ok (word_of_nat (length d))"
    using len by (simp add: slice_from_def) (subst split, simp)
  show ?thesis
    using Z blk len body start stop
    by (simp add: ds_Get_def Let_def zstd_ok_def lenword slice_cap_def)
qed

text \<open>No block is empty: a block is only written for a buffer that is not empty.\<close>

lemma ds_flushBlock_nonempty: "zstd_ok Z \<Longrightarrow> [] \<notin> set (blocks w) \<Longrightarrow> [] \<notin> set (blocks (ds_flushBlock Z w))"
  by (auto simp: ds_flushBlock_def Let_def zstd_ok_def)

lemma ds_Add_nonempty: "zstd_ok Z \<Longrightarrow> [] \<notin> set (blocks w) \<Longrightarrow> [] \<notin> set (blocks (ds_Add Z w i d))"
  by (simp add: ds_Add_def Let_def ds_flushBlock_nonempty)

lemma ds_AddAll_nonempty: "zstd_ok Z \<Longrightarrow> [] \<notin> set (blocks w) \<Longrightarrow> [] \<notin> set (blocks (ds_AddAll Z w i ds))"
  by (induction ds arbitrary: w i) (simp_all add: ds_Add_nonempty)

lemma ds_blocks_nonempty:
  assumes "zstd_ok Z" and "ds_NewWriter Z = Ok w" and "ds_Finalize Z (ds_AddAll Z w i ds) = (blks, idx)"
  shows "[] \<notin> set blks"
proof -
  have "[] \<notin> set (blocks w)" using assms(1,2) by (auto simp: ds_NewWriter_def zstd_ok_def)
  then have "[] \<notin> set (blocks (ds_flushBlock Z (ds_AddAll Z w i ds)))"
    using assms(1) by (intro ds_flushBlock_nonempty ds_AddAll_nonempty)
  then show ?thesis using assms(3) by (auto simp: ds_Finalize_def Let_def)
qed

lemma ds_store_roundtrip:
  assumes Z: "zstd_ok Z" and w: "ds_NewWriter Z = Ok w"
    and ds: "\<forall>d \<in> set ds. length d \<le> ds_max_doc" and len: "length ds < 2 ^ 32"
    and fin: "ds_Finalize Z (ds_AddAll Z w 0 ds) = (blks, idx)"
  shows "length idx = length ds \<and> length blks \<le> length ds \<and>
    (\<forall>i < length ds. ds_Get Z blks (idx ! i) = Ok (ds ! i))"
proof -
  let ?w = "ds_AddAll Z w 0 ds"
  obtain raws where inv: "writer_core Z raws ds ?w"
    using ds_AddAll_inv [OF writer_inv_New [OF w] ds, of 0] len by (auto simp: writer_inv_def)
  obtain raws' where core: "writer_core Z raws' ds (ds_flushBlock Z ?w)"
    and empty: "curBuf (ds_flushBlock Z ?w) = []"
  proof (cases "curBuf ?w = []")
    case True
    with inv that [of raws] show thesis by (simp add: ds_flushBlock_def)
  next
    case False
    with inv len that [OF flushBlock_inv [OF inv]] flushBlock_no_repair [OF inv]
    show thesis by simp
  qed
  have blks: "blks = map (zstd_EncodeAll Z) raws'"
    and idx: "idx = index (ds_flushBlock Z ?w)"
    using core fin by (auto simp: ds_Finalize_def writer_core_def Let_def)
  have "list_all2 (entry_ok (raws' @ [[]])) idx ds"
    using core empty by (simp add: writer_core_def idx)
  moreover have "entry_ok (raws' @ [[]]) e d \<Longrightarrow> entry_ok raws' e d" for e d
    by (auto simp: entry_ok_def doc_at_def nth_append split: if_splits)
  ultimately have "list_all2 (entry_ok raws') idx ds" by (blast intro: list_all2_mono)
  then show ?thesis
    using core Z blks
    by (auto simp: list_all2_conv_all_nth writer_core_def ds_Get_doc_at split: if_splits)
qed

section \<open>Properties\<close>

definition id_zstd :: zstd where
  "id_zstd = \<lparr>zstd_NewWriter = Ok (), zstd_NewReader = Ok (), zstd_EncodeAll = (\<lambda>b. b),
     zstd_DecodeAll = Ok\<rparr>"

lemma id_zstd_ok: "zstd_ok id_zstd"
  by (simp add: zstd_ok_def id_zstd_def)

text \<open>C27: Documents added one after the other to a new store are read back unchanged: the finished
  store has one index entry per document, and \<open>Get\<close> with the \<open>i\<close>-th entry returns the \<open>i\<close>-th
  document.\<close>

theorem docstore_roundtrip:
  assumes "zstd_ok Z" and "ds_NewWriter Z = Ok w"
    and "\<forall>d \<in> set ds. length d \<le> ds_max_doc" and "length ds < 2 ^ 32"
    and "ds_Finalize Z (ds_AddAll Z w 0 ds) = (blks, idx)"
  shows "length idx = length ds \<and> length blks \<le> length ds \<and>
    (\<forall>i < length ds. ds_Get Z blks (idx ! i) = Ok (ds ! i))"
  using assms by (rule ds_store_roundtrip)

theorem docstore_roundtrip_witness:
  "ds_Get id_zstd (fst (ds_Finalize id_zstd (ds_AddAll id_zstd
      \<lparr>blocks = [], index = [], curBuf = [], curDocs = 0, curStart = 0\<rparr> 0 [[1, 2], [3]])))
    (snd (ds_Finalize id_zstd (ds_AddAll id_zstd
      \<lparr>blocks = [], index = [], curBuf = [], curDocs = 0, curStart = 0\<rparr> 0 [[1, 2], [3]])) ! 1) = Ok [3]"
proof -
  let ?w = "\<lparr>blocks = [], index = [], curBuf = [], curDocs = 0, curStart = 0\<rparr>"
  let ?ds = "[[1, 2], [3]] :: bytes list"
  have w: "ds_NewWriter id_zstd = Ok ?w" by (simp add: ds_NewWriter_def id_zstd_def)
  have ds: "\<forall>d \<in> set ?ds. length d \<le> ds_max_doc" "length ?ds < 2 ^ 32" by (simp_all add: ds_max_doc_def)
  have "1 < length ?ds" by simp
  then have "ds_Get id_zstd (fst (ds_Finalize id_zstd (ds_AddAll id_zstd ?w 0 ?ds)))
      (snd (ds_Finalize id_zstd (ds_AddAll id_zstd ?w 0 ?ds)) ! 1) = Ok (?ds ! 1)"
    using docstore_roundtrip [OF id_zstd_ok w ds prod.collapse [symmetric]] by blast
  then show ?thesis by (simp del: ds_AddAll.simps)
qed

text \<open>\<open>DecodeIndex\<close> accepts exactly the byte strings that \<open>EncodeIndex\<close> produces, and inverts
  it.\<close>

theorem docstore_index_exact: "DecodeIndex data = Ok idx \<longleftrightarrow> data = EncodeIndex idx"
  by (rule DecodeIndex_iff)

end
