(* ===== verification/Go_Float.thy ===== *)
theory Go_Float
  imports Prelude Complex_Main
begin

text \<open>
  Go's floating-point numbers as far as the code uses them. A \<open>float32\<close> is its IEEE 754 bit
  pattern, so \<open>math.Float32bits\<close> and \<open>math.Float32frombits\<close> are the identity; a conversion
  from an integer and a quotient of two small integers are rounded to the nearest pattern, ties
  to even. A \<open>float64\<close> score is a real number: rounding of scores is not modelled.
\<close>

type_synonym f32 = u32

text \<open>The value of a finite non-negative pattern.\<close>

definition f32_exponent :: "f32 \<Rightarrow> nat" where "f32_exponent w = unat (drop_bit 23 (take_bit 31 w))"
definition f32_fraction :: "f32 \<Rightarrow> nat" where "f32_fraction w = unat (take_bit 23 w)"

definition f32_real :: "f32 \<Rightarrow> real" where
  "f32_real w = (if f32_exponent w = 0 then real (f32_fraction w) / 2 ^ 149
     else real (2 ^ 23 + f32_fraction w) * 2 ^ f32_exponent w / 2 ^ 150)"

text \<open>Round \<open>num / den\<close> (\<open>den > 0\<close>) to an integer, ties to even.\<close>

definition round_even :: "nat \<Rightarrow> nat \<Rightarrow> nat" where
  "round_even num den =
     (let q = num div den; r = num mod den in
      if 2 * r < den then q else if den < 2 * r then q + 1 else if even q then q else q + 1)"

text \<open>
  \<open>f32_scale k num den\<close> looks for the exponent: it doubles the denominator while the quotient
  is at least \<open>2^24\<close>. Starting from \<open>num * 2^64\<close>, a quotient of 64-bit integers is in range.
\<close>

function f32_scale :: "nat \<Rightarrow> nat \<Rightarrow> nat \<Rightarrow> nat \<times> nat" where
  "f32_scale k num den =
     (if den = 0 \<or> num < 2 ^ 24 * den then (k, round_even num den)
      else f32_scale (Suc k) num (2 * den))"
  by pat_completeness auto
termination
  by (relation "measure (\<lambda>(k, num, den). num - den)") auto

definition f32_of_ratio :: "nat \<Rightarrow> nat \<Rightarrow> f32" where
  "f32_of_ratio num den =
     (if num = 0 then 0
      else let (k, m) = f32_scale 0 (num * 2 ^ 64) den in
        word_of_nat ((k + 86) * 2 ^ 23 + (m - 2 ^ 23)))"

definition f32_of_nat :: "nat \<Rightarrow> f32" where
  "f32_of_nat n = f32_of_ratio n 1"

text \<open>The significand and the power of two of a pattern, so that quotients stay exact.\<close>

definition f32_num :: "f32 \<Rightarrow> nat" where "f32_num w = (2 ^ 23 + f32_fraction w) * 2 ^ f32_exponent w"

definition f32_div :: "f32 \<Rightarrow> f32 \<Rightarrow> f32" where
  "f32_div a b = (if a = 0 then 0 else f32_of_ratio (f32_num a) (f32_num b))"

end
