(* ===== verification/Seg_Format.thy ===== *)
theory Seg_Format
  imports Go_Float
begin

text \<open>
  The two file formats of package \<open>segment\<close>: the 128-byte footer of a \<open>.seg\<close> file
  (\<open>src/pkg/segment/format.go\<close>) and the \<open>.hotcache\<close> file
  (\<open>src/pkg/segment/hotcache.go\<close>). The FST library vellum is the parameter \<open>V\<close>;
  \<open>vellum_ok V\<close> states its documented behaviour. The hotcache decoder indexes into its input
  without checking lengths, so on a damaged file it panics: \<open>Panic\<close> is a possible outcome of
  the model. Results: the footer and the hotcache are read back as they were written, whatever
  precedes the footer and whatever the spare capacity behind the hotcache bytes holds, and a term
  looked up in a decoded field finds the offsets it was written with.
\<close>

section \<open>Footer\<close>

definition Magic :: string where "Magic = ''S3S1''"
definition seg_Version :: u32 where "seg_Version = 1"
definition FooterSize :: nat where "FooterSize = 128"

record Footer =
  PostingsOffset :: u64
  PostingsLen :: u64
  PositionsOffset :: u64
  PositionsLen :: u64
  DocstoreOffset :: u64
  DocstoreLen :: u64
  DoclensOffset :: u64
  DoclensLen :: u64
  DocCount :: u32

definition footerPad :: nat where "footerPad = FooterSize - 8 * 8 - 4 - 4 - 4"

definition EncodeFooter :: "Footer \<Rightarrow> bytes" where
  "EncodeFooter f =
     put_u64 (PostingsOffset f) @ put_u64 (PostingsLen f) @
     put_u64 (PositionsOffset f) @ put_u64 (PositionsLen f) @
     put_u64 (DocstoreOffset f) @ put_u64 (DocstoreLen f) @
     put_u64 (DoclensOffset f) @ put_u64 (DoclensLen f) @
     put_u32 (DocCount f) @ replicate footerPad 0 @ put_u32 seg_Version @ bytes_of Magic"

text \<open>\<open>getU64\<close> and \<open>getU32\<close> of \<open>DecodeFooter\<close>: read at an offset of \<open>tail\<close>.\<close>

definition getU64 :: "bytes \<Rightarrow> nat \<Rightarrow> u64 result" where
  "getU64 tail off = res_bind (slice_from tail off) le_u64"

definition getU32 :: "bytes \<Rightarrow> nat \<Rightarrow> u32 result" where
  "getU32 tail off = res_bind (slice_from tail off) le_u32"

definition DecodeFooter :: "bytes \<Rightarrow> Footer result" where
  "DecodeFooter data =
     (if length data < FooterSize then Err (ErrMsg ''segment: footer data too short'')
      else let tail = drop (length data - FooterSize) data in
        if string_of (drop (FooterSize - 4) tail) \<noteq> Magic
        then Err (ErrMsg ''segment: bad footer magic'')
        else
          res_bind (getU64 tail 0) (\<lambda>po. res_bind (getU64 tail 8) (\<lambda>pl.
          res_bind (getU64 tail 16) (\<lambda>qo. res_bind (getU64 tail 24) (\<lambda>ql.
          res_bind (getU64 tail 32) (\<lambda>so. res_bind (getU64 tail 40) (\<lambda>sl.
          res_bind (getU64 tail 48) (\<lambda>lo. res_bind (getU64 tail 56) (\<lambda>ll.
          res_bind (getU32 tail 64) (\<lambda>dc.
            Ok \<lparr>PostingsOffset = po, PostingsLen = pl, PositionsOffset = qo,
                PositionsLen = ql, DocstoreOffset = so, DocstoreLen = sl,
                DoclensOffset = lo, DoclensLen = ll, DocCount = dc\<rparr>))))))))))"

lemma length_EncodeFooter [simp]: "length (EncodeFooter f) = FooterSize"
  by (simp add: EncodeFooter_def footerPad_def FooterSize_def Magic_def)

lemma DecodeFooter_append: "DecodeFooter (pre @ EncodeFooter f) = Ok f"
proof -
  have magic: "string_of (drop 124 (EncodeFooter f)) = Magic"
    by (simp add: EncodeFooter_def footerPad_def FooterSize_def)
  then show ?thesis
    by (simp add: DecodeFooter_def)
      (simp add: FooterSize_def, simp add: getU64_def getU32_def slice_from_def
        EncodeFooter_def footerPad_def FooterSize_def Magic_def)
qed

lemma getU64_in: "off + 8 \<le> length b \<Longrightarrow> getU64 b off = Ok (le_word (take 8 (drop off b)))"
  by (simp add: getU64_def slice_from_def le_u64_def)

lemma getU32_in: "off + 4 \<le> length b \<Longrightarrow> getU32 b off = Ok (le_word (take 4 (drop off b)))"
  by (simp add: getU32_def slice_from_def le_u32_def)

lemma DecodeFooter_Ok_iff:
  "(\<exists>f. DecodeFooter data = Ok f) \<longleftrightarrow>
     FooterSize \<le> length data \<and> string_of (drop (length data - 4) data) = Magic"
proof (cases "length data < FooterSize")
  case True
  then show ?thesis by (simp add: DecodeFooter_def)
next
  case False
  define tl' where "tl' = drop (length data - FooterSize) data"
  have len: "length tl' = 128" using False by (simp add: tl'_def FooterSize_def)
  have "drop (FooterSize - 4) tl' = drop (length data - 4) data"
    using False by (simp add: tl'_def FooterSize_def)
  then show ?thesis
    using False len by (simp add: DecodeFooter_def Let_def getU64_in getU32_in flip: tl'_def)
qed

section \<open>The vellum library\<close>

text \<open>
  A builder (type \<open>'w\<close>) takes keys in strictly increasing order; \<open>Close\<close> yields the bytes
  written; \<open>Load\<close> makes an FST (type \<open>'f\<close>) of them. The iterator from a start key yields the
  entries whose key is not below it, in order.
\<close>

record ('w, 'f) vellum =
  v_New :: "'w result"
  v_Insert :: "'w \<Rightarrow> bytes \<Rightarrow> u64 \<Rightarrow> 'w result"
  v_Close :: "'w \<Rightarrow> bytes result"
  v_Load :: "bytes \<Rightarrow> 'f result"
  v_Get :: "'f \<Rightarrow> bytes \<Rightarrow> (u64 \<times> bool) result"
  v_Iterator :: "'f \<Rightarrow> bytes \<Rightarrow> (bytes \<times> u64) list"

fun v_InsertAll :: "('w, 'f) vellum \<Rightarrow> 'w \<Rightarrow> (bytes \<times> u64) list \<Rightarrow> 'w result" where
  "v_InsertAll V b [] = Ok b"
| "v_InsertAll V b ((k, v) # kvs) =
     res_bind (res_wrap ''fst insert'' (v_Insert V b k v)) (\<lambda>b. v_InsertAll V b kvs)"

definition fst_build :: "('w, 'f) vellum \<Rightarrow> (bytes \<times> u64) list \<Rightarrow> bytes result" where
  "fst_build V kvs =
     res_bind (res_wrap ''fst new'' (v_New V)) (\<lambda>b.
     res_bind (v_InsertAll V b kvs) (\<lambda>b. res_wrap ''fst close'' (v_Close V b)))"

definition vellum_ok :: "('w, 'f) vellum \<Rightarrow> bool" where
  "vellum_ok V \<longleftrightarrow>
     (\<forall>kvs. sorted_wrt (<) (map fst kvs) \<longrightarrow>
       (\<exists>d f. fst_build V kvs = Ok d \<and> v_Load V d = Ok f \<and>
         (\<forall>k. v_Get V f k = (case map_of kvs k of None \<Rightarrow> Ok (0, False) | Some v \<Rightarrow> Ok (v, True))) \<and>
         (\<forall>start. v_Iterator V f start = filter (\<lambda>(k, v). start \<le> k) kvs)))"

lemma vellum_okE:
  assumes "vellum_ok V" and "sorted_wrt (<) (map fst kvs)"
  obtains d f where "fst_build V kvs = Ok d" "v_Load V d = Ok f"
    "\<And>k. v_Get V f k = (case map_of kvs k of None \<Rightarrow> Ok (0, False) | Some v \<Rightarrow> Ok (v, True))"
    "\<And>start. v_Iterator V f start = filter (\<lambda>(k, v). start \<le> k) kvs"
  using assms unfolding vellum_ok_def by blast

section \<open>Hotcache\<close>

definition hotcacheMagic :: string where "hotcacheMagic = ''S3HC''"

record TermOffsets =
  PostOff :: u64
  PostLen :: u64
  PosOff :: u64
  PosLen :: u64

record 'f FieldHotcache =
  fh_Name :: string
  fh_FST :: "'f option"
  fh_TermTable :: "TermOffsets list"
  fh_Doclens :: "u32 list"
  fh_AvgDoclen :: f32

record 'f Hotcache =
  hc_Fields :: "'f FieldHotcache list"
  hc_DocstoreIdx :: bytes
  hc_DocCount :: u32
  hc_NumDocstoreBlocks :: u32
  hc_fieldIndex :: "string \<rightharpoonup> 'f FieldHotcache"

definition hc_Field :: "'f Hotcache \<Rightarrow> string \<Rightarrow> 'f FieldHotcache option" where
  "hc_Field h name = hc_fieldIndex h name"

record HotcacheFieldInput =
  hi_Name :: string
  hi_FSTBytes :: bytes
  hi_TermOffsets :: "TermOffsets list"
  hi_Doclens :: "u32 list"
  hi_AvgDoclen :: f32

definition writeU32 :: "bytes \<Rightarrow> u32 \<Rightarrow> bytes" where
  "writeU32 buf v = buf @ put_u32 v"

definition writeBlob :: "bytes \<Rightarrow> bytes \<Rightarrow> bytes" where
  "writeBlob buf data = writeU32 buf (word_of_nat (length data)) @ data"

definition math32bits :: "f32 \<Rightarrow> u32" where "math32bits f = f"
definition bitsToFloat32 :: "u32 \<Rightarrow> f32" where "bitsToFloat32 v = v"

definition enc_term_offsets :: "TermOffsets \<Rightarrow> bytes" where
  "enc_term_offsets t =
     put_u64 (PostOff t) @ put_u64 (PostLen t) @ put_u64 (PosOff t) @ put_u64 (PosLen t)"

definition encode_field :: "bytes \<Rightarrow> HotcacheFieldInput \<Rightarrow> bytes" where
  "encode_field buf f =
     (let buf = writeBlob buf (bytes_of (hi_Name f));
          buf = writeBlob buf (hi_FSTBytes f);
          buf = writeBlob buf (concat (map enc_term_offsets (hi_TermOffsets f)));
          buf = writeBlob buf (concat (map put_u32 (hi_Doclens f)))
      in writeU32 buf (math32bits (hi_AvgDoclen f)))"

definition EncodeHotcache :: "HotcacheFieldInput list \<Rightarrow> bytes \<Rightarrow> u32 \<Rightarrow> u32 \<Rightarrow> bytes result" where
  "EncodeHotcache flds docstoreIdx docCount numDocstoreBlocks =
     (let buf = bytes_of hotcacheMagic;
          buf = writeU32 buf 1;
          buf = writeU32 buf docCount;
          buf = writeU32 buf numDocstoreBlocks;
          buf = writeU32 buf (word_of_nat (length flds));
          buf = writeBlob buf docstoreIdx
      in Ok (foldl encode_field buf flds))"

text \<open>The closures \<open>getU32\<close> and \<open>getBlob\<close> return the value and the advanced offset.\<close>

definition hc_getU32 :: "bytes \<Rightarrow> nat \<Rightarrow> (u32 \<times> nat) result" where
  "hc_getU32 data off = res_bind (getU32 data off) (\<lambda>v. Ok (v, off + 4))"

definition hc_getBlob :: "bytes \<Rightarrow> bytes \<Rightarrow> nat \<Rightarrow> (bytes \<times> nat) result" where
  "hc_getBlob data spare off =
     res_bind (hc_getU32 data off) (\<lambda>(l, off).
     res_bind (slice_cap data spare off (off + unat l)) (\<lambda>b. Ok (b, off + unat l)))"

definition dec_term_offsets :: "bytes \<Rightarrow> (TermOffsets \<times> bytes) result" where
  "dec_term_offsets b =
     res_bind (getU64 b 0) (\<lambda>po. res_bind (getU64 b 8) (\<lambda>pl.
     res_bind (getU64 b 16) (\<lambda>qo. res_bind (getU64 b 24) (\<lambda>ql.
       Ok (\<lparr>PostOff = po, PostLen = pl, PosOff = qo, PosLen = ql\<rparr>, drop 32 b)))))"

definition dec_u32 :: "bytes \<Rightarrow> (u32 \<times> bytes) result" where
  "dec_u32 b = res_bind (le_u32 b) (\<lambda>v. Ok (v, drop 4 b))"

definition decode_field ::
  "('w, 'f) vellum \<Rightarrow> bytes \<Rightarrow> bytes \<Rightarrow> nat \<Rightarrow> ('f FieldHotcache \<times> nat) result" where
  "decode_field V data spare off =
     res_bind (hc_getBlob data spare off) (\<lambda>(name, off).
     res_bind (hc_getBlob data spare off) (\<lambda>(fstBytes, off).
     res_bind (hc_getBlob data spare off) (\<lambda>(tblBytes, off).
     res_bind (hc_getBlob data spare off) (\<lambda>(doclensBytes, off).
     res_bind (hc_getU32 data off) (\<lambda>(avgDoclenbits, off).
     res_bind (res_wrap ''hotcache: field fst'' (v_Load V fstBytes)) (\<lambda>f.
     res_bind (decode_n dec_term_offsets (length tblBytes div 32) tblBytes) (\<lambda>(termTable, _).
     res_bind (if 0 < length doclensBytes
               then decode_n dec_u32 (length doclensBytes div 4) doclensBytes
               else Ok ([], [])) (\<lambda>(doclens, _).
       Ok (\<lparr>fh_Name = string_of name, fh_FST = Some f, fh_TermTable = termTable,
           fh_Doclens = doclens, fh_AvgDoclen = bitsToFloat32 avgDoclenbits\<rparr>, off)))))))))"

fun decode_fields ::
  "('w, 'f) vellum \<Rightarrow> bytes \<Rightarrow> bytes \<Rightarrow> nat \<Rightarrow> nat \<Rightarrow> 'f Hotcache \<Rightarrow> 'f Hotcache result" where
  "decode_fields V data spare 0 off hc = Ok hc"
| "decode_fields V data spare (Suc k) off hc =
     res_bind (decode_field V data spare off) (\<lambda>(fhc, off).
       decode_fields V data spare k off
         (hc\<lparr>hc_Fields := hc_Fields hc @ [fhc],
             hc_fieldIndex := (hc_fieldIndex hc)(fh_Name fhc \<mapsto> fhc)\<rparr>))"

definition DecodeHotcache :: "('w, 'f) vellum \<Rightarrow> bytes \<Rightarrow> bytes \<Rightarrow> 'f Hotcache result" where
  "DecodeHotcache V data spare =
     (if length data < 4 \<or> string_of (take 4 data) \<noteq> hotcacheMagic
      then Err (ErrMsg ''hotcache: bad magic'')
      else
        res_bind (hc_getU32 data 4) (\<lambda>(_, off).
        res_bind (hc_getU32 data off) (\<lambda>(docCount, off).
        res_bind (hc_getU32 data off) (\<lambda>(numDocstoreBlocks, off).
        res_bind (hc_getU32 data off) (\<lambda>(numFields, off).
        res_bind (hc_getBlob data spare off) (\<lambda>(docstoreIdx, off).
          decode_fields V data spare (unat numFields) off
            \<lparr>hc_Fields = [], hc_DocstoreIdx = docstoreIdx, hc_DocCount = docCount,
             hc_NumDocstoreBlocks = numDocstoreBlocks, hc_fieldIndex = Map.empty\<rparr>))))))"

text \<open>
  \<open>int(id)\<close> is negative for an ID of \<open>2^63\<close> or more, which then passes the length check and
  makes the index expression panic.
\<close>

definition LookupTerm ::
  "('w, 'f) vellum \<Rightarrow> 'f FieldHotcache \<Rightarrow> string \<Rightarrow> TermOffsets option result" where
  "LookupTerm V fhc term =
     (case fh_FST fhc of None \<Rightarrow> Ok None
      | Some f \<Rightarrow>
        (case v_Get V f (bytes_of term) of
           Panic \<Rightarrow> Panic
         | Err e \<Rightarrow> Ok None
         | Ok (termID, exists) \<Rightarrow>
             if \<not> exists then Ok None
             else if int (length (fh_TermTable fhc)) \<le> sint termID then Ok None
             else if length (fh_TermTable fhc) \<le> unat termID then Panic
             else Ok (Some (fh_TermTable fhc ! unat termID))))"

section \<open>Reading a hotcache back\<close>

definition blob :: "bytes \<Rightarrow> bytes" where
  "blob b = put_u32 (word_of_nat (length b)) @ b"

definition field_bytes :: "HotcacheFieldInput \<Rightarrow> bytes" where
  "field_bytes f = blob (bytes_of (hi_Name f)) @ blob (hi_FSTBytes f) @
     blob (concat (map enc_term_offsets (hi_TermOffsets f))) @
     blob (concat (map put_u32 (hi_Doclens f))) @ put_u32 (hi_AvgDoclen f)"

text \<open>Every length the format stores in 32 bits fits.\<close>

definition input_wf :: "HotcacheFieldInput \<Rightarrow> bool" where
  "input_wf f \<longleftrightarrow> length (hi_Name f) < 2 ^ 32 \<and> length (hi_FSTBytes f) < 2 ^ 32 \<and>
     32 * length (hi_TermOffsets f) < 2 ^ 32 \<and> 4 * length (hi_Doclens f) < 2 ^ 32"

definition field_of :: "HotcacheFieldInput \<Rightarrow> 'f \<Rightarrow> 'f FieldHotcache" where
  "field_of f x = \<lparr>fh_Name = hi_Name f, fh_FST = Some x, fh_TermTable = hi_TermOffsets f,
     fh_Doclens = hi_Doclens f, fh_AvgDoclen = hi_AvgDoclen f\<rparr>"

definition add_field :: "'f Hotcache \<Rightarrow> 'f FieldHotcache \<Rightarrow> 'f Hotcache" where
  "add_field hc fhc = hc\<lparr>hc_Fields := hc_Fields hc @ [fhc],
     hc_fieldIndex := (hc_fieldIndex hc)(fh_Name fhc \<mapsto> fhc)\<rparr>"

lemma writeBlob_blob: "writeBlob buf b = buf @ blob b"
  by (simp add: writeBlob_def writeU32_def blob_def)

lemma encode_field_bytes: "encode_field buf f = buf @ field_bytes f"
  by (simp add: encode_field_def field_bytes_def writeBlob_blob writeU32_def math32bits_def)

lemma encode_fields_bytes: "foldl encode_field buf fs = buf @ concat (map field_bytes fs)"
  by (induction fs arbitrary: buf) (simp_all add: encode_field_bytes)

lemma EncodeHotcache_bytes:
  "EncodeHotcache fs idx dc nb =
     Ok (bytes_of hotcacheMagic @ put_u32 1 @ put_u32 dc @ put_u32 nb @
       put_u32 (word_of_nat (length fs)) @ blob idx @ concat (map field_bytes fs))"
  by (simp add: EncodeHotcache_def encode_fields_bytes writeU32_def writeBlob_blob)

lemma hc_getU32_at:
  "data = pre @ put_u32 v @ post \<Longrightarrow> off = length pre \<Longrightarrow> hc_getU32 data off = Ok (v, off + 4)"
  by (simp add: hc_getU32_def getU32_def slice_from_def)

lemma hc_getBlob_at:
  assumes "data = pre @ blob b @ post" and "off = length pre" and "length b < 2 ^ 32"
  shows "hc_getBlob data spare off = Ok (b, off + length (blob b))"
proof -
  have "hc_getU32 data off = Ok (word_of_nat (length b), off + 4)"
    using assms by (intro hc_getU32_at [of _ pre _ "b @ post"]) (simp_all add: blob_def)
  moreover have "unat (word_of_nat (length b) :: u32) = length b"
    using assms(3) by (simp add: unat_of_nat)
  moreover have "slice_cap data spare (off + 4) (off + 4 + length b) = Ok b"
    using assms by (simp add: slice_cap_def blob_def)
  ultimately show ?thesis by (simp add: hc_getBlob_def blob_def)
qed

lemma dec_term_offsets_enc: "dec_term_offsets (enc_term_offsets t @ rest) = Ok (t, rest)"
  by (simp add: dec_term_offsets_def enc_term_offsets_def getU64_def slice_from_def)

interpretation term_offsets: frame_codec enc_term_offsets dec_term_offsets "\<lambda>_. True"
  by unfold_locales (rule dec_term_offsets_enc)

lemma dec_u32_put: "dec_u32 (put_u32 v @ rest) = Ok (v, rest)"
  by (simp add: dec_u32_def)

interpretation doclens: frame_codec put_u32 dec_u32 "\<lambda>_. True"
  by unfold_locales (rule dec_u32_put)

lemma length_enc_term_offsets: "length (concat (map enc_term_offsets ts)) = 32 * length ts"
  by (induction ts) (simp_all add: enc_term_offsets_def)

lemma length_put_u32s: "length (concat (map put_u32 ds)) = 4 * length ds"
  by (induction ds) simp_all

lemma decode_field_at:
  assumes data: "data = pre @ field_bytes f @ post" and off: "off = length pre"
    and wf: "input_wf f" and load: "v_Load V (hi_FSTBytes f) = Ok x"
  shows "decode_field V data spare off = Ok (field_of f x, off + length (field_bytes f))"
proof -
  let ?n = "blob (bytes_of (hi_Name f))" and ?s = "blob (hi_FSTBytes f)"
    and ?t = "blob (concat (map enc_term_offsets (hi_TermOffsets f)))"
    and ?d = "blob (concat (map put_u32 (hi_Doclens f)))"
  note len = length_enc_term_offsets length_put_u32s
  have d: "data = pre @ ?n @ ?s @ ?t @ ?d @ put_u32 (hi_AvgDoclen f) @ post"
    using data by (simp add: field_bytes_def)
  have "hc_getBlob data spare off = Ok (bytes_of (hi_Name f), off + length ?n)"
    by (rule hc_getBlob_at [OF d off]) (use wf in \<open>simp add: input_wf_def\<close>)
  moreover have "hc_getBlob data spare (off + length ?n) = Ok (hi_FSTBytes f, off + length (?n @ ?s))"
    using hc_getBlob_at [of data "pre @ ?n" "hi_FSTBytes f"] d off wf
    by (simp add: input_wf_def add.assoc)
  moreover have "hc_getBlob data spare (off + length (?n @ ?s)) =
      Ok (concat (map enc_term_offsets (hi_TermOffsets f)), off + length (?n @ ?s @ ?t))"
    using hc_getBlob_at [of data "pre @ ?n @ ?s" "concat (map enc_term_offsets (hi_TermOffsets f))"] d off wf
    by (simp add: input_wf_def len add.assoc)
  moreover have "hc_getBlob data spare (off + length (?n @ ?s @ ?t)) =
      Ok (concat (map put_u32 (hi_Doclens f)), off + length (?n @ ?s @ ?t @ ?d))"
    using hc_getBlob_at [of data "pre @ ?n @ ?s @ ?t" "concat (map put_u32 (hi_Doclens f))"] d off wf
    by (simp add: input_wf_def len add.assoc)
  moreover have "hc_getU32 data (off + length (?n @ ?s @ ?t @ ?d)) =
      Ok (hi_AvgDoclen f, off + length (field_bytes f))"
    using hc_getU32_at [of data "pre @ ?n @ ?s @ ?t @ ?d" "hi_AvgDoclen f" post] d off
    by (simp add: field_bytes_def add.assoc)
  moreover have "(if 0 < length (concat (map put_u32 (hi_Doclens f)))
      then decode_n dec_u32 (length (concat (map put_u32 (hi_Doclens f))) div 4)
        (concat (map put_u32 (hi_Doclens f)))
      else Ok ([], [])) = Ok (hi_Doclens f, [])"
    using doclens.decode_n_concat [of "hi_Doclens f" "[]"] by (auto simp: len)
  ultimately show ?thesis
    using load term_offsets.decode_n_concat [of "hi_TermOffsets f" "[]"]
    by (simp add: decode_field_def len(1) field_of_def bitsToFloat32_def del: length_concat)
qed

lemma decode_fields_Suc:
  "decode_fields V data spare (Suc k) off hc =
     res_bind (decode_field V data spare off) (\<lambda>(fhc, off).
       decode_fields V data spare k off (add_field hc fhc))"
  by (simp add: add_field_def)

lemma decode_fields_at:
  assumes "list_all2 (\<lambda>f x. input_wf f \<and> v_Load V (hi_FSTBytes f) = Ok x) fs xs"
    and "data = pre @ concat (map field_bytes fs) @ post" and "off = length pre"
  shows "decode_fields V data spare (length fs) off hc =
    Ok (foldl add_field hc (map2 field_of fs xs))"
  using assms
proof (induction fs xs arbitrary: pre off hc rule: list_all2_induct)
  case (Cons f fs x xs)
  have "decode_field V data spare off = Ok (field_of f x, off + length (field_bytes f))"
    using Cons by (intro decode_field_at [of data pre f "concat (map field_bytes fs) @ post"]) simp_all
  moreover have "decode_fields V data spare (length fs) (off + length (field_bytes f))
      (add_field hc (field_of f x)) = Ok (foldl add_field (add_field hc (field_of f x)) (map2 field_of fs xs))"
    using Cons by (intro Cons.IH [of "pre @ field_bytes f"]) simp_all
  ultimately show ?case by (simp add: decode_fields_Suc del: decode_fields.simps(2))
qed simp

text \<open>The hotcache that reading back yields.\<close>

definition hotcache_of ::
  "HotcacheFieldInput list \<Rightarrow> 'f list \<Rightarrow> bytes \<Rightarrow> u32 \<Rightarrow> u32 \<Rightarrow> 'f Hotcache" where
  "hotcache_of fs xs idx dc nb = foldl add_field
     \<lparr>hc_Fields = [], hc_DocstoreIdx = idx, hc_DocCount = dc, hc_NumDocstoreBlocks = nb,
      hc_fieldIndex = Map.empty\<rparr> (map2 field_of fs xs)"

lemma DecodeHotcache_Encode:
  assumes fs: "list_all2 (\<lambda>f x. input_wf f \<and> v_Load V (hi_FSTBytes f) = Ok x) fs xs"
    and n: "length fs < 2 ^ 32" and idx: "length idx < 2 ^ 32"
    and enc: "EncodeHotcache fs idx dc nb = Ok data"
  shows "DecodeHotcache V data spare = Ok (hotcache_of fs xs idx dc nb)"
proof -
  let ?m = "bytes_of hotcacheMagic" and ?n = "word_of_nat (length fs) :: u32"
  have d: "data = ?m @ put_u32 1 @ put_u32 dc @ put_u32 nb @ put_u32 ?n @ blob idx @
      concat (map field_bytes fs)"
    using enc by (simp add: EncodeHotcache_bytes)
  have m: "length ?m = 4" "string_of (take 4 data) = hotcacheMagic"
    by (simp_all add: d hotcacheMagic_def)
  note u32 = hc_getU32_at [of data]
  have "hc_getU32 data 4 = Ok (1, 8)"
    using u32 [of ?m] d m by simp
  moreover have "hc_getU32 data 8 = Ok (dc, 12)"
    using u32 [of "?m @ put_u32 1"] d m by simp
  moreover have "hc_getU32 data 12 = Ok (nb, 16)"
    using u32 [of "?m @ put_u32 1 @ put_u32 dc"] d m by simp
  moreover have "hc_getU32 data 16 = Ok (?n, 20)"
    using u32 [of "?m @ put_u32 1 @ put_u32 dc @ put_u32 nb"] d m by simp
  moreover have "hc_getBlob data spare 20 = Ok (idx, 20 + length (blob idx))"
    using hc_getBlob_at [of data "?m @ put_u32 1 @ put_u32 dc @ put_u32 nb @ put_u32 ?n"] d m idx
    by simp
  moreover have "decode_fields V data spare (unat ?n) (20 + length (blob idx)) hc =
      Ok (foldl add_field hc (map2 field_of fs xs))" for hc
    using decode_fields_at [OF fs, of data
        "?m @ put_u32 1 @ put_u32 dc @ put_u32 nb @ put_u32 ?n @ blob idx" "[]"] d m n
    by (simp add: unat_of_nat)
  moreover have "\<not> length data < 4" using d m by simp
  ultimately show ?thesis using m by (simp add: DecodeHotcache_def hotcache_of_def)
qed

lemma foldl_add_field:
  "hc_Fields (foldl add_field hc fhs) = hc_Fields hc @ fhs"
  "hc_DocstoreIdx (foldl add_field hc fhs) = hc_DocstoreIdx hc"
  "hc_DocCount (foldl add_field hc fhs) = hc_DocCount hc"
  "hc_NumDocstoreBlocks (foldl add_field hc fhs) = hc_NumDocstoreBlocks hc"
  by (induction fhs arbitrary: hc) (simp_all add: add_field_def)

lemma hotcache_of_simps [simp]:
  "hc_Fields (hotcache_of fs xs idx dc nb) = map2 field_of fs xs"
  "hc_DocstoreIdx (hotcache_of fs xs idx dc nb) = idx"
  "hc_DocCount (hotcache_of fs xs idx dc nb) = dc"
  "hc_NumDocstoreBlocks (hotcache_of fs xs idx dc nb) = nb"
  by (simp_all add: hotcache_of_def foldl_add_field)

lemma foldl_add_field_index:
  fixes hc :: "'f Hotcache"
  shows "distinct (map fh_Name fhs) \<Longrightarrow>
   hc_fieldIndex (foldl add_field hc fhs) =
     hc_fieldIndex hc ++ map_of (map (\<lambda>fh. (fh_Name fh, fh)) fhs)"
proof (induction fhs arbitrary: hc)
  case (Cons fh fhs)
  have "fh_Name fh \<notin> dom (map_of (map (\<lambda>fh. (fh_Name fh, fh)) fhs))"
    using Cons.prems by (auto simp: dom_map_of_conv_image_fst)
  then have step: "(m(fh_Name fh \<mapsto> fh)) ++ map_of (map (\<lambda>fh. (fh_Name fh, fh)) fhs) =
      m ++ map_of (map (\<lambda>fh. (fh_Name fh, fh)) (fh # fhs))" for m :: "string \<rightharpoonup> 'f FieldHotcache"
    by (auto simp: fun_eq_iff map_add_def split: option.splits)
  have "hc_fieldIndex (foldl add_field hc (fh # fhs)) =
      hc_fieldIndex (add_field hc fh) ++ map_of (map (\<lambda>fh. (fh_Name fh, fh)) fhs)"
    using Cons.IH [of "add_field hc fh"] Cons.prems by simp
  also have "hc_fieldIndex (add_field hc fh) = (hc_fieldIndex hc)(fh_Name fh \<mapsto> fh)"
    by (simp add: add_field_def)
  finally show ?case by (simp only: step)
qed simp

lemma hc_Field_hotcache_of:
  assumes "distinct (map hi_Name fs)" and "length xs = length fs" and "i < length fs"
  shows "hc_Field (hotcache_of fs xs idx dc nb) (hi_Name (fs ! i)) = Some (field_of (fs ! i) (xs ! i))"
proof -
  let ?fhs = "map2 field_of fs xs"
  have names: "map fh_Name ?fhs = map hi_Name fs"
    using assms(2) by (intro nth_equalityI) (simp_all add: field_of_def)
  have nth: "?fhs ! i = field_of (fs ! i) (xs ! i)" using assms by simp
  have "map_of (map (\<lambda>fh. (fh_Name fh, fh)) ?fhs) (hi_Name (fs ! i)) = Some (?fhs ! i)"
  proof (rule map_of_is_SomeI)
    show "distinct (map fst (map (\<lambda>fh. (fh_Name fh, fh)) ?fhs))"
      using assms(1) names by (simp add: comp_def)
    show "(hi_Name (fs ! i), ?fhs ! i) \<in> set (map (\<lambda>fh. (fh_Name fh, fh)) ?fhs)"
      using assms by (auto simp: set_conv_nth field_of_def intro!: exI [of _ i])
  qed
  with assms names nth show ?thesis
    by (simp add: hc_Field_def hotcache_of_def foldl_add_field_index)
qed

lemma hc_Field_hotcache_none:
  assumes "distinct (map hi_Name fs)" and "length xs = length fs" and "n \<notin> hi_Name ` set fs"
  shows "hc_Field (hotcache_of fs xs idx dc nb) n = None"
proof -
  have names: "map fh_Name (map2 field_of fs xs) = map hi_Name fs"
    using assms(2) by (intro nth_equalityI) (simp_all add: field_of_def)
  have "n \<notin> set (map fh_Name (map2 field_of fs xs))" using assms(3) unfolding names by simp
  then have "map_of (map (\<lambda>fh. (fh_Name fh, fh)) (map2 field_of fs xs)) n = None"
    by (simp add: map_of_eq_None_iff image_image)
  then show ?thesis
    using assms names by (simp add: hc_Field_def hotcache_of_def foldl_add_field_index)
qed

lemma hotcache_loads:
  "\<forall>f \<in> set fs. input_wf f \<Longrightarrow> \<forall>f \<in> set fs. \<exists>x. v_Load V (hi_FSTBytes f) = Ok x \<Longrightarrow>
    \<exists>xs. list_all2 (\<lambda>f x. input_wf f \<and> v_Load V (hi_FSTBytes f) = Ok x) fs xs"
proof (induction fs)
  case (Cons f fs)
  then obtain xs where "list_all2 (\<lambda>f x. input_wf f \<and> v_Load V (hi_FSTBytes f) = Ok x) fs xs" by auto
  moreover obtain x where "v_Load V (hi_FSTBytes f) = Ok x" using Cons.prems(2) by auto
  ultimately show ?case using Cons.prems(1) by (intro exI [of _ "x # xs"]) simp
qed (auto intro: exI [of _ "[]"])

lemma sint_of_nat_small: "n < 2 ^ 63 \<Longrightarrow> sint (word_of_nat n :: u64) = int n"
  by (simp add: sint_uint signed_take_bit_int_eq_self uint_nat unat_of_nat)

text \<open>The term table of a field whose FST numbers its terms.\<close>

lemma LookupTerm_field:
  assumes V: "vellum_ok V"
    and terms: "sorted_wrt (<) (map bytes_of terms)" "length (hi_TermOffsets f) = length terms"
    and fst: "fst_build V (zip (map bytes_of terms) (map word_of_nat [0..<length terms])) =
      Ok (hi_FSTBytes f)"
    and load: "v_Load V (hi_FSTBytes f) = Ok x" and wf: "input_wf f"
  shows "LookupTerm V (field_of f x) t = Ok (map_of (zip terms (hi_TermOffsets f)) t)"
proof -
  let ?kvs = "zip (map bytes_of terms) (map word_of_nat [0..<length terms]) :: (bytes \<times> u64) list"
  have inj: "inj bytes_of" by (rule inj_on_inverseI [of _ string_of]) simp
  have "sorted_wrt (<) (map fst ?kvs)" using terms(1) by simp
  from vellum_okE [OF V this]
  obtain d g where "fst_build V ?kvs = Ok d" "v_Load V d = Ok g" and
    get: "\<And>k. v_Get V g k = (case map_of ?kvs k of None \<Rightarrow> Ok (0, False) | Some v \<Rightarrow> Ok (v, True))"
    and "\<And>start. v_Iterator V g start = filter (\<lambda>(k, v). start \<le> k) ?kvs"
    by blast
  then have x: "x = g" using fst load by simp
  have dist: "distinct (map bytes_of terms)"
    using terms(1) by (induction terms) auto
  then have dt: "distinct terms" using inj by (simp add: distinct_map)
  have len: "length terms < 2 ^ 27" using wf terms(2) by (simp add: input_wf_def)
  show ?thesis
  proof (cases "t \<in> set terms")
    case True
    then obtain i where i: "i < length terms" "terms ! i = t" by (auto simp: in_set_conv_nth)
    have "map_of ?kvs (map bytes_of terms ! i) = Some (map word_of_nat [0..<length terms] ! i)"
      using dist i by (intro map_of_zip_nth) simp_all
    then have "map_of ?kvs (bytes_of t) = Some (word_of_nat i)" using i by simp
    moreover have "unat (word_of_nat i :: u64) = i" "sint (word_of_nat i :: u64) = int i"
      using i len by (simp_all add: unat_of_nat sint_of_nat_small)
    moreover have "map_of (zip terms (hi_TermOffsets f)) (terms ! i) = Some (hi_TermOffsets f ! i)"
      using dt i terms(2) by (intro map_of_zip_nth) simp_all
    ultimately show ?thesis
      using i terms(2) get x by (simp add: LookupTerm_def field_of_def)
  next
    case False
    then have "map_of ?kvs (bytes_of t) = None" "map_of (zip terms (hi_TermOffsets f)) t = None"
      using inj terms(2) by (auto simp: map_of_zip_is_None inj_eq)
    moreover from this(1) have "v_Get V g (bytes_of t) = Ok (0, False)" unfolding get by (simp only: option.case)
    ultimately show ?thesis using x by (simp add: LookupTerm_def field_of_def)
  qed
qed

section \<open>An FST library that satisfies the laws\<close>

text \<open>
  Association lists, used to show that \<open>vellum_ok\<close> can hold and to run the model: a key is
  written byte by byte with a continuation mark.
\<close>

definition enc_kv :: "bytes \<times> u64 \<Rightarrow> bytes" where
  "enc_kv kv = concat (map (\<lambda>b. [1, b]) (fst kv)) @ 0 # put_u64 (snd kv)"

fun dec_kv :: "bytes \<Rightarrow> ((bytes \<times> u64) \<times> bytes) result" where
  "dec_kv [] = Err (ErrMsg ''fst'')"
| "dec_kv [c] = Err (ErrMsg ''fst'')"
| "dec_kv (c # b # bs) =
     (if c = 0 then res_bind (le_u64 (b # bs)) (\<lambda>v. Ok (([], v), drop 8 (b # bs)))
      else res_bind (dec_kv bs) (\<lambda>((k, v), rest). Ok ((b # k, v), rest)))"

lemma dec_kv_enc: "dec_kv (enc_kv kv @ rest) = Ok (kv, rest)"
proof -
  obtain k v where kv: "kv = (k, v)" by fastforce
  have "dec_kv (0 # put_u64 v @ rest) = Ok (([], v), rest)"
  proof (cases "put_u64 v @ rest")
    case Nil
    then show ?thesis using length_put(2) [of v] by simp
  next
    case (Cons b bs)
    then show ?thesis using le_u64_put [of v rest] length_put(2) [of v]
      by (metis (no_types, lifting) append_eq_conv_conj dec_kv.simps(3) res_bind_simps(1))
  qed
  then show ?thesis unfolding kv by (induction k) (simp_all add: enc_kv_def)
qed

interpretation kv_frame: frame_codec enc_kv dec_kv "\<lambda>_. True"
  by unfold_locales (rule dec_kv_enc)

definition list_vellum :: "((bytes \<times> u64) list, (bytes \<times> u64) list) vellum" where
  "list_vellum = \<lparr>v_New = Ok [], v_Insert = (\<lambda>w k v. Ok (w @ [(k, v)])),
     v_Close = (\<lambda>w. Ok (replicate (length w) 1 @ 0 # concat (map enc_kv w))),
     v_Load = (\<lambda>d. res_bind (decode_n dec_kv (length (takeWhile (\<lambda>b. b = 1) d))
       (tl (dropWhile (\<lambda>b. b = 1) d))) (\<lambda>(kvs, _). Ok kvs)),
     v_Get = (\<lambda>f k. case map_of f k of None \<Rightarrow> Ok (0, False) | Some v \<Rightarrow> Ok (v, True)),
     v_Iterator = (\<lambda>f start. filter (\<lambda>(k, v). start \<le> k) f)\<rparr>"

lemma list_vellum_InsertAll: "v_InsertAll list_vellum w kvs = Ok (w @ kvs)"
  by (induction kvs arbitrary: w) (auto simp: list_vellum_def)

lemma list_vellum_Load:
  "v_Load list_vellum (replicate (length kvs) 1 @ 0 # concat (map enc_kv kvs)) = Ok kvs"
proof -
  have "takeWhile (\<lambda>b. b = 1) (replicate n 1 @ (0 :: u8) # r) = replicate n 1"
    "dropWhile (\<lambda>b. b = 1) (replicate n 1 @ (0 :: u8) # r) = 0 # r" for n r
    by (induction n) simp_all
  then show ?thesis
    using kv_frame.decode_n_concat [of kvs "[]"] by (simp add: list_vellum_def)
qed

lemma list_vellum_build:
  "fst_build list_vellum kvs = Ok (replicate (length kvs) 1 @ 0 # concat (map enc_kv kvs))"
  by (simp add: fst_build_def list_vellum_InsertAll list_vellum_def
    list_vellum_InsertAll [unfolded list_vellum_def])

lemma list_vellum_ok: "vellum_ok list_vellum"
  unfolding vellum_ok_def
  by (simp add: list_vellum_build list_vellum_Load) (simp add: list_vellum_def)

section \<open>Properties\<close>

text \<open>A segment footer written at the end of any data is read back field by field.\<close>

theorem footer_roundtrip: "DecodeFooter (pre @ EncodeFooter f) = Ok f"
  by (rule DecodeFooter_append)

text \<open>C33: \<open>DecodeFooter\<close> accepts exactly the data that is at least 128 bytes long and ends in the
  magic number; on anything else it returns an error, and it never panics.\<close>

theorem footer_acceptance:
  "(\<exists>f. DecodeFooter data = Ok f) = (FooterSize \<le> length data \<and> string_of (drop (length data - 4) data) = Magic)
   \<and> DecodeFooter data \<noteq> Panic"
proof
  show "(\<exists>f. DecodeFooter data = Ok f) =
      (FooterSize \<le> length data \<and> string_of (drop (length data - 4) data) = Magic)"
    by (rule DecodeFooter_Ok_iff)
  show "DecodeFooter data \<noteq> Panic"
  proof (cases "length data < FooterSize")
    case True
    then show ?thesis by (simp add: DecodeFooter_def)
  next
    case False
    then have "length (drop (length data - FooterSize) data) = 128" by (simp add: FooterSize_def)
    then show ?thesis using False by (simp add: DecodeFooter_def Let_def getU64_in getU32_in)
  qed
qed

text \<open>C28: A hotcache that was encoded is decoded to the same data, and looking a term up in a field
  of the decoded hotcache finds exactly the offsets the term was given: the FST of the field maps
  the \<open>i\<close>-th term to \<open>i\<close>, which selects the \<open>i\<close>-th entry of the term table.\<close>

theorem hotcache_lookup:
  assumes V: "vellum_ok V"
    and terms: "sorted_wrt (<) (map bytes_of terms)" "length (hi_TermOffsets (fs ! i)) = length terms"
    and fst: "fst_build V (zip (map bytes_of terms) (map word_of_nat [0..<length terms])) =
      Ok (hi_FSTBytes (fs ! i))"
    and fs: "\<forall>f \<in> set fs. input_wf f" "\<forall>f \<in> set fs. \<exists>x. v_Load V (hi_FSTBytes f) = Ok x"
      "distinct (map hi_Name fs)" "i < length fs" "length fs < 2 ^ 32"
    and idx: "length idx < 2 ^ 32"
    and enc: "EncodeHotcache fs idx dc nb = Ok data"
  shows "\<exists>hc fhc. DecodeHotcache V data spare = Ok hc \<and> hc_DocCount hc = dc \<and>
    hc_NumDocstoreBlocks hc = nb \<and> hc_DocstoreIdx hc = idx \<and>
    hc_Field hc (hi_Name (fs ! i)) = Some fhc \<and>
    fh_Doclens fhc = hi_Doclens (fs ! i) \<and> fh_AvgDoclen fhc = hi_AvgDoclen (fs ! i) \<and>
    (\<forall>t. LookupTerm V fhc t = Ok (map_of (zip terms (hi_TermOffsets (fs ! i))) t))"
proof -
  obtain xs where xs: "list_all2 (\<lambda>f x. input_wf f \<and> v_Load V (hi_FSTBytes f) = Ok x) fs xs"
    using fs(1,2) hotcache_loads by blast
  let ?hc = "hotcache_of fs xs idx dc nb" and ?fhc = "field_of (fs ! i) (xs ! i)"
  have "DecodeHotcache V data spare = Ok ?hc"
    using xs fs(5) idx enc by (rule DecodeHotcache_Encode)
  moreover have "hc_Field ?hc (hi_Name (fs ! i)) = Some ?fhc"
    using fs(3) list_all2_lengthD [OF xs] fs(4) by (simp add: hc_Field_hotcache_of)
  moreover have "v_Load V (hi_FSTBytes (fs ! i)) = Ok (xs ! i)" "input_wf (fs ! i)"
    using xs fs(4) by (auto simp: list_all2_conv_all_nth)
  then have "LookupTerm V ?fhc t = Ok (map_of (zip terms (hi_TermOffsets (fs ! i))) t)" for t
    using LookupTerm_field [OF V terms fst] by blast
  ultimately show ?thesis by (auto simp: field_of_def)
qed

definition example_field :: HotcacheFieldInput where
  "example_field = \<lparr>hi_Name = ''body'', hi_FSTBytes = [1, 0] @ enc_kv (bytes_of ''a'', 0),
     hi_TermOffsets = [\<lparr>PostOff = 4, PostLen = 20, PosOff = 0, PosLen = 3\<rparr>], hi_Doclens = [1],
     hi_AvgDoclen = 0x3f800000\<rparr>"

theorem hotcache_lookup_witness:
  "\<exists>data hc fhc. EncodeHotcache [example_field] [9] 1 1 = Ok data \<and>
    DecodeHotcache list_vellum data [] = Ok hc \<and> hc_Field hc ''body'' = Some fhc \<and>
    LookupTerm list_vellum fhc ''a'' = Ok (Some \<lparr>PostOff = 4, PostLen = 20, PosOff = 0, PosLen = 3\<rparr>)"
proof -
  obtain data where data: "EncodeHotcache [example_field] [9] 1 1 = Ok data"
    using EncodeHotcache_bytes by (auto simp: EncodeHotcache_def)
  have build: "fst_build list_vellum (zip (map bytes_of [''a'']) (map word_of_nat [0..<length [''a'']])) =
      Ok (hi_FSTBytes ([example_field] ! 0))"
    using list_vellum_build [of "[(bytes_of ''a'', 0)]"] by (simp add: example_field_def)
  have load: "v_Load list_vellum (hi_FSTBytes example_field) = Ok [(bytes_of ''a'', 0)]"
    using list_vellum_Load [of "[(bytes_of ''a'', 0)]"] by (simp add: example_field_def)
  have wf: "input_wf example_field"
    by (simp add: input_wf_def example_field_def enc_kv_def bytes_of_def)
  have "sorted_wrt (<) (map bytes_of [''a''])"
    "length (hi_TermOffsets ([example_field] ! 0)) = length [''a'']"
    by (simp_all add: example_field_def)
  from hotcache_lookup [OF list_vellum_ok this build, of "[9]" 1 1 data "[]"] wf load data
  show ?thesis by (force simp: example_field_def)
qed

end
