(* ===== verification/Store.thy ===== *)
theory Store
  imports Prelude
begin

text \<open>
  The storage abstraction (\<open>src/pkg/store/store.go\<close>) and its in-memory implementation
  (\<open>src/internal/testutil/memstore.go\<close>). Go's interface \<open>BlobStore\<close> is a record of operations
  over a state type \<open>'s\<close>, so that every client is a function of the store it is given. The
  locale \<open>blob_store\<close> states the laws the clients rely on; \<open>MemStore\<close> satisfies them.
  Every operation is one atomic step on the state, as MemStore's mutex makes it. The method
  \<open>GetRange\<close> also appends to the call log of MemStore, which no other operation reads; the
  interface exposes its result only.
\<close>

section \<open>The interface\<close>

record PutOpts =
  IfNoneMatch :: string
  ContentType :: string

record 's BlobStore =
  bs_Get :: "'s \<Rightarrow> string \<Rightarrow> bytes result"
  bs_GetRange :: "'s \<Rightarrow> string \<Rightarrow> int \<Rightarrow> int \<Rightarrow> bytes result"
  bs_Put :: "'s \<Rightarrow> string \<Rightarrow> bytes \<Rightarrow> PutOpts \<Rightarrow> unit result \<times> 's"
  bs_Delete :: "'s \<Rightarrow> string \<Rightarrow> unit result \<times> 's"
  bs_List :: "'s \<Rightarrow> string \<Rightarrow> string list result"
  bs_Head :: "'s \<Rightarrow> string \<Rightarrow> int result"

definition no_opts :: PutOpts where "no_opts = \<lparr>IfNoneMatch = '''', ContentType = ''''\<rparr>"

text \<open>
  \<open>objects\<close> is the abstract content: a finite map from keys to byte strings. A conditional
  put (\<open>IfNoneMatch = "*"\<close>) fails and changes nothing when the key exists; every other put
  overwrites. A range read inside the object returns exactly the bytes asked for.
\<close>

locale blob_store =
  fixes B :: "'s BlobStore"
    and objects :: "'s \<Rightarrow> string \<rightharpoonup> bytes"
  assumes Get_Some: "objects s k = Some b \<Longrightarrow> bs_Get B s k = Ok b"
    and Get_None: "objects s k = None \<Longrightarrow> \<exists>e. bs_Get B s k = Err e"
    and GetRange_in: "objects s k = Some b \<Longrightarrow> 0 < n \<Longrightarrow> off + n \<le> length b \<Longrightarrow>
      bs_GetRange B s k (int off) (int n) = Ok (take n (drop off b))"
    and Put_exists: "IfNoneMatch opts = ''*'' \<Longrightarrow> objects s k \<noteq> None \<Longrightarrow>
      bs_Put B s k b opts = (Err (ErrPreconditionFailed k), s)"
    and Put_result: "IfNoneMatch opts \<noteq> ''*'' \<or> objects s k = None \<Longrightarrow>
      fst (bs_Put B s k b opts) = Ok ()"
    and Put_objects: "IfNoneMatch opts \<noteq> ''*'' \<or> objects s k = None \<Longrightarrow>
      objects (snd (bs_Put B s k b opts)) = (objects s)(k \<mapsto> b)"
    and Delete_result: "fst (bs_Delete B s k) = Ok ()"
    and Delete_objects: "objects (snd (bs_Delete B s k)) = (objects s)(k := None)"
    and List_keys: "\<exists>ks. bs_List B s p = Ok ks \<and> distinct ks \<and>
      set ks = {k \<in> dom (objects s). HasPrefix k p}"
    and Head_size: "bs_Head B s k =
      (case objects s k of None \<Rightarrow> Err (ErrNotFound k) | Some b \<Rightarrow> Ok (int (length b)))"
begin

lemma Get_after_Put:
  "bs_Put B s k b no_opts = (Ok (), s') \<Longrightarrow> bs_Get B s' k = Ok b"
  using Put_objects [of no_opts s k b] by (simp add: no_opts_def Get_Some)

lemma Put_plain:
  obtains s' where "bs_Put B s k b no_opts = (Ok (), s')" "objects s' = (objects s)(k \<mapsto> b)"
  using Put_objects [of no_opts s k b] Put_result [of no_opts s k b]
  by (cases "bs_Put B s k b no_opts") (simp add: no_opts_def)

lemma Put_conditional_cases:
  assumes "IfNoneMatch opts = ''*''"
  obtains (exists) "objects s k \<noteq> None" "bs_Put B s k b opts = (Err (ErrPreconditionFailed k), s)"
  | (created) s' where "objects s k = None" "bs_Put B s k b opts = (Ok (), s')"
      "objects s' = (objects s)(k \<mapsto> b)"
proof (cases "objects s k")
  case None
  with Put_objects [of opts s k b] Put_result [of opts s k b] show thesis
    by (cases "bs_Put B s k b opts") (auto intro: created)
next
  case (Some c)
  with assms show thesis by (auto intro: exists Put_exists)
qed

end

section \<open>MemStore\<close>

record RangeCall =
  rc_Key :: string
  rc_Off :: int
  rc_Length :: int

text \<open>Go's map is an association list; its iteration order is not specified.\<close>

record MemStore =
  ms_objects :: "(string \<times> bytes) list"
  ms_RangeLog :: "RangeCall list"

definition NewMemStore :: MemStore where
  "NewMemStore = \<lparr>ms_objects = [], ms_RangeLog = []\<rparr>"

definition mem_Get :: "MemStore \<Rightarrow> string \<Rightarrow> bytes result" where
  "mem_Get m key = (case map_of (ms_objects m) key of None \<Rightarrow> Err (ErrNotFound key) | Some b \<Rightarrow> Ok b)"

definition mem_GetRange :: "MemStore \<Rightarrow> string \<Rightarrow> int \<Rightarrow> int \<Rightarrow> bytes result \<times> MemStore" where
  "mem_GetRange m key off len =
     (let m = m\<lparr>ms_RangeLog := ms_RangeLog m @ [\<lparr>rc_Key = key, rc_Off = off, rc_Length = len\<rparr>]\<rparr> in
      (case map_of (ms_objects m) key of
         None \<Rightarrow> Err (ErrNotFound key)
       | Some b \<Rightarrow>
           (let stop = (if off + len > int (length b) then int (length b) else off + len) in
            if stop < off \<or> off < 0 then Panic
            else Ok (take (nat (stop - off)) (drop (nat off) b))), m))"

definition mem_Put :: "MemStore \<Rightarrow> string \<Rightarrow> bytes \<Rightarrow> PutOpts \<Rightarrow> unit result \<times> MemStore" where
  "mem_Put m key body opts =
     (if IfNoneMatch opts = ''*'' \<and> map_of (ms_objects m) key \<noteq> None
      then (Err (ErrPreconditionFailed key), m)
      else (Ok (), m\<lparr>ms_objects := (key, body) # filter (\<lambda>(k, _). k \<noteq> key) (ms_objects m)\<rparr>))"

definition mem_Delete :: "MemStore \<Rightarrow> string \<Rightarrow> unit result \<times> MemStore" where
  "mem_Delete m key = (Ok (), m\<lparr>ms_objects := filter (\<lambda>(k, _). k \<noteq> key) (ms_objects m)\<rparr>)"

definition mem_List :: "MemStore \<Rightarrow> string \<Rightarrow> string list result" where
  "mem_List m p = Ok (filter (\<lambda>k. HasPrefix k p) (remdups (map fst (ms_objects m))))"

definition mem_Head :: "MemStore \<Rightarrow> string \<Rightarrow> int result" where
  "mem_Head m key =
     (case map_of (ms_objects m) key of None \<Rightarrow> Err (ErrNotFound key) | Some b \<Rightarrow> Ok (int (length b)))"

definition mem_BlobStore :: "MemStore BlobStore" where
  "mem_BlobStore =
     \<lparr>bs_Get = mem_Get, bs_GetRange = (\<lambda>m k off len. fst (mem_GetRange m k off len)),
      bs_Put = mem_Put, bs_Delete = mem_Delete, bs_List = mem_List, bs_Head = mem_Head\<rparr>"

definition mem_content :: "MemStore \<Rightarrow> string \<rightharpoonup> bytes" where
  "mem_content m = map_of (ms_objects m)"

lemma map_of_filter_neq: "map_of (filter (\<lambda>(k, _). k \<noteq> key) xs) = (map_of xs)(key := None)"
  by (induction xs) (auto simp: fun_eq_iff)

lemma mem_GetRange_content: "mem_content (snd (mem_GetRange m k off len)) = mem_content m"
  by (simp add: mem_GetRange_def mem_content_def Let_def)

interpretation mem: blob_store mem_BlobStore mem_content
proof unfold_locales
  show "\<exists>ks. bs_List mem_BlobStore s p = Ok ks \<and> distinct ks \<and>
      set ks = {k \<in> dom (mem_content s). HasPrefix k p}" for s p
    by (auto simp: mem_BlobStore_def mem_List_def mem_content_def dom_map_of_conv_image_fst)
qed (auto simp: mem_BlobStore_def mem_Get_def mem_GetRange_def mem_Put_def mem_Delete_def
    mem_Head_def mem_content_def map_of_filter_neq Let_def nat_add_distrib split: option.splits)

end
