(* ===== verification/Manifest.thy ===== *)
theory Manifest
  imports Store
begin

text \<open>
  Versioned manifests (\<open>src/pkg/index/manifest.go\<close>). A manifest lists the segments of an
  index; version \<open>n\<close> is the object \<open><index>/manifest-<n padded to six digits>.json\<close>, created with a
  conditional put so that two writers cannot both create it. \<open>encoding/json\<close> for the manifest
  struct is the parameter \<open>J\<close>; the clock is an argument.

  The abstract specification is a log of manifests: \<open>manifest_log\<close> says that the objects of the
  store represent a list of manifests, version \<open>i + 1\<close> at position \<open>i\<close>. The lemmas of the locale
  \<open>blob_store\<close> show that \<open>Latest\<close> reads the last entry, that \<open>publishNext\<close> appends to the log when
  its base is the last entry and reports a conflict when it is older, and that the publishing
  functions apply their update to the last entry.
\<close>

section \<open>Data\<close>

record SegmentMeta =
  sm_ID :: string
  sm_DocCount :: u32
  sm_Bytes :: int
  sm_MinTS :: int
  sm_MaxTS :: int
  sm_CreatedAt :: int
  sm_DelVersion :: int
  sm_Deleted :: bool

record Manifest =
  mf_Version :: u64
  mf_IndexName :: string
  mf_Segments :: "SegmentMeta list"
  mf_CreatedAt :: int

definition ActiveSegments :: "Manifest \<Rightarrow> SegmentMeta list" where
  "ActiveSegments m = filter (\<lambda>s. \<not> sm_Deleted s) (mf_Segments m)"

record manifest_json =
  mj_Marshal :: "Manifest \<Rightarrow> bytes result"
  mj_Unmarshal :: "bytes \<Rightarrow> Manifest result"

text \<open>
  The manifest survives its JSON encoding. Go's encoder replaces bytes that are not UTF-8, so
  this is a condition on the manifest, not a law for all of them.
\<close>

definition mj_roundtrip :: "manifest_json \<Rightarrow> Manifest \<Rightarrow> bool" where
  "mj_roundtrip J m \<longleftrightarrow> (case mj_Marshal J m of Ok d \<Rightarrow> mj_Unmarshal J d = Ok m | _ \<Rightarrow> False)"

section \<open>Keys\<close>

definition digit_char :: "nat \<Rightarrow> char" where "digit_char d = char_of (48 + d)"

fun dec_string :: "nat \<Rightarrow> string" where
  "dec_string n = (if n < 10 then [digit_char n] else dec_string (n div 10) @ [digit_char (n mod 10)])"

declare dec_string.simps [simp del]

text \<open>The verb \<open>%06d\<close>.\<close>

definition pad06 :: "nat \<Rightarrow> string" where
  "pad06 n = replicate (6 - length (dec_string n)) (CHR ''0'') @ dec_string n"

definition manifest_prefix :: "string \<Rightarrow> string" where
  "manifest_prefix indexName = indexName @ ''/manifest-''"

definition manifestKey :: "string \<Rightarrow> u64 \<Rightarrow> string" where
  "manifestKey indexName version = indexName @ ''/manifest-'' @ pad06 (unat version) @ ''.json''"

definition SegmentKey :: "string \<Rightarrow> string \<Rightarrow> string \<Rightarrow> string" where
  "SegmentKey indexName segID ext = indexName @ ''/segments/'' @ segID @ ext"

definition IsManifestKey :: "string \<Rightarrow> bool" where
  "IsManifestKey key =
     (let base = drop (case LastIndexByte key (CHR ''/'') of None \<Rightarrow> 0 | Some i \<Rightarrow> i + 1) key in
      HasPrefix base ''manifest-'' \<and> HasSuffix base ''.json'')"

section \<open>ManifestStore\<close>

definition ms_Latest ::
  "'s BlobStore \<Rightarrow> manifest_json \<Rightarrow> string \<Rightarrow> 's \<Rightarrow> Manifest option result" where
  "ms_Latest B J indexName s =
     res_bind (bs_List B s (manifest_prefix indexName)) (\<lambda>keys.
       if length keys = 0 then Ok None
       else let latestKey = last (sort keys) in
         res_bind (bs_Get B s latestKey) (\<lambda>data.
         res_bind (res_wrap ''manifest parse'' (mj_Unmarshal J data)) (\<lambda>m. Ok (Some m))))"

definition ms_publishNext ::
  "'s BlobStore \<Rightarrow> manifest_json \<Rightarrow> string \<Rightarrow> int \<Rightarrow> 's \<Rightarrow> Manifest option \<Rightarrow> SegmentMeta list
     \<Rightarrow> Manifest result \<times> 's" where
  "ms_publishNext B J indexName now s current segments =
     (let nextVersion = (case current of None \<Rightarrow> 1 | Some c \<Rightarrow> mf_Version c + 1);
          m = \<lparr>mf_Version = nextVersion, mf_IndexName = indexName,
               mf_Segments = segments, mf_CreatedAt = now\<rparr>
      in case mj_Marshal J m of
           Err e \<Rightarrow> (Err e, s)
         | Panic \<Rightarrow> (Panic, s)
         | Ok data \<Rightarrow>
             (case bs_Put B s (manifestKey indexName nextVersion) data
                     \<lparr>IfNoneMatch = ''*'', ContentType = ''application/json''\<rparr> of
                (Ok _, s') \<Rightarrow> (Ok m, s')
              | (Err e, s') \<Rightarrow>
                  (Err (if as_precondition_failed e then ErrManifestConflict nextVersion
                        else ErrWrap ''publish manifest'' e), s')
              | (Panic, s') \<Rightarrow> (Panic, s')))"

definition current_segments :: "Manifest option \<Rightarrow> SegmentMeta list" where
  "current_segments current = (case current of None \<Rightarrow> [] | Some c \<Rightarrow> mf_Segments c)"

definition ms_Publish ::
  "'s BlobStore \<Rightarrow> manifest_json \<Rightarrow> string \<Rightarrow> int \<Rightarrow> 's \<Rightarrow> Manifest option \<Rightarrow> SegmentMeta list
     \<Rightarrow> Manifest result \<times> 's" where
  "ms_Publish B J indexName now s current newSegments =
     ms_publishNext B J indexName now s current (current_segments current @ newSegments)"

text \<open>
  The retry loops. \<open>now\<close> gives the time of each attempt, counted down with the retries left.
\<close>

fun ms_PublishWithRetry ::
  "'s BlobStore \<Rightarrow> manifest_json \<Rightarrow> string \<Rightarrow> (nat \<Rightarrow> int) \<Rightarrow> 's \<Rightarrow> SegmentMeta \<Rightarrow> nat
     \<Rightarrow> Manifest result \<times> 's" where
  "ms_PublishWithRetry B J indexName now s newSeg 0 = (Err (ErrMsg ''publish: exceeded retries''), s)"
| "ms_PublishWithRetry B J indexName now s newSeg (Suc retries) =
     (case ms_Latest B J indexName s of
        Err e \<Rightarrow> (Err e, s)
      | Panic \<Rightarrow> (Panic, s)
      | Ok current \<Rightarrow>
          (case ms_Publish B J indexName (now retries) s current [newSeg] of
             (Ok m, s') \<Rightarrow> (Ok m, s')
           | (Err e, s') \<Rightarrow>
               (if \<not> as_manifest_conflict e then (Err e, s')
                else ms_PublishWithRetry B J indexName now s' newSeg retries)
           | (Panic, s') \<Rightarrow> (Panic, s')))"

fun ms_PublishTransform ::
  "'s BlobStore \<Rightarrow> manifest_json \<Rightarrow> string \<Rightarrow> (nat \<Rightarrow> int) \<Rightarrow> 's
     \<Rightarrow> (SegmentMeta list \<Rightarrow> SegmentMeta list) \<Rightarrow> nat \<Rightarrow> Manifest result \<times> 's" where
  "ms_PublishTransform B J indexName now s fn 0 =
     (Err (ErrMsg ''publishTransform: exceeded retries''), s)"
| "ms_PublishTransform B J indexName now s fn (Suc retries) =
     (case ms_Latest B J indexName s of
        Err e \<Rightarrow> (Err e, s)
      | Panic \<Rightarrow> (Panic, s)
      | Ok current \<Rightarrow>
          (case ms_publishNext B J indexName (now retries) s current (fn (current_segments current)) of
             (Ok m, s') \<Rightarrow> (Ok m, s')
           | (Err e, s') \<Rightarrow>
               (if \<not> as_manifest_conflict e then (Err e, s')
                else ms_PublishTransform B J indexName now s' fn retries)
           | (Panic, s') \<Rightarrow> (Panic, s')))"

text \<open>\<open>ListAll\<close> skips objects that cannot be fetched or parsed.\<close>

fun collect_manifests :: "'s BlobStore \<Rightarrow> manifest_json \<Rightarrow> 's \<Rightarrow> string list \<Rightarrow> Manifest list result" where
  "collect_manifests B J s [] = Ok []"
| "collect_manifests B J s (k # ks) =
     (case bs_Get B s k of
        Panic \<Rightarrow> Panic
      | Err e \<Rightarrow> collect_manifests B J s ks
      | Ok data \<Rightarrow>
          (case mj_Unmarshal J data of
             Panic \<Rightarrow> Panic
           | Err e \<Rightarrow> collect_manifests B J s ks
           | Ok m \<Rightarrow> res_bind (collect_manifests B J s ks) (\<lambda>ms. Ok (m # ms))))"

definition ms_ListAll :: "'s BlobStore \<Rightarrow> manifest_json \<Rightarrow> string \<Rightarrow> 's \<Rightarrow> Manifest list result" where
  "ms_ListAll B J indexName s =
     res_bind (bs_List B s (manifest_prefix indexName)) (\<lambda>keys. collect_manifests B J s (sort keys))"

section \<open>The order of manifest keys\<close>

fun digits_w :: "nat \<Rightarrow> nat \<Rightarrow> string" where
  "digits_w 0 n = []"
| "digits_w (Suc w) n = digits_w w (n div 10) @ [digit_char (n mod 10)]"

lemma length_digits_w [simp]: "length (digits_w w n) = w"
  by (induction w arbitrary: n) auto

lemma digit_char_0: "digit_char 0 = CHR ''0''"
  by (simp add: digit_char_def char_of_def bit_iff_odd)

lemma digits_w_0: "digits_w w 0 = replicate w (CHR ''0'')"
  by (induction w) (simp_all add: digit_char_0 flip: replicate_append_same)

lemma dec_string_width:
  "n < 10 ^ Suc w \<Longrightarrow> length (dec_string n) \<le> Suc w \<and>
     replicate (Suc w - length (dec_string n)) (CHR ''0'') @ dec_string n = digits_w (Suc w) n"
proof (induction w arbitrary: n)
  case 0
  then show ?case by (simp add: dec_string.simps [of n])
next
  case (Suc w)
  show ?case
  proof (cases "n < 10")
    case True
    then show ?thesis
      by (simp add: dec_string.simps [of n] digits_w_0 digit_char_0 flip: replicate_append_same)
  next
    case False
    have "n div 10 < 10 ^ Suc w" using Suc.prems by simp
    note IH = Suc.IH [OF this]
    have "dec_string n = dec_string (n div 10) @ [digit_char (n mod 10)]"
      using False by (simp add: dec_string.simps [of n])
    with IH show ?thesis by (auto simp del: digits_w.simps simp: digits_w.simps(2) [of "Suc w"])
  qed
qed

lemma pad06_digits: "n < 10 ^ 6 \<Longrightarrow> pad06 n = digits_w 6 n"
  using dec_string_width [of n 5] by (simp add: pad06_def)

lemma digit_char_less: "a < b \<Longrightarrow> b < 10 \<Longrightarrow> digit_char a < digit_char b"
  by (simp add: digit_char_def less_char_def)

lemma append_less_left:
  "length xs = length ys \<Longrightarrow> xs < ys \<Longrightarrow> xs @ us < ys @ (vs :: 'a::linorder list)"
  unfolding list_less_def by (auto intro: lexord_sufI)

lemma append_less_right: "us < vs \<Longrightarrow> xs @ us < xs @ (vs :: 'a::linorder list)"
  unfolding list_less_def by (rule lexord_append_leftI)

lemma digits_w_less: "u < v \<Longrightarrow> v < 10 ^ w \<Longrightarrow> digits_w w u < digits_w w v"
proof (induction w arbitrary: u v)
  case (Suc w)
  show ?case
  proof (cases "u div 10 < v div 10")
    case True
    with Suc have "digits_w w (u div 10) < digits_w w (v div 10)" by simp
    then show ?thesis by (simp add: append_less_left)
  next
    case False
    with Suc.prems have eq: "u div 10 = v div 10" and "u mod 10 < v mod 10"
      using div_le_mono [of u v 10] by (auto, metis div_mult_mod_eq nat_add_left_cancel_less)
    then show ?thesis by (simp add: append_less_right digit_char_less)
  qed
qed simp

lemma manifestKey_less:
  assumes "v < w" and "unat w < 10 ^ 6"
  shows "manifestKey name v < manifestKey name w"
proof -
  have "unat v < unat w" using assms(1) by (simp add: word_less_nat_alt)
  with assms(2) have "pad06 (unat v) < pad06 (unat w)"
    and "length (pad06 (unat v)) = length (pad06 (unat w))"
    by (simp_all add: pad06_digits digits_w_less)
  then show ?thesis
    unfolding manifestKey_def by (intro append_less_right append_less_left)
qed

lemma manifestKey_inj:
  assumes "unat v < 10 ^ 6" and "unat w < 10 ^ 6" and "manifestKey name v = manifestKey name w"
  shows "v = w"
  using assms manifestKey_less [of v w name] manifestKey_less [of w v name]
  by (metis less_irrefl linorder_neqE)

lemma manifestKey_prefix [simp]: "HasPrefix (manifestKey name v) (manifest_prefix name)"
  by (auto simp: HasPrefix_iff manifestKey_def manifest_prefix_def)

section \<open>The manifest log\<close>

text \<open>The key of version \<open>i + 1\<close>, which is entry \<open>i\<close> of the log.\<close>

definition version_key :: "string \<Rightarrow> nat \<Rightarrow> string" where
  "version_key name i = manifestKey name (word_of_nat (Suc i))"

definition manifest_log ::
  "manifest_json \<Rightarrow> string \<Rightarrow> (string \<rightharpoonup> bytes) \<Rightarrow> Manifest list \<Rightarrow> bool" where
  "manifest_log J name objs ms \<longleftrightarrow>
     length ms < 10 ^ 6 \<and>
     {k \<in> dom objs. HasPrefix k (manifest_prefix name)} = version_key name ` {..<length ms} \<and>
     (\<forall>i < length ms. unat (mf_Version (ms ! i)) = Suc i \<and>
       (\<exists>d. objs (version_key name i) = Some d \<and> mj_Unmarshal J d = Ok (ms ! i)))"

definition log_last :: "Manifest list \<Rightarrow> Manifest option" where
  "log_last ms = (if ms = [] then None else Some (last ms))"

text \<open>The manifest the code builds as version \<open>n + 1\<close>.\<close>

definition next_manifest :: "string \<Rightarrow> int \<Rightarrow> nat \<Rightarrow> SegmentMeta list \<Rightarrow> Manifest" where
  "next_manifest name now n segs =
     \<lparr>mf_Version = word_of_nat (Suc n), mf_IndexName = name, mf_Segments = segs, mf_CreatedAt = now\<rparr>"

lemma unat_version: "n < 10 ^ 6 \<Longrightarrow> unat (word_of_nat (Suc n) :: u64) = Suc n"
  by (simp add: unat_of_nat del: of_nat_Suc)

lemma version_key_less:
  assumes "i < j" and "Suc j < 10 ^ 6"
  shows "version_key name i < version_key name j"
  unfolding version_key_def
proof (rule manifestKey_less)
  have u: "unat (word_of_nat (Suc i) :: u64) = Suc i" "unat (word_of_nat (Suc j) :: u64) = Suc j"
    using assms by (intro unat_version; simp)+
  then show "word_of_nat (Suc i) < (word_of_nat (Suc j) :: u64)"
    using assms(1) by (simp add: word_less_nat_alt del: of_nat_Suc)
  show "unat (word_of_nat (Suc j) :: u64) < 10 ^ 6"
    using u assms(2) by (simp del: of_nat_Suc)
qed

lemma version_key_neq: "i < j \<Longrightarrow> Suc j < 10 ^ 6 \<Longrightarrow> version_key name i \<noteq> version_key name j"
  using version_key_less by (metis less_irrefl)

lemma version_key_prefix [simp]: "HasPrefix (version_key name i) (manifest_prefix name)"
  by (simp add: version_key_def)

lemma manifest_log_append:
  assumes log: "manifest_log J name objs ms" and len: "Suc (length ms) < 10 ^ 6"
    and d: "mj_Unmarshal J d = Ok (next_manifest name now (length ms) segs)"
  shows "manifest_log J name (objs(version_key name (length ms) \<mapsto> d))
    (ms @ [next_manifest name now (length ms) segs])"
proof -
  have ver: "unat (mf_Version (next_manifest name now (length ms) segs)) = Suc (length ms)"
    using len by (simp add: next_manifest_def unat_version del: of_nat_Suc)
  have "{k \<in> dom (objs(version_key name (length ms) \<mapsto> d)). HasPrefix k (manifest_prefix name)} =
      insert (version_key name (length ms)) {k \<in> dom objs. HasPrefix k (manifest_prefix name)}"
    by auto
  moreover have "version_key name i \<noteq> version_key name (length ms)" if "i < length ms" for i
    using that len by (rule version_key_neq)
  ultimately show ?thesis
    using log len d ver unfolding manifest_log_def
    by (auto simp: lessThan_Suc nth_append less_Suc_eq)
qed

lemma manifest_log_fresh:
  assumes log: "manifest_log J name objs ms" and len: "Suc (length ms) < 10 ^ 6"
  shows "objs (version_key name (length ms)) = None"
proof (rule ccontr)
  assume "objs (version_key name (length ms)) \<noteq> None"
  then have "version_key name (length ms) \<in> {k \<in> dom objs. HasPrefix k (manifest_prefix name)}"
    by auto
  then have "version_key name (length ms) \<in> version_key name ` {..<length ms}"
    using log unfolding manifest_log_def by simp
  then obtain i where "i < length ms" "version_key name (length ms) = version_key name i"
    by auto
  then show False using version_key_neq [of i "length ms" name] len by auto
qed

lemma manifest_log_other:
  assumes "\<not> HasPrefix k (manifest_prefix name)" and "manifest_log J name objs ms"
  shows "manifest_log J name (objs(k := v)) ms"
proof -
  have ne: "version_key name i \<noteq> k" for i
    using assms(1) version_key_prefix by blast
  have "{k' \<in> dom (objs(k := v)). HasPrefix k' (manifest_prefix name)} =
      {k' \<in> dom objs. HasPrefix k' (manifest_prefix name)}"
    using assms(1) by auto
  with assms ne show ?thesis unfolding manifest_log_def by simp
qed

text \<open>The version computed from the \<open>n\<close>-th manifest of a log.\<close>

lemma next_version:
  assumes log: "manifest_log J name objs ms" and n: "n \<le> length ms"
  shows "(case log_last (take n ms) of None \<Rightarrow> 1 | Some c \<Rightarrow> mf_Version c + 1) = word_of_nat (Suc n)"
proof (cases n)
  case (Suc k)
  with n have "last (take n ms) = ms ! k" by (simp add: take_Suc_conv_app_nth)
  moreover have "unat (mf_Version (ms ! k)) = n" using log n Suc by (simp add: manifest_log_def)
  then have "mf_Version (ms ! k) = word_of_nat n" by (rule word_eq_of_natI)
  ultimately have "mf_Version (last (take n ms)) = word_of_nat n" by simp
  with n Suc show ?thesis by (auto simp: log_last_def)
qed (simp add: log_last_def)

context blob_store
begin

lemma Latest_log:
  assumes log: "manifest_log J name (objects s) ms"
  shows "ms_Latest B J name s = Ok (log_last ms)"
proof -
  obtain ks where ks: "bs_List B s (manifest_prefix name) = Ok ks"
    "set ks = {k \<in> dom (objects s). HasPrefix k (manifest_prefix name)}"
    using List_keys by blast
  with log have set: "set ks = version_key name ` {..<length ms}" by (simp add: manifest_log_def)
  show ?thesis
  proof (cases ms rule: rev_cases)
    case Nil
    with set ks(1) show ?thesis by (simp add: ms_Latest_def log_last_def)
  next
    case (snoc ms' m)
    let ?n = "length ms'"
    have n: "Suc ?n < 10 ^ 6" using log snoc by (simp add: manifest_log_def)
    have "last (sort ks) = version_key name ?n"
    proof (rule last_sort_eqI)
      show "version_key name ?n \<in> set ks" using set snoc by simp
      fix k
      assume "k \<in> set ks"
      then obtain i where "i < Suc ?n" and k: "k = version_key name i" using set snoc by auto
      then consider "i = ?n" | "i < ?n" by linarith
      then show "k \<le> version_key name ?n"
      proof cases
        case 2
        from version_key_less [OF this n, of name] k show ?thesis by (simp add: less_imp_le)
      qed (simp add: k)
    qed
    moreover have "length ks \<noteq> 0" using set snoc by auto
    moreover obtain d where "objects s (version_key name ?n) = Some d" "mj_Unmarshal J d = Ok m"
      using log snoc by (auto simp: manifest_log_def)
    ultimately show ?thesis
      using ks(1) snoc by (simp add: ms_Latest_def Get_Some log_last_def Let_def)
  qed
qed

lemma publishNext_last:
  assumes log: "manifest_log J name (objects s) ms" and len: "Suc (length ms) < 10 ^ 6"
    and json: "mj_roundtrip J (next_manifest name now (length ms) segs)"
  obtains s' where
    "ms_publishNext B J name now s (log_last ms) segs = (Ok (next_manifest name now (length ms) segs), s')"
    "manifest_log J name (objects s') (ms @ [next_manifest name now (length ms) segs])"
    "\<And>k. \<not> HasPrefix k (manifest_prefix name) \<Longrightarrow> objects s' k = objects s k"
proof -
  let ?m = "next_manifest name now (length ms) segs"
  have ver: "(case log_last ms of None \<Rightarrow> 1 | Some c \<Rightarrow> mf_Version c + 1) = word_of_nat (Suc (length ms))"
    using next_version [OF log order.refl] by simp
  obtain d where d: "mj_Marshal J ?m = Ok d" "mj_Unmarshal J d = Ok ?m"
    using json by (auto simp: mj_roundtrip_def split: result.splits)
  have fresh: "objects s (version_key name (length ms)) = None"
    using log len by (rule manifest_log_fresh)
  show thesis
  proof (rule Put_conditional_cases [of "\<lparr>IfNoneMatch = ''*'', ContentType = ''application/json''\<rparr>"
        s "version_key name (length ms)" d])
    fix s'
    assume put: "bs_Put B s (version_key name (length ms)) d
        \<lparr>IfNoneMatch = ''*'', ContentType = ''application/json''\<rparr> = (Ok (), s')"
      and objs: "objects s' = (objects s)(version_key name (length ms) \<mapsto> d)"
    then have "manifest_log J name (objects s') (ms @ [?m])"
      using manifest_log_append [OF log len d(2)] by simp
    moreover have "ms_publishNext B J name now s (log_last ms) segs = (Ok ?m, s')"
      using d(1) put unfolding ms_publishNext_def Let_def ver next_manifest_def version_key_def
      by (simp del: of_nat_Suc)
    moreover have "objects s' k = objects s k" if "\<not> HasPrefix k (manifest_prefix name)" for k
      using that objs version_key_prefix by (metis fun_upd_other)
    ultimately show thesis by (intro that [of s'])
  qed (use fresh in simp_all)
qed

lemma publishNext_stale:
  assumes log: "manifest_log J name (objects s) ms" and n: "n < length ms"
    and json: "mj_roundtrip J (next_manifest name now n segs)"
  shows "ms_publishNext B J name now s (log_last (take n ms)) segs =
    (Err (ErrManifestConflict (word_of_nat (Suc n))), s)"
proof -
  note ver = next_version [OF log less_imp_le [OF n]]
  obtain d where d: "mj_Marshal J (next_manifest name now n segs) = Ok d"
    using json by (auto simp: mj_roundtrip_def split: result.splits)
  have "objects s (version_key name n) \<noteq> None" using log n by (auto simp: manifest_log_def)
  then have "bs_Put B s (version_key name n) d
      \<lparr>IfNoneMatch = ''*'', ContentType = ''application/json''\<rparr> =
      (Err (ErrPreconditionFailed (version_key name n)), s)"
    by (intro Put_exists) simp_all
  then show ?thesis
    using d unfolding ms_publishNext_def Let_def ver next_manifest_def version_key_def
    by (simp del: of_nat_Suc)
qed

lemma PublishTransform_log:
  assumes log: "manifest_log J name (objects s) ms" and len: "Suc (length ms) < 10 ^ 6"
    and json: "mj_roundtrip J (next_manifest name (now r) (length ms) (fn (current_segments (log_last ms))))"
  obtains s' where
    "ms_PublishTransform B J name now s fn (Suc r) =
      (Ok (next_manifest name (now r) (length ms) (fn (current_segments (log_last ms)))), s')"
    "manifest_log J name (objects s')
      (ms @ [next_manifest name (now r) (length ms) (fn (current_segments (log_last ms)))])"
    "\<And>k. \<not> HasPrefix k (manifest_prefix name) \<Longrightarrow> objects s' k = objects s k"
proof (rule publishNext_last [OF log len json])
  fix s'
  assume "ms_publishNext B J name (now r) s (log_last ms) (fn (current_segments (log_last ms))) =
      (Ok (next_manifest name (now r) (length ms) (fn (current_segments (log_last ms)))), s')"
    and "manifest_log J name (objects s')
      (ms @ [next_manifest name (now r) (length ms) (fn (current_segments (log_last ms)))])"
    and "\<And>k. \<not> HasPrefix k (manifest_prefix name) \<Longrightarrow> objects s' k = objects s k"
  then show thesis using Latest_log [OF log] by (intro that [of s']) simp_all
qed

lemma PublishWithRetry_log:
  assumes log: "manifest_log J name (objects s) ms" and len: "Suc (length ms) < 10 ^ 6"
    and json: "mj_roundtrip J (next_manifest name (now r) (length ms)
      (current_segments (log_last ms) @ [newSeg]))"
  obtains s' where
    "ms_PublishWithRetry B J name now s newSeg (Suc r) =
      (Ok (next_manifest name (now r) (length ms) (current_segments (log_last ms) @ [newSeg])), s')"
    "manifest_log J name (objects s')
      (ms @ [next_manifest name (now r) (length ms) (current_segments (log_last ms) @ [newSeg])])"
    "\<And>k. \<not> HasPrefix k (manifest_prefix name) \<Longrightarrow> objects s' k = objects s k"
proof (rule publishNext_last [OF log len json])
  fix s'
  assume "ms_publishNext B J name (now r) s (log_last ms) (current_segments (log_last ms) @ [newSeg]) =
      (Ok (next_manifest name (now r) (length ms) (current_segments (log_last ms) @ [newSeg])), s')"
    and "manifest_log J name (objects s')
      (ms @ [next_manifest name (now r) (length ms) (current_segments (log_last ms) @ [newSeg])])"
    and "\<And>k. \<not> HasPrefix k (manifest_prefix name) \<Longrightarrow> objects s' k = objects s k"
  then show thesis using Latest_log [OF log] by (intro that [of s']) (simp_all add: ms_Publish_def)
qed

end

end
