(* ===== verification/Publish.thy ===== *)
theory Publish
  imports Manifest
begin

text \<open>
  Several writers publishing manifests at the same time (flushes, compactions and deletes of one
  index). A writer of \<open>PublishTransform\<close> or \<open>PublishWithRetry\<close>
  (\<open>src/pkg/index/manifest.go\<close>) alternates two interactions with the store: it loads the
  latest manifest, and it tries to create the next version from it. Between the two, any other
  writer may act. The step relation below interleaves these interactions freely, together with
  writes of objects that are not manifests. Loading is one step although the code lists and then
  gets: a listed manifest never changes afterwards.

  Result: as long as fewer than a million versions exist, the manifests always form a chain in
  which every manifest is a writer's update of its immediate predecessor, so no update is lost.
  A counterpart shows what happens at version 1000000: the key no longer sorts last, and
  publishing fails for ever.
\<close>

section \<open>Interleaved writers\<close>

record 's psys =
  ps_store :: 's
  ps_base :: "nat \<Rightarrow> Manifest option option"

inductive publish_step ::
  "'s BlobStore \<Rightarrow> manifest_json \<Rightarrow> string \<Rightarrow> (nat \<Rightarrow> SegmentMeta list \<Rightarrow> SegmentMeta list)
     \<Rightarrow> 's psys \<Rightarrow> 's psys \<Rightarrow> bool"
  for B :: "'s BlobStore" and J :: manifest_json and name :: string
    and fn :: "nat \<Rightarrow> SegmentMeta list \<Rightarrow> SegmentMeta list" where
  load: "ms_Latest B J name (ps_store p) = Ok cur \<Longrightarrow>
    publish_step B J name fn p (p\<lparr>ps_base := (ps_base p)(w := Some cur)\<rparr>)"
| publish: "ps_base p w = Some cur \<Longrightarrow>
    ms_publishNext B J name now (ps_store p) cur (fn w (current_segments cur)) = (r, s') \<Longrightarrow>
    publish_step B J name fn p \<lparr>ps_store = s', ps_base = (ps_base p)(w := None)\<rparr>"
| other: "\<not> HasPrefix k (manifest_prefix name) \<Longrightarrow>
    bs_Put B (ps_store p) k b no_opts = (r, s') \<Longrightarrow>
    publish_step B J name fn p (p\<lparr>ps_store := s'\<rparr>)"

inductive publish_run ::
  "'s BlobStore \<Rightarrow> manifest_json \<Rightarrow> string \<Rightarrow> (nat \<Rightarrow> SegmentMeta list \<Rightarrow> SegmentMeta list)
     \<Rightarrow> 's psys \<Rightarrow> nat \<Rightarrow> 's psys \<Rightarrow> bool"
  for B :: "'s BlobStore" and J :: manifest_json and name :: string
    and fn :: "nat \<Rightarrow> SegmentMeta list \<Rightarrow> SegmentMeta list" and p0 :: "'s psys" where
  start: "publish_run B J name fn p0 0 p0"
| step: "publish_run B J name fn p0 n p \<Longrightarrow> publish_step B J name fn p p' \<Longrightarrow>
    publish_run B J name fn p0 (Suc n) p'"

text \<open>\<open>manifest_chain fn ms\<close>: every manifest is some writer's update of the one before it.\<close>

definition manifest_chain ::
  "(nat \<Rightarrow> SegmentMeta list \<Rightarrow> SegmentMeta list) \<Rightarrow> Manifest list \<Rightarrow> bool" where
  "manifest_chain fn ms \<longleftrightarrow>
     (\<forall>i < length ms. \<exists>w. mf_Segments (ms ! i) = fn w (current_segments (log_last (take i ms))))"

definition mj_faithful :: "manifest_json \<Rightarrow> bool" where
  "mj_faithful J \<longleftrightarrow> (\<forall>m d. mj_Marshal J m = Ok d \<longrightarrow> mj_Unmarshal J d = Ok m)"

definition psys_inv ::
  "manifest_json \<Rightarrow> string \<Rightarrow> (nat \<Rightarrow> SegmentMeta list \<Rightarrow> SegmentMeta list)
     \<Rightarrow> (string \<rightharpoonup> bytes) \<Rightarrow> (nat \<Rightarrow> Manifest option option) \<Rightarrow> Manifest list \<Rightarrow> bool" where
  "psys_inv J name fn objs base ms \<longleftrightarrow>
     manifest_log J name objs ms \<and> manifest_chain fn ms \<and>
     (\<forall>w cur. base w = Some cur \<longrightarrow> (\<exists>n \<le> length ms. cur = log_last (take n ms)))"

lemma manifest_chain_snoc:
  assumes "manifest_chain fn ms" and "mf_Segments m = fn w (current_segments (log_last ms))"
  shows "manifest_chain fn (ms @ [m])"
  using assms by (auto simp: manifest_chain_def nth_append less_Suc_eq)

lemma psys_inv_grow:
  assumes "psys_inv J name fn objs base ms" and "manifest_log J name objs' (ms @ [m])"
    and "mf_Segments m = fn w (current_segments (log_last ms))"
  shows "psys_inv J name fn objs' (base(w' := None)) (ms @ [m])"
proof -
  have "\<exists>n \<le> length (ms @ [m]). cur = log_last (take n (ms @ [m]))"
    if b: "base v = Some cur" for v cur
  proof -
    obtain n where "n \<le> length ms" "cur = log_last (take n ms)"
      using assms(1) b unfolding psys_inv_def by blast
    then show ?thesis by (intro exI [of _ n]) simp
  qed
  then show ?thesis
    using assms by (auto simp: psys_inv_def manifest_chain_snoc)
qed

lemma manifestKey_million: "manifestKey name 1000000 < manifestKey name 999999"
proof -
  have "pad06 1000000 = CHR ''1'' # ''000000''" "pad06 999999 = CHR ''9'' # ''99999''"
    by (simp_all add: pad06_def dec_string.simps digit_char_def char_of_def bit_iff_odd)
  then have "pad06 (unat (1000000 :: u64)) @ ''.json'' < pad06 (unat (999999 :: u64)) @ ''.json''"
    by (simp add: less_char_def)
  then show ?thesis unfolding manifestKey_def by (intro append_less_right)
qed

context blob_store
begin

lemma publish_step_inv:
  assumes step: "publish_step B J name fn p p'" and json: "mj_faithful J"
    and inv: "psys_inv J name fn (objects (ps_store p)) (ps_base p) ms"
    and len: "Suc (length ms) < 10 ^ 6"
  shows "\<exists>ms'. length ms' \<le> Suc (length ms) \<and>
    psys_inv J name fn (objects (ps_store p')) (ps_base p') ms'"
  using step
proof cases
  case (load cur w)
  have "cur = log_last (take (length ms) ms)"
    using load inv Latest_log by (auto simp: psys_inv_def)
  with inv load show ?thesis by (intro exI [of _ ms]) (auto simp: psys_inv_def)
next
  case (publish w cur now r s')
  have log: "manifest_log J name (objects (ps_store p)) ms" using inv by (simp add: psys_inv_def)
  obtain n where n: "n \<le> length ms" "cur = log_last (take n ms)"
    using inv publish unfolding psys_inv_def by blast
  let ?segs = "fn w (current_segments cur)"
  show ?thesis
  proof (cases "mj_roundtrip J (next_manifest name now n ?segs)")
    case True
    show ?thesis
    proof (cases "n = length ms")
      case True
      with n publish log len \<open>mj_roundtrip J _\<close> have
        "manifest_log J name (objects s') (ms @ [next_manifest name now (length ms) ?segs])"
        using publishNext_last [OF log len, of now ?segs] by auto
      with inv n True publish(1) show ?thesis
        by (intro exI [of _ "ms @ [next_manifest name now (length ms) ?segs]"])
          (auto intro!: psys_inv_grow simp: next_manifest_def)
    next
      case False
      with n have "s' = ps_store p"
        using publishNext_stale [OF log, of n now ?segs] publish True by auto
      with inv publish(1) show ?thesis by (intro exI [of _ ms]) (auto simp: psys_inv_def)
    qed
  next
    case False
    have "(case cur of None \<Rightarrow> 1 | Some c \<Rightarrow> mf_Version c + 1) = word_of_nat (Suc n)"
      using next_version [OF log n(1)] n(2) by simp
    with False json publish have "s' = ps_store p"
      by (auto simp: ms_publishNext_def Let_def mj_roundtrip_def mj_faithful_def next_manifest_def
          split: result.splits)
    with inv publish(1) show ?thesis by (intro exI [of _ ms]) (auto simp: psys_inv_def)
  qed
next
  case (other k b r s')
  then have "objects s' = (objects (ps_store p))(k \<mapsto> b)"
    using Put_plain [of "ps_store p" k b] by auto
  with other inv show ?thesis
    by (intro exI [of _ ms]) (auto simp: psys_inv_def manifest_log_other)
qed

lemma publish_run_inv:
  assumes run: "publish_run B J name fn p0 n p" and json: "mj_faithful J"
    and inv: "psys_inv J name fn (objects (ps_store p0)) (ps_base p0) ms"
    and len: "length ms + n < 10 ^ 6"
  shows "\<exists>ms'. length ms' \<le> length ms + n \<and>
    psys_inv J name fn (objects (ps_store p)) (ps_base p) ms'"
  using run len
proof (induction rule: publish_run.induct)
  case start
  with inv show ?case by auto
next
  case (step n p p')
  then obtain ms' where "length ms' \<le> length ms + n"
    and "psys_inv J name fn (objects (ps_store p)) (ps_base p) ms'"
    by auto
  with publish_step_inv [OF step.hyps(2) json, of ms'] step.prems obtain ms2
    where "length ms2 \<le> Suc (length ms')"
      "psys_inv J name fn (objects (ps_store p')) (ps_base p') ms2" by auto
  with \<open>length ms' \<le> _\<close> show ?case by (intro exI [of _ ms2]) simp
qed

lemma publish_run_chain:
  assumes run: "publish_run B J name fn p0 n p" and json: "mj_faithful J"
    and log: "manifest_log J name (objects (ps_store p0)) []" and base: "ps_base p0 = (\<lambda>_. None)"
    and len: "n < 10 ^ 6"
  shows "\<exists>ms. manifest_log J name (objects (ps_store p)) ms \<and> manifest_chain fn ms \<and>
    ms_Latest B J name (ps_store p) = Ok (log_last ms)"
proof -
  have "psys_inv J name fn (objects (ps_store p0)) (ps_base p0) []"
    using log base by (simp add: psys_inv_def manifest_chain_def)
  from publish_run_inv [OF run json this] len obtain ms
    where "psys_inv J name fn (objects (ps_store p)) (ps_base p) ms" by auto
  then show ?thesis using Latest_log by (auto simp: psys_inv_def)
qed

text \<open>Past version 999999 the key of the next version sorts before it.\<close>

lemma million_stuck:
  assumes keys: "{k \<in> dom (objects s). HasPrefix k (manifest_prefix name)} \<subseteq>
      manifestKey name ` {1..1000000}"
    and taken: "objects s (manifestKey name 1000000) \<noteq> None"
    and get: "objects s (manifestKey name 999999) = Some d" "mj_Unmarshal J d = Ok m"
    and ver: "mf_Version m = 999999"
    and json: "\<And>m. \<exists>d. mj_Marshal J m = Ok d"
  shows "ms_Latest B J name s = Ok (Some m) \<and>
    ms_PublishWithRetry B J name now s newSeg r = (Err (ErrMsg ''publish: exceeded retries''), s)"
proof -
  obtain ks where ks: "bs_List B s (manifest_prefix name) = Ok ks"
    and set: "set ks = {k \<in> dom (objects s). HasPrefix k (manifest_prefix name)}"
    using List_keys [of s "manifest_prefix name"] by auto
  have "last (sort ks) = manifestKey name 999999"
  proof (rule last_sort_eqI)
    show "manifestKey name 999999 \<in> set ks" using set get by auto
    fix k
    assume "k \<in> set ks"
    then have "k \<in> manifestKey name ` {1..1000000}" using set keys by blast
    then obtain v where v: "v \<le> 1000000" and k: "k = manifestKey name v" by auto
    then have "unat v \<le> 1000000" by (simp add: word_le_nat_alt)
    then consider "unat v < 999999" | "unat v = 999999" | "unat v = 1000000" by linarith
    then show "k \<le> manifestKey name 999999"
    proof cases
      case 1
      then have "v < 999999" by (simp add: word_less_nat_alt)
      then show ?thesis using manifestKey_less [of v 999999 name] k by (simp add: less_imp_le)
    next
      case 2
      then have "v = 999999" using word_eq_of_natI [of v 999999] by simp
      then show ?thesis using k by simp
    next
      case 3
      then have "v = 1000000" using word_eq_of_natI [of v 1000000] by simp
      then show ?thesis using manifestKey_million [of name] k by (simp add: less_imp_le)
    qed
  qed
  moreover have "length ks \<noteq> 0" using set get by auto
  ultimately have latest: "ms_Latest B J name s = Ok (Some m)"
    using ks get by (simp add: ms_Latest_def Get_Some Let_def)
  have "ms_publishNext B J name t s (Some m) segs = (Err (ErrManifestConflict 1000000), s)" for t segs
  proof -
    obtain d' where "mj_Marshal J \<lparr>mf_Version = 1000000, mf_IndexName = name,
        mf_Segments = segs, mf_CreatedAt = t\<rparr> = Ok d'" using json by blast
    moreover have "bs_Put B s (manifestKey name 1000000) d'
        \<lparr>IfNoneMatch = ''*'', ContentType = ''application/json''\<rparr> =
        (Err (ErrPreconditionFailed (manifestKey name 1000000)), s)"
      using taken by (intro Put_exists) simp_all
    ultimately show ?thesis by (simp add: ms_publishNext_def ver)
  qed
  then have "ms_PublishWithRetry B J name now s newSeg r = (Err (ErrMsg ''publish: exceeded retries''), s)"
    using latest by (induction r) (simp_all add: ms_Publish_def)
  with latest show ?thesis ..
qed

end

section \<open>Properties\<close>

text \<open>An encoding of one manifest, to run the model on.\<close>

definition one_json :: "Manifest \<Rightarrow> manifest_json" where
  "one_json m0 = \<lparr>mj_Marshal = (\<lambda>m. if m = m0 then Ok [0x31] else Err (ErrMsg ''json'')),
     mj_Unmarshal = (\<lambda>d. if d = [0x31] then Ok m0 else Err (ErrMsg ''json''))\<rparr>"

definition example_meta :: SegmentMeta where
  "example_meta = \<lparr>sm_ID = ''s1'', sm_DocCount = 1, sm_Bytes = 10, sm_MinTS = 0, sm_MaxTS = 0,
     sm_CreatedAt = 5, sm_DelVersion = 0, sm_Deleted = False\<rparr>"

definition example_manifest :: Manifest where
  "example_manifest = next_manifest ''idx'' 7 0 [example_meta]"

lemma one_json_faithful: "mj_faithful (one_json m)" "mj_roundtrip (one_json m) m"
  by (simp_all add: mj_faithful_def mj_roundtrip_def one_json_def)

lemma empty_log: "manifest_log J name (mem_content NewMemStore) []"
  by (simp add: manifest_log_def mem_content_def NewMemStore_def)

text \<open>Publishing with retries on an index whose manifests form a log (versions 1 to n, fewer
  than a million) succeeds at the first attempt when nobody interferes, appends the new segment to
  the segments of the last manifest, makes the result version n + 1 and the one that \<open>Latest\<close>
  returns, and keeps all earlier manifests.\<close>

theorem publish_appends_version:
  assumes store: "blob_store B objects" and log: "manifest_log J name (objects s) ms"
    and len: "Suc (length ms) < 10 ^ 6"
    and json: "mj_roundtrip J (next_manifest name (now r) (length ms)
      (current_segments (log_last ms) @ [newSeg]))"
  shows "\<exists>m s'. ms_PublishWithRetry B J name now s newSeg (Suc r) = (Ok m, s') \<and>
    unat (mf_Version m) = Suc (length ms) \<and> mf_Segments m = current_segments (log_last ms) @ [newSeg] \<and>
    manifest_log J name (objects s') (ms @ [m]) \<and> ms_Latest B J name s' = Ok (Some m)"
proof (rule blob_store.PublishWithRetry_log [where now = now and r = r, OF store log len json])
  let ?m = "next_manifest name (now r) (length ms) (current_segments (log_last ms) @ [newSeg])"
  fix s'
  assume "ms_PublishWithRetry B J name now s newSeg (Suc r) = (Ok ?m, s')"
    and log': "manifest_log J name (objects s') (ms @ [?m])"
  moreover have "ms_Latest B J name s' = Ok (Some ?m)"
    using blob_store.Latest_log [OF store log'] by (simp add: log_last_def)
  moreover have "unat (mf_Version ?m) = Suc (length ms)"
    using len by (simp add: next_manifest_def unat_version del: of_nat_Suc)
  moreover have "mf_Segments ?m = current_segments (log_last ms) @ [newSeg]"
    by (simp add: next_manifest_def)
  ultimately show ?thesis by blast
qed

theorem publish_appends_version_witness:
  "\<exists>m s'. ms_PublishWithRetry mem_BlobStore (one_json example_manifest) ''idx'' (\<lambda>_. 7) NewMemStore
      example_meta 5 = (Ok m, s') \<and> unat (mf_Version m) = 1 \<and> mf_Segments m = [example_meta] \<and>
    manifest_log (one_json example_manifest) ''idx'' (mem_content s') [m] \<and>
    ms_Latest mem_BlobStore (one_json example_manifest) ''idx'' s' = Ok (Some m)"
proof -
  have "mj_roundtrip (one_json example_manifest)
      (next_manifest ''idx'' 7 (length []) (current_segments (log_last []) @ [example_meta]))"
    using one_json_faithful(2) [of example_manifest]
    by (simp add: example_manifest_def current_segments_def log_last_def)
  from publish_appends_version [where now = "\<lambda>_. 7" and r = 4, OF mem.blob_store_axioms empty_log _ this]
  show ?thesis by (simp add: log_last_def current_segments_def del: ms_PublishWithRetry.simps)
qed

text \<open>A writer that built its manifest on an older version than the last is refused: the
  conditional put reports a conflict for that version and the store is left unchanged.\<close>

theorem publish_stale_conflicts:
  assumes store: "blob_store B objects" and "manifest_log J name (objects s) ms"
    and "n < length ms" and "mj_roundtrip J (next_manifest name now n segs)"
  shows "ms_publishNext B J name now s (log_last (take n ms)) segs =
    (Err (ErrManifestConflict (word_of_nat (Suc n))), s)"
  using assms by (rule blob_store.publishNext_stale)

theorem publish_stale_conflicts_witness:
  "\<exists>s m. ms_PublishWithRetry mem_BlobStore (one_json example_manifest) ''idx'' (\<lambda>_. 7) NewMemStore
      example_meta 1 = (Ok m, s) \<and>
    ms_publishNext mem_BlobStore (one_json example_manifest) ''idx'' 7 s None [example_meta] =
      (Err (ErrManifestConflict 1), s)"
proof -
  have rt: "mj_roundtrip (one_json example_manifest) (next_manifest ''idx'' 7 0 [example_meta])"
    using one_json_faithful(2) [of example_manifest] by (simp add: example_manifest_def)
  obtain s where s: "ms_PublishWithRetry mem_BlobStore (one_json example_manifest) ''idx'' (\<lambda>_. 7)
      NewMemStore example_meta (Suc 0) = (Ok example_manifest, s)"
    and log: "manifest_log (one_json example_manifest) ''idx'' (mem_content s) [example_manifest]"
    using mem.PublishWithRetry_log [OF empty_log, of "one_json example_manifest" "''idx''" "\<lambda>_. 7" 0
        example_meta] rt
    by (auto simp: log_last_def current_segments_def example_manifest_def)
  have "ms_publishNext mem_BlobStore (one_json example_manifest) ''idx'' 7 s
      (log_last (take 0 [example_manifest])) [example_meta] = (Err (ErrManifestConflict 1), s)"
    using publish_stale_conflicts [OF mem.blob_store_axioms log, of 0 7 "[example_meta]"] rt by simp
  with s show ?thesis by (auto simp: log_last_def)
qed



text \<open>C34: At version 1000000 the manifest log stops for ever: the key of that version sorts before
  the key of version 999999, so \<open>Latest\<close> still returns version 999999 and every later attempt to
  publish ends with \<open>exceeded retries\<close>, whatever the number of retries.\<close>

theorem publish_stuck_at_million:
  assumes "blob_store B objects"
    and "{k \<in> dom (objects s). HasPrefix k (manifest_prefix name)} \<subseteq> manifestKey name ` {1..1000000}"
    and "objects s (manifestKey name 1000000) \<noteq> None"
    and "objects s (manifestKey name 999999) = Some d" and "mj_Unmarshal J d = Ok m"
    and "mf_Version m = 999999" and "\<And>m. \<exists>d. mj_Marshal J m = Ok d"
  shows "ms_Latest B J name s = Ok (Some m) \<and>
    ms_PublishWithRetry B J name now s newSeg r = (Err (ErrMsg ''publish: exceeded retries''), s)"
  using assms by (rule blob_store.million_stuck)

definition last_manifest :: Manifest where
  "last_manifest = \<lparr>mf_Version = 999999, mf_IndexName = ''idx'', mf_Segments = [], mf_CreatedAt = 0\<rparr>"

definition last_json :: manifest_json where
  "last_json = \<lparr>mj_Marshal = (\<lambda>m. Ok [0x31]), mj_Unmarshal = (\<lambda>d. Ok last_manifest)\<rparr>"

definition million_store :: MemStore where
  "million_store = \<lparr>ms_objects = [(manifestKey ''idx'' 999999, [0x31]), (manifestKey ''idx'' 1000000, [0x31])],
     ms_RangeLog = []\<rparr>"

theorem publish_stuck_at_million_witness:
  "ms_Latest mem_BlobStore last_json ''idx'' million_store = Ok (Some last_manifest) \<and>
    ms_PublishWithRetry mem_BlobStore last_json ''idx'' (\<lambda>_. 0) million_store example_meta 5 =
      (Err (ErrMsg ''publish: exceeded retries''), million_store)"
proof (rule publish_stuck_at_million [OF mem.blob_store_axioms])
  show "{k \<in> dom (mem_content million_store). HasPrefix k (manifest_prefix ''idx'')}
      \<subseteq> manifestKey ''idx'' ` {1..1000000}"
    by (auto simp: million_store_def mem_content_def split: if_splits)
  show "mem_content million_store (manifestKey ''idx'' 1000000) \<noteq> None"
    by (simp add: million_store_def mem_content_def)
  show "mem_content million_store (manifestKey ''idx'' 999999) = Some [0x31]"
    by (simp add: million_store_def mem_content_def)
qed (simp_all add: last_json_def last_manifest_def)

end
