(* ===== verification/Json.thy ===== *)
theory Json
  imports Prelude
begin

text \<open>
  The JSON scanner of Go's \<open>encoding/json\<close>, as far as the write-ahead log uses it:
  \<open>json.Valid\<close> and \<open>json.Compact\<close>. The scanner is a byte-at-a-time state machine with a stack
  of open objects and arrays; \<open>Compact\<close> copies the bytes for which the scanner does not report
  white space outside a string. Result: what \<open>Compact\<close> returns is valid JSON.
\<close>

datatype jstate =
    BeginValue | BeginValueOrEmpty | BeginString | BeginStringOrEmpty | EndValue | EndTop
  | InString | InStringEsc | InStringEscU | InStringEscU1 | InStringEscU12 | InStringEscU123
  | Neg | S1 | S0 | Dot | Dot0 | SE | SESign | SE0
  | ST | STr | STru | SF | SFa | SFal | SFals | SN | SNu | SNul | SError

datatype parse_state = ParseObjectKey | ParseObjectValue | ParseArrayValue

text \<open>The scanner's answer: keep the byte, skip it (\<open>scanSkipSpace\<close>, \<open>scanEnd\<close>), or an error.\<close>

datatype scan_op = ScanKeep | ScanSkip | ScanError

record jscanner =
  jstep :: jstate
  jstack :: "parse_state list"
  jendTop :: bool
  jerr :: bool

definition jmaxNesting :: nat where "jmaxNesting = 10000"

definition jspace :: "u8 \<Rightarrow> bool" where
  "jspace c \<longleftrightarrow> c = 0x20 \<or> c = 0x09 \<or> c = 0x0d \<or> c = 0x0a"

definition jdigit :: "u8 \<Rightarrow> bool" where "jdigit c \<longleftrightarrow> 0x30 \<le> c \<and> c \<le> 0x39"

definition jhex :: "u8 \<Rightarrow> bool" where
  "jhex c \<longleftrightarrow> jdigit c \<or> (0x61 \<le> c \<and> c \<le> 0x66) \<or> (0x41 \<le> c \<and> c \<le> 0x46)"

definition jreset :: jscanner where
  "jreset = \<lparr>jstep = BeginValue, jstack = [], jendTop = False, jerr = False\<rparr>"

definition jfail :: "jscanner \<Rightarrow> jscanner \<times> scan_op" where
  "jfail s = (s\<lparr>jstep := SError, jerr := True\<rparr>, ScanError)"

definition jgo :: "jscanner \<Rightarrow> jstate \<Rightarrow> jscanner \<times> scan_op" where
  "jgo s st = (s\<lparr>jstep := st\<rparr>, ScanKeep)"

text \<open>The stack grows at its head here, at its end in Go.\<close>

definition jpush :: "jscanner \<Rightarrow> parse_state \<Rightarrow> jscanner \<times> scan_op" where
  "jpush s ps =
     (let s = s\<lparr>jstack := ps # jstack s\<rparr> in
      if length (jstack s) \<le> jmaxNesting then (s, ScanKeep) else jfail s)"

definition jpop :: "jscanner \<Rightarrow> jscanner" where
  "jpop s =
     (let s = s\<lparr>jstack := tl (jstack s)\<rparr> in
      if jstack s = [] then s\<lparr>jstep := EndTop, jendTop := True\<rparr> else s\<lparr>jstep := EndValue\<rparr>)"

definition stateEndTop :: "jscanner \<Rightarrow> u8 \<Rightarrow> jscanner \<times> scan_op" where
  "stateEndTop s c = (if \<not> jspace c then (fst (jfail s), ScanSkip) else (s, ScanSkip))"

definition stateEndValue :: "jscanner \<Rightarrow> u8 \<Rightarrow> jscanner \<times> scan_op" where
  "stateEndValue s c =
     (case jstack s of
        [] \<Rightarrow> stateEndTop (s\<lparr>jstep := EndTop, jendTop := True\<rparr>) c
      | ps # rest \<Rightarrow>
          if jspace c then (s\<lparr>jstep := EndValue\<rparr>, ScanSkip)
          else (case ps of
              ParseObjectKey \<Rightarrow>
                if c = 0x3a then (s\<lparr>jstack := ParseObjectValue # rest, jstep := BeginValue\<rparr>, ScanKeep)
                else jfail s
            | ParseObjectValue \<Rightarrow>
                if c = 0x2c then (s\<lparr>jstack := ParseObjectKey # rest, jstep := BeginString\<rparr>, ScanKeep)
                else if c = 0x7d then (jpop s, ScanKeep) else jfail s
            | ParseArrayValue \<Rightarrow>
                if c = 0x2c then (s\<lparr>jstep := BeginValue\<rparr>, ScanKeep)
                else if c = 0x5d then (jpop s, ScanKeep) else jfail s))"

definition stateBeginValue :: "jscanner \<Rightarrow> u8 \<Rightarrow> jscanner \<times> scan_op" where
  "stateBeginValue s c =
     (if jspace c then (s, ScanSkip)
      else if c = 0x7b then jpush (s\<lparr>jstep := BeginStringOrEmpty\<rparr>) ParseObjectKey
      else if c = 0x5b then jpush (s\<lparr>jstep := BeginValueOrEmpty\<rparr>) ParseArrayValue
      else if c = 0x22 then jgo s InString
      else if c = 0x2d then jgo s Neg
      else if c = 0x30 then jgo s S0
      else if c = 0x74 then jgo s ST
      else if c = 0x66 then jgo s SF
      else if c = 0x6e then jgo s SN
      else if jdigit c then jgo s S1
      else jfail s)"

definition stateBeginString :: "jscanner \<Rightarrow> u8 \<Rightarrow> jscanner \<times> scan_op" where
  "stateBeginString s c =
     (if jspace c then (s, ScanSkip) else if c = 0x22 then jgo s InString else jfail s)"

definition state0 :: "jscanner \<Rightarrow> u8 \<Rightarrow> jscanner \<times> scan_op" where
  "state0 s c =
     (if c = 0x2e then jgo s Dot else if c = 0x65 \<or> c = 0x45 then jgo s SE else stateEndValue s c)"

definition stateESign :: "jscanner \<Rightarrow> u8 \<Rightarrow> jscanner \<times> scan_op" where
  "stateESign s c = (if jdigit c then jgo s SE0 else jfail s)"

definition jexpect :: "jscanner \<Rightarrow> bool \<Rightarrow> jstate \<Rightarrow> jscanner \<times> scan_op" where
  "jexpect s ok st = (if ok then jgo s st else jfail s)"

definition jscan :: "jscanner \<Rightarrow> u8 \<Rightarrow> jscanner \<times> scan_op" where
  "jscan s c =
     (case jstep s of
        BeginValue \<Rightarrow> stateBeginValue s c
      | BeginValueOrEmpty \<Rightarrow>
          (if jspace c then (s, ScanSkip)
           else if c = 0x5d then stateEndValue s c else stateBeginValue s c)
      | BeginString \<Rightarrow> stateBeginString s c
      | BeginStringOrEmpty \<Rightarrow>
          (if jspace c then (s, ScanSkip)
           else if c = 0x7d then stateEndValue (s\<lparr>jstack := ParseObjectValue # tl (jstack s)\<rparr>) c
           else stateBeginString s c)
      | EndValue \<Rightarrow> stateEndValue s c
      | EndTop \<Rightarrow> stateEndTop s c
      | InString \<Rightarrow>
          (if c = 0x22 then jgo s EndValue else if c = 0x5c then jgo s InStringEsc
           else if c < 0x20 then jfail s else (s, ScanKeep))
      | InStringEsc \<Rightarrow>
          (if c \<in> {0x62, 0x66, 0x6e, 0x72, 0x74, 0x5c, 0x2f, 0x22} then jgo s InString
           else if c = 0x75 then jgo s InStringEscU else jfail s)
      | InStringEscU \<Rightarrow> jexpect s (jhex c) InStringEscU1
      | InStringEscU1 \<Rightarrow> jexpect s (jhex c) InStringEscU12
      | InStringEscU12 \<Rightarrow> jexpect s (jhex c) InStringEscU123
      | InStringEscU123 \<Rightarrow> jexpect s (jhex c) InString
      | Neg \<Rightarrow> (if c = 0x30 then jgo s S0 else jexpect s (jdigit c) S1)
      | S1 \<Rightarrow> (if jdigit c then jgo s S1 else state0 s c)
      | S0 \<Rightarrow> state0 s c
      | Dot \<Rightarrow> jexpect s (jdigit c) Dot0
      | Dot0 \<Rightarrow>
          (if jdigit c then (s, ScanKeep) else if c = 0x65 \<or> c = 0x45 then jgo s SE
           else stateEndValue s c)
      | SE \<Rightarrow> (if c = 0x2b \<or> c = 0x2d then jgo s SESign else stateESign s c)
      | SESign \<Rightarrow> stateESign s c
      | SE0 \<Rightarrow> (if jdigit c then (s, ScanKeep) else stateEndValue s c)
      | ST \<Rightarrow> jexpect s (c = 0x72) STr
      | STr \<Rightarrow> jexpect s (c = 0x75) STru
      | STru \<Rightarrow> jexpect s (c = 0x65) EndValue
      | SF \<Rightarrow> jexpect s (c = 0x61) SFa
      | SFa \<Rightarrow> jexpect s (c = 0x6c) SFal
      | SFal \<Rightarrow> jexpect s (c = 0x73) SFals
      | SFals \<Rightarrow> jexpect s (c = 0x65) EndValue
      | SN \<Rightarrow> jexpect s (c = 0x75) SNu
      | SNu \<Rightarrow> jexpect s (c = 0x6c) SNul
      | SNul \<Rightarrow> jexpect s (c = 0x6c) EndValue
      | SError \<Rightarrow> (s, ScanError))"

text \<open>\<open>scanner.eof\<close>: whether the input may end here.\<close>

definition jeof :: "jscanner \<Rightarrow> bool" where
  "jeof s = (if jerr s then False else if jendTop s then True else jendTop (fst (jscan s 0x20)))"

fun jrun :: "jscanner \<Rightarrow> bytes \<Rightarrow> jscanner option" where
  "jrun s [] = Some s"
| "jrun s (c # cs) = (case jscan s c of (s', v) \<Rightarrow> if v = ScanError then None else jrun s' cs)"

definition json_Valid :: "bytes \<Rightarrow> bool" where
  "json_Valid data = (case jrun jreset data of None \<Rightarrow> False | Some s \<Rightarrow> jeof s)"

fun jcompact :: "jscanner \<Rightarrow> bytes \<Rightarrow> (jscanner \<times> bytes) option" where
  "jcompact s [] = Some (s, [])"
| "jcompact s (c # cs) =
     (case jscan s c of (s', v) \<Rightarrow>
        if v = ScanError then None
        else map_option (\<lambda>(t, out). (t, if v = ScanSkip then out else c # out)) (jcompact s' cs))"

definition json_Compact :: "bytes \<Rightarrow> bytes result" where
  "json_Compact src =
     (case jcompact jreset src of
        None \<Rightarrow> Err (ErrMsg ''json: syntax error'')
      | Some (s, out) \<Rightarrow> if jeof s then Ok out else Err (ErrMsg ''json: syntax error''))"

subsection \<open>Compaction keeps a value valid and is idempotent\<close>

text \<open>
  Dropping white space after a number may leave the scanner of the output in a number state where
  the scanner of the input is already past the value; \<open>jsim\<close> relates the two.
\<close>

definition jvalue_end :: "jstate \<Rightarrow> bool" where
  "jvalue_end st \<longleftrightarrow> st \<in> {S1, S0, Dot0, SE0, EndValue}"

definition jsim :: "jscanner \<Rightarrow> jscanner \<Rightarrow> bool" where
  "jsim s t \<longleftrightarrow>
     s = t
   \<or> (jvalue_end (jstep t) \<and> jstack t = jstack s \<and> jerr t = jerr s \<and>
      (if jstack s = [] then jstep s = EndTop \<and> jendTop s
       else jstep s = EndValue \<and> jendTop t = jendTop s))"

lemma jsim_refl [simp]: "jsim s s"
  by (simp add: jsim_def)

lemma stateEndValue_skip_cases:
  assumes "stateEndValue s c = (s', ScanSkip)"
  shows "if jstack s = [] then s' = s\<lparr>jstep := EndTop, jendTop := True\<rparr> \<or> jerr s' \<and> jstep s' = SError
    else s' = s\<lparr>jstep := EndValue\<rparr>"
proof (cases "jstack s")
  case Nil
  then show ?thesis
    using assms by (auto simp: stateEndValue_def stateEndTop_def jfail_def split: if_splits)
next
  case (Cons ps rest)
  then show ?thesis
    using assms by (cases ps) (auto simp: stateEndValue_def jfail_def split: if_splits)
qed

lemma stateEndValue_skip:
  assumes "stateEndValue s c = (s', ScanSkip)" and "jsim s t" and "jvalue_end (jstep t)"
    and "jstack s \<noteq> [] \<or> s = t"
  shows "jsim s' t \<or> jerr s' \<and> jstep s' = SError"
proof (cases "jstack s = []")
  case True
  then show ?thesis
    using stateEndValue_skip_cases [OF assms(1)] assms(3,4) by (auto simp: jsim_def)
next
  case False
  then have "s' = s\<lparr>jstep := EndValue\<rparr>" using stateEndValue_skip_cases [OF assms(1)] by simp
  then show ?thesis using False assms(2,3) unfolding jsim_def by (cases "s = t") simp_all
qed

lemma state_skips:
  "stateBeginValue s c = (s', ScanSkip) \<Longrightarrow> s' = s"
  "stateBeginString s c = (s', ScanSkip) \<Longrightarrow> s' = s"
  "stateEndTop s c = (s', ScanSkip) \<Longrightarrow> s' = s \<or> jerr s' \<and> jstep s' = SError"
  "stateESign s c = (s', ScanSkip) \<Longrightarrow> False"
  "jexpect s b st = (s', ScanSkip) \<Longrightarrow> False"
  "jfail s = (s', ScanSkip) \<Longrightarrow> False"
  "jgo s st = (s', ScanSkip) \<Longrightarrow> False"
  "state0 s c = (s', ScanSkip) \<Longrightarrow> stateEndValue s c = (s', ScanSkip)"
  by (auto simp: stateBeginValue_def stateBeginString_def stateEndTop_def stateESign_def jexpect_def
    jfail_def jgo_def jpush_def state0_def Let_def split: if_splits)

lemma stateEndValue_close:
  "stateEndValue s 0x5d = (s', ScanSkip) \<Longrightarrow> jerr s' \<and> jstep s' = SError"
  "stateEndValue (s\<lparr>jstack := ps # st\<rparr>) 0x7d = (s', ScanSkip) \<Longrightarrow> False"
  by (auto simp: stateEndValue_def stateEndTop_def jfail_def jspace_def
    split: if_splits list.splits parse_state.splits)

lemma jscan_skip:
  assumes "jscan s c = (s', ScanSkip)"
  shows "s' = s \<or> jerr s' \<and> jstep s' = SError \<or>
    jvalue_end (jstep s) \<and> stateEndValue s c = (s', ScanSkip)"
  using assms
  by (cases "jstep s")
    (auto simp: jscan_def jvalue_end_def split: if_splits dest: state_skips stateEndValue_close)

lemma jscan_skip_sim:
  assumes "jscan s c = (s', ScanSkip)"
  shows "jsim s' s \<or> jerr s' \<and> jstep s' = SError"
  using jscan_skip [OF assms] stateEndValue_skip [of s c s' s] by auto

lemma jsim_skip:
  assumes "jsim s t" "jscan s c = (s', ScanSkip)"
  shows "jsim s' t \<or> jerr s' \<and> jstep s' = SError"
proof (cases "s = t")
  case True
  then show ?thesis using jscan_skip_sim assms(2) by blast
next
  case False
  then have v: "jvalue_end (jstep t)" using assms(1) by (simp add: jsim_def)
  show ?thesis
  proof (cases "jstack s = []")
    case True
    then have "stateEndTop s c = (s', ScanSkip)"
      using assms False by (simp add: jsim_def jscan_def)
    then show ?thesis using state_skips(3) assms(1) by blast
  next
    case nonempty: False
    then have "stateEndValue s c = (s', ScanSkip)"
      using assms False by (simp add: jsim_def jscan_def)
    then show ?thesis using stateEndValue_skip assms(1) v nonempty by blast
  qed
qed

lemma stateEndValue_keep:
  "jstack s \<noteq> [] \<Longrightarrow> jstack t = jstack s \<Longrightarrow> jendTop t = jendTop s \<Longrightarrow> jerr t = jerr s \<Longrightarrow>
    stateEndValue s c = (s', ScanKeep) \<Longrightarrow>
    stateEndValue t c = (s', ScanKeep) \<and> c \<in> {0x3a, 0x2c, 0x7d, 0x5d}"
  by (cases s; cases t) (auto simp: stateEndValue_def jfail_def jpop_def Let_def
    split: if_splits list.splits parse_state.splits)

lemma jscan_value_end:
  assumes "jvalue_end (jstep t)" "c \<in> {0x3a, 0x2c, 0x7d, 0x5d}"
  shows "jscan t c = stateEndValue t c"
proof -
  have "\<not> jdigit c \<and> c \<noteq> 0x2e \<and> c \<noteq> 0x65 \<and> c \<noteq> 0x45" using assms(2) by (auto simp: jdigit_def)
  then show ?thesis
    using assms(1) unfolding jvalue_end_def by (elim insertE emptyE) (simp_all add: jscan_def state0_def)
qed

lemma jsim_keep:
  assumes "jsim s t" "jscan s c = (s', ScanKeep)"
  shows "jscan t c = (s', ScanKeep)"
proof (cases "s = t")
  case True
  then show ?thesis using assms(2) by simp
next
  case False
  note sim = assms(1) False
  show ?thesis
  proof (cases "jstack s = []")
    case True
    then show ?thesis
      using assms(2) sim by (auto simp: jsim_def jscan_def stateEndTop_def split: if_splits)
  next
    case nonempty: False
    then have "stateEndValue s c = (s', ScanKeep)"
      using assms(2) sim by (simp add: jsim_def jscan_def)
    then have "stateEndValue t c = (s', ScanKeep) \<and> c \<in> {0x3a, 0x2c, 0x7d, 0x5d}"
      using stateEndValue_keep [of s t c s'] sim nonempty by (simp add: jsim_def)
    then show ?thesis using jscan_value_end sim by (auto simp: jsim_def)
  qed
qed

lemma jcompact_error:
  "jerr s \<Longrightarrow> jstep s = SError \<Longrightarrow> jcompact s src = Some (s', out) \<Longrightarrow> \<not> jeof s'"
  by (cases src) (auto simp: jeof_def jscan_def)

lemma jcompact_sim:
  "jsim s t \<Longrightarrow> jcompact s src = Some (s', out) \<Longrightarrow> jeof s' \<Longrightarrow>
    \<exists>t'. jcompact t out = Some (t', out) \<and> jsim s' t'"
proof (induction src arbitrary: s t out)
  case Nil
  then show ?case by simp
next
  case (Cons c cs)
  obtain s1 v where step: "jscan s c = (s1, v)" by fastforce
  then obtain out1 where rest: "jcompact s1 cs = Some (s', out1)" and v: "v \<noteq> ScanError"
    and out: "out = (if v = ScanSkip then out1 else c # out1)"
    using Cons.prems(2) by (auto split: if_splits)
  show ?case
  proof (cases v)
    case ScanSkip
    then have "jsim s1 t"
      using jsim_skip [OF Cons.prems(1)] step rest jcompact_error Cons.prems(3) by blast
    then show ?thesis using Cons.IH rest Cons.prems(3) out ScanSkip by simp
  next
    case ScanKeep
    then have "jscan t c = (s1, ScanKeep)" using jsim_keep Cons.prems(1) step by simp
    moreover have "\<exists>t'. jcompact s1 out1 = Some (t', out1) \<and> jsim s' t'"
      using Cons.IH [of s1 s1] rest Cons.prems(3) by simp
    ultimately show ?thesis using out ScanKeep by auto
  qed (use v in simp)
qed

lemma jscan_blank_endTop:
  "jvalue_end (jstep t) \<Longrightarrow> jendTop (fst (jscan t 0x20)) = (jstack t = [] \<or> jendTop t)"
  by (auto simp: jvalue_end_def jscan_def state0_def jdigit_def stateEndValue_def stateEndTop_def
    jspace_def split: list.splits parse_state.splits)

lemma jeof_sim: "jsim s t \<Longrightarrow> jeof s \<Longrightarrow> jeof t"
  using jscan_blank_endTop [of t] jscan_blank_endTop [of s]
  by (auto simp: jsim_def jeof_def jvalue_end_def split: if_splits)

lemma jrun_jcompact: "jrun s src = map_option fst (jcompact s src)"
  proof (induction src arbitrary: s)
  case (Cons c cs)
  then show ?case
    by (cases "jscan s c") (simp add: option.map_comp comp_def case_prod_unfold)
qed simp

lemma json_Valid_iff: "json_Valid src \<longleftrightarrow> (\<exists>out. json_Compact src = Ok out)"
  by (auto simp: json_Valid_def json_Compact_def jrun_jcompact split: option.splits)

lemma json_Compact_idem:
  assumes "json_Compact src = Ok out"
  shows "json_Compact out = Ok out"
proof -
  obtain s where s: "jcompact jreset src = Some (s, out)" "jeof s"
    using assms by (auto simp: json_Compact_def split: option.splits if_splits)
  then obtain t where "jcompact jreset out = Some (t, out)" "jsim s t"
    using jcompact_sim [of jreset jreset src s out] by auto
  then show ?thesis using jeof_sim s(2) by (auto simp: json_Compact_def)
qed

lemma json_Compact_Valid: "json_Compact src = Ok out \<Longrightarrow> json_Valid out"
  using json_Compact_idem json_Valid_iff by blast

lemma jcompact_length: "jcompact s src = Some (s', out) \<Longrightarrow> length out \<le> length src"
  by (induction s src arbitrary: out rule: jcompact.induct)
    (fastforce split: prod.splits if_splits intro: le_SucI)+

lemma json_Compact_length: "json_Compact src = Ok out \<Longrightarrow> length out \<le> length src"
  by (auto simp: json_Compact_def jcompact_length split: option.splits if_splits)

lemma json_Compact_ne: "json_Compact src = Ok out \<Longrightarrow> out \<noteq> []"
  using json_Compact_idem [of src out]
  by (auto simp: json_Compact_def jreset_def jeof_def jscan_def stateBeginValue_def jspace_def)

section \<open>Properties\<close>



end
