(* ===== verification/Wal.thy ===== *)
theory Wal
  imports Json
begin

text \<open>
  The write-ahead log (\<open>src/pkg/wal/wal.go\<close>): a file with an 8-byte header and records framed
  by length and CRC-32. The file is a byte sequence with a cursor, \<open>bufio.Writer\<close> its 64 KiB
  buffer with the sticky error, and operating-system calls take their outcome from a list of
  faults (\<open>f_faults\<close>, empty when nothing fails; a failing write writes nothing). Reads do not
  fail. The lock is an argument of \<open>Open\<close>.

  Results: every operation keeps the file a header followed by whole records, replay gives back
  exactly the records that were appended, in order, a file cut at any point replays to the
  records that are complete, and truncating a prefix keeps exactly the later records.
\<close>

section \<open>Files and buffered writers\<close>

record os_file =
  f_data :: bytes
  f_pos :: nat
  f_faults :: "bool list"

definition os_call :: "string \<Rightarrow> os_file \<Rightarrow> (os_file \<Rightarrow> 'a \<times> os_file) \<Rightarrow> 'a result \<times> os_file" where
  "os_call what f op =
     (case f_faults f of
        [] \<Rightarrow> (case op f of (x, f') \<Rightarrow> (Ok x, f'))
      | b # bs \<Rightarrow>
          (let f = f\<lparr>f_faults := bs\<rparr> in
           if b then (Err (ErrMsg what), f) else (case op f of (x, f') \<Rightarrow> (Ok x, f'))))"

definition f_Write :: "os_file \<Rightarrow> bytes \<Rightarrow> unit result \<times> os_file" where
  "f_Write f p = os_call ''write'' f (\<lambda>f. ((),
     f\<lparr>f_data := take (f_pos f) (f_data f) @ replicate (f_pos f - length (f_data f)) 0 @ p @
           drop (f_pos f + length p) (f_data f),
       f_pos := f_pos f + length p\<rparr>))"

definition f_Truncate :: "os_file \<Rightarrow> nat \<Rightarrow> unit result \<times> os_file" where
  "f_Truncate f n = os_call ''truncate'' f (\<lambda>f. ((),
     f\<lparr>f_data := take n (f_data f) @ replicate (n - length (f_data f)) 0\<rparr>))"

definition f_SeekStart :: "os_file \<Rightarrow> nat \<Rightarrow> unit result \<times> os_file" where
  "f_SeekStart f n = os_call ''seek'' f (\<lambda>f. ((), f\<lparr>f_pos := n\<rparr>))"

definition f_SeekEnd :: "os_file \<Rightarrow> unit result \<times> os_file" where
  "f_SeekEnd f = os_call ''seek'' f (\<lambda>f. ((), f\<lparr>f_pos := length (f_data f)\<rparr>))"

definition f_Size :: "os_file \<Rightarrow> nat result \<times> os_file" where
  "f_Size f = os_call ''stat'' f (\<lambda>f. (length (f_data f), f))"

definition f_Sync :: "os_file \<Rightarrow> unit result \<times> os_file" where
  "f_Sync f = os_call ''sync'' f (\<lambda>f. ((), f))"

definition f_Close :: "os_file \<Rightarrow> unit result \<times> os_file" where
  "f_Close f = os_call ''close'' f (\<lambda>f. ((), f))"

text \<open>\<open>ReadAt\<close> of \<open>n\<close> bytes: a short read is an error.\<close>

definition f_ReadAt :: "os_file \<Rightarrow> nat \<Rightarrow> nat \<Rightarrow> bytes result" where
  "f_ReadAt f n off =
     (if off + n \<le> length (f_data f) then Ok (take n (drop off (f_data f))) else Err (ErrMsg ''EOF''))"

record WAL =
  wal_f :: os_file
  bw_buf :: bytes
  bw_err :: "err option"
  wal_dir :: string

definition on_file :: "WAL \<Rightarrow> (os_file \<Rightarrow> 'a result \<times> os_file) \<Rightarrow> 'a result \<times> WAL" where
  "on_file w op = (case op (wal_f w) of (r, f) \<Rightarrow> (r, w\<lparr>wal_f := f\<rparr>))"

definition bw_size :: nat where "bw_size = 64 * 1024"

definition bw_Reset :: "WAL \<Rightarrow> WAL" where
  "bw_Reset w = w\<lparr>bw_buf := [], bw_err := None\<rparr>"

definition bw_Flush :: "WAL \<Rightarrow> unit result \<times> WAL" where
  "bw_Flush w =
     (case bw_err w of
        Some e \<Rightarrow> (Err e, w)
      | None \<Rightarrow>
          if bw_buf w = [] then (Ok (), w)
          else (case f_Write (wal_f w) (bw_buf w) of
              (Ok _, f) \<Rightarrow> (Ok (), w\<lparr>wal_f := f, bw_buf := []\<rparr>)
            | (Err e, f) \<Rightarrow> (Err e, w\<lparr>wal_f := f, bw_err := Some e\<rparr>)
            | (Panic, f) \<Rightarrow> (Panic, w\<lparr>wal_f := f\<rparr>)))"

text \<open>A write to an empty buffer: data that does not fit goes to the file directly.\<close>

definition bw_Write_empty :: "WAL \<Rightarrow> bytes \<Rightarrow> unit result \<times> WAL" where
  "bw_Write_empty w p =
     (if length p \<le> bw_size then (Ok (), w\<lparr>bw_buf := p\<rparr>)
      else (case f_Write (wal_f w) p of
          (Ok _, f) \<Rightarrow> (Ok (), w\<lparr>wal_f := f\<rparr>)
        | (Err e, f) \<Rightarrow> (Err e, w\<lparr>wal_f := f, bw_err := Some e\<rparr>)
        | (Panic, f) \<Rightarrow> (Panic, w\<lparr>wal_f := f\<rparr>)))"

definition bw_Write :: "WAL \<Rightarrow> bytes \<Rightarrow> unit result \<times> WAL" where
  "bw_Write w p =
     (let avail = bw_size - length (bw_buf w) in
      case bw_err w of
        Some e \<Rightarrow> (Err e, w)
      | None \<Rightarrow>
          if length p \<le> avail then (Ok (), w\<lparr>bw_buf := bw_buf w @ p\<rparr>)
          else if bw_buf w = [] then bw_Write_empty w p
          else st_bind (bw_Flush (w\<lparr>bw_buf := bw_buf w @ take avail p\<rparr>))
                 (\<lambda>_ w. bw_Write_empty w (drop avail p)))"

section \<open>CRC-32\<close>

text \<open>\<open>crc32.ChecksumIEEE\<close>: the reflected polynomial 0xEDB88320, one bit at a time.\<close>

definition crc_bit :: "u32 \<Rightarrow> u32" where
  "crc_bit c = (if bit c 0 then drop_bit 1 c XOR 0xEDB88320 else drop_bit 1 c)"

definition crc_byte :: "u32 \<Rightarrow> u8 \<Rightarrow> u32" where
  "crc_byte c b = (crc_bit ^^ 8) (c XOR ucast b)"

definition ChecksumIEEE :: "bytes \<Rightarrow> u32" where
  "ChecksumIEEE p = NOT (foldl crc_byte (NOT 0) p)"

section \<open>The log\<close>

definition walMagic :: u32 where "walMagic = 0x53334C57"
definition walVersion :: u8 where "walVersion = 2"
definition headerSize :: nat where "headerSize = 8"
definition recordOverhead :: nat where "recordOverhead = 8"

definition wal_header :: bytes where
  "wal_header = put_u32 walMagic @ [walVersion, 0, 0, 0]"

definition wal_writeHeader :: "WAL \<Rightarrow> unit result \<times> WAL" where
  "wal_writeHeader w = st_bind (bw_Write w wal_header) (\<lambda>_ w. bw_Flush w)"

definition wal_Append :: "WAL \<Rightarrow> bytes \<Rightarrow> unit result \<times> WAL" where
  "wal_Append w rawJSON =
     (case json_Compact rawJSON of
        Ok payload \<Rightarrow>
          st_bind (bw_Write w (put_u32 (word_of_nat (length payload)) @ put_u32 (ChecksumIEEE payload)))
            (\<lambda>_ w. bw_Write w payload)
      | Err e \<Rightarrow> (Err (ErrWrap ''wal: invalid JSON'' e), w)
      | Panic \<Rightarrow> (Panic, w))"

definition wal_Flush :: "WAL \<Rightarrow> unit result \<times> WAL" where
  "wal_Flush w = st_bind (bw_Flush w) (\<lambda>_ w. on_file w f_Sync)"

text \<open>A \<open>bufio.Reader\<close> is the bytes still to be read.\<close>

definition readFull :: "bytes \<Rightarrow> nat \<Rightarrow> (bytes \<times> bytes) result" where
  "readFull r n =
     (if n \<le> length r then Ok (take n r, drop n r)
      else if r = [] then Err (ErrMsg ''EOF'') else Err (ErrWrap ''short read'' (ErrMsg ''EOF'')))"

datatype frame = FrameEOF | FrameTorn | Frame bytes bytes

definition read_frame :: "bytes \<Rightarrow> frame" where
  "read_frame r =
     (case readFull r recordOverhead of
        Ok (hdr, r1) \<Rightarrow>
          (let payloadLen = le_word (take 4 hdr) :: u32; wantCRC = le_word (drop 4 hdr) :: u32 in
           case readFull r1 (unat payloadLen) of
             Ok (payload, r2) \<Rightarrow> if ChecksumIEEE payload \<noteq> wantCRC then FrameTorn else Frame payload r2
           | _ \<Rightarrow> FrameTorn)
      | _ \<Rightarrow> FrameEOF)"

lemma read_frame_shorter: "read_frame r = Frame p r' \<Longrightarrow> length r' < length r"
  by (auto simp: read_frame_def readFull_def recordOverhead_def Let_def split: if_splits)

text \<open>
  The loop of \<open>Replay\<close>: \<open>fn\<close> changes a state \<open>'m\<close>; its errors are logged and ignored.
  The loop ends at the end of the file, at a torn record, or with a panic of \<open>fn\<close>.
\<close>

datatype replay_end = ReplayEOF | ReplayTorn nat | ReplayPanic

function replay_loop ::
  "(bytes \<Rightarrow> 'm \<Rightarrow> unit result \<times> 'm) \<Rightarrow> bytes \<Rightarrow> nat \<Rightarrow> 'm \<Rightarrow> replay_end \<times> 'm" where
  "replay_loop fn r goodOffset m =
     (case read_frame r of
        FrameEOF \<Rightarrow> (ReplayEOF, m)
      | FrameTorn \<Rightarrow> (ReplayTorn goodOffset, m)
      | Frame payload r' \<Rightarrow>
          (let goodOffset = goodOffset + recordOverhead + length payload in
           if \<not> json_Valid payload then replay_loop fn r' goodOffset m
           else (case fn payload m of
               (Panic, m') \<Rightarrow> (ReplayPanic, m')
             | (_, m') \<Rightarrow> replay_loop fn r' goodOffset m')))"
  by pat_completeness auto
termination
  by (relation "measure (\<lambda>(fn, r, off, m). length r)") (auto simp: read_frame_shorter)

declare replay_loop.simps [simp del]

definition truncateToOffset :: "WAL \<Rightarrow> nat \<Rightarrow> unit result \<times> WAL" where
  "truncateToOffset w off =
     st_bind (on_file w (\<lambda>f. f_Truncate f off)) (\<lambda>_ w.
     st_bind (on_file w (\<lambda>f. f_SeekStart f off)) (\<lambda>_ w. (Ok (), bw_Reset w)))"

definition wal_Replay ::
  "WAL \<Rightarrow> (bytes \<Rightarrow> 'm \<Rightarrow> unit result \<times> 'm) \<Rightarrow> 'm \<Rightarrow> (unit result \<times> WAL) \<times> 'm" where
  "wal_Replay w fn m =
     (case on_file w (\<lambda>f. f_SeekStart f headerSize) of
        (Ok _, w) \<Rightarrow>
          (let w' = w\<lparr>wal_f := (wal_f w)\<lparr>f_pos := max headerSize (length (f_data (wal_f w)))\<rparr>\<rparr> in
           case replay_loop fn (drop headerSize (f_data (wal_f w))) headerSize m of
             (ReplayEOF, m') \<Rightarrow> ((Ok (), w'), m')
           | (ReplayTorn off, m') \<Rightarrow> (truncateToOffset w' off, m')
           | (ReplayPanic, m') \<Rightarrow> ((Panic, w'), m'))
      | (Err e, w) \<Rightarrow> ((Err e, w), m)
      | (Panic, w) \<Rightarrow> ((Panic, w), m))"

definition wal_DiscardBuffer :: "WAL \<Rightarrow> WAL" where
  "wal_DiscardBuffer w = bw_Reset w"

definition wal_Truncate :: "WAL \<Rightarrow> unit result \<times> WAL" where
  "wal_Truncate w =
     st_bind (bw_Flush w) (\<lambda>_ w.
     st_bind (on_file w (\<lambda>f. f_Truncate f 0)) (\<lambda>_ w.
     st_bind (on_file w (\<lambda>f. f_SeekStart f 0)) (\<lambda>_ w.
     wal_writeHeader (bw_Reset w))))"

definition wal_Position :: "WAL \<Rightarrow> int result \<times> WAL" where
  "wal_Position w =
     st_bind (bw_Flush w) (\<lambda>_ w.
     st_bind (on_file w f_Size) (\<lambda>n w. (Ok (int n), w)))"

definition wal_TruncatePrefix :: "WAL \<Rightarrow> int \<Rightarrow> unit result \<times> WAL" where
  "wal_TruncatePrefix w off =
     (if off \<le> int headerSize then (Ok (), w)
      else st_bind (bw_Flush w) (\<lambda>_ w.
        st_bind (on_file w f_Size) (\<lambda>size w.
        if int size \<le> off then wal_Truncate w
        else (case f_ReadAt (wal_f w) (size - nat off) (nat off) of
            Err e \<Rightarrow> (Err (ErrWrap ''wal: read tail'' e), w)
          | Panic \<Rightarrow> (Panic, w)
          | Ok tail \<Rightarrow>
              st_bind (on_file w (\<lambda>f. f_Truncate f 0)) (\<lambda>_ w.
              st_bind (on_file w (\<lambda>f. f_SeekStart f 0)) (\<lambda>_ w.
              st_bind (wal_writeHeader (bw_Reset w)) (\<lambda>_ w.
              st_bind (on_file w (\<lambda>f. f_Write f tail)) (\<lambda>_ w.
              st_bind (on_file w f_SeekEnd) (\<lambda>_ w. on_file w f_Sync)))))))))"

definition wal_Close :: "WAL \<Rightarrow> unit result \<times> WAL" where
  "wal_Close w = on_file (snd (bw_Flush w)) f_Close"

definition wal_IsEmpty :: "WAL \<Rightarrow> bool result \<times> WAL" where
  "wal_IsEmpty w = st_bind (on_file w f_Size) (\<lambda>n w. (Ok (n \<le> headerSize), w))"

text \<open>
  \<open>bufio.Scanner\<close> with \<open>ScanLines\<close> and a 4 MiB buffer: lines end at a newline, one trailing
  carriage return is dropped, the last line may lack its newline, and a line that fills the
  buffer is \<open>ErrTooLong\<close>.
\<close>

definition scan_max :: nat where "scan_max = 4 * 1024 * 1024"

definition dropCR :: "bytes \<Rightarrow> bytes" where
  "dropCR l = (if l \<noteq> [] \<and> last l = 0x0d then butlast l else l)"

function scan_lines :: "bytes \<Rightarrow> bytes list" where
  "scan_lines b =
     (if b = [] then []
      else takeWhile (\<lambda>c. c \<noteq> 0x0a) b # scan_lines (tl (dropWhile (\<lambda>c. c \<noteq> 0x0a) b)))"
  by pat_completeness auto
termination
proof (relation "measure length")
  fix b :: bytes
  assume "b \<noteq> []"
  then have "length b \<noteq> 0" by simp
  moreover have "length (dropWhile (\<lambda>c. c \<noteq> 0x0a) b) \<le> length b" by (rule length_dropWhile_le)
  ultimately have "length (dropWhile (\<lambda>c. c \<noteq> 0x0a) b) - 1 < length b" by linarith
  then show "(tl (dropWhile (\<lambda>c. c \<noteq> 0x0a) b), b) \<in> measure length" by simp
qed simp

declare scan_lines.simps [simp del]

fun append_all :: "WAL \<Rightarrow> bytes list \<Rightarrow> unit result \<times> WAL" where
  "append_all w [] = (Ok (), w)"
| "append_all w (rec # recs) = st_bind (wal_Append w rec) (\<lambda>_ w. append_all w recs)"

definition migrateV1ToV2 :: "WAL \<Rightarrow> unit result \<times> WAL" where
  "migrateV1ToV2 w =
     st_bind (on_file w (\<lambda>f. f_SeekStart f 0)) (\<lambda>_ w.
     (let ls = scan_lines (f_data (wal_f w));
          records = filter (\<lambda>l. l \<noteq> [] \<and> json_Valid l) (map dropCR ls) in
      if \<exists>l \<in> set ls. scan_max \<le> length l
      then (Err (ErrMsg ''bufio.Scanner: token too long''), w)
      else st_bind (on_file w (\<lambda>f. f_Truncate f 0)) (\<lambda>_ w.
        st_bind (on_file w (\<lambda>f. f_SeekStart f 0)) (\<lambda>_ w.
        st_bind (wal_writeHeader (bw_Reset w)) (\<lambda>_ w.
        st_bind (append_all w records) (\<lambda>_ w. wal_Flush w))))))"

text \<open>
  \<open>Open\<close> on a file that has content \<open>f_data f\<close> (empty when it is created here). \<open>locked\<close>
  says that another process holds the lock. The file is returned in every case.
\<close>

definition new_WAL :: "string \<Rightarrow> os_file \<Rightarrow> WAL" where
  "new_WAL dir f = \<lparr>wal_f = f, bw_buf = [], bw_err = None, wal_dir = dir\<rparr>"

definition wal_Open :: "string \<Rightarrow> bool \<Rightarrow> os_file \<Rightarrow> unit result \<times> WAL" where
  "wal_Open dir locked f =
     (let w = new_WAL dir (f\<lparr>f_pos := 0\<rparr>) in
      st_bind (on_file w (\<lambda>f. os_call ''mkdir'' f (\<lambda>f. ((), f)))) (\<lambda>_ w.
      st_bind (st_wrap ''wal: open'' (on_file w (\<lambda>f. os_call ''open'' f (\<lambda>f. ((), f))))) (\<lambda>_ w.
      if locked then (Err (ErrWrap ''at'' ErrLocked), w)
      else st_bind (st_wrap ''wal: flock'' (on_file w (\<lambda>f. os_call ''flock'' f (\<lambda>f. ((), f))))) (\<lambda>_ w.
      st_bind (on_file w f_Size) (\<lambda>size w.
      if size = 0 then wal_writeHeader w
      else (case f_ReadAt (wal_f w) headerSize 0 of
          Err e \<Rightarrow> (Err (ErrWrap ''wal: read header'' e), w)
        | Panic \<Rightarrow> (Panic, w)
        | Ok hdr \<Rightarrow>
            st_bind
              (if (le_word (take 4 hdr) :: u32) \<noteq> walMagic
               then st_wrap ''wal: v1->v2 migration'' (migrateV1ToV2 w) else (Ok (), w))
              (\<lambda>_ w. on_file w f_SeekEnd)))))))"

section \<open>Operations on a healthy log\<close>

text \<open>
  \<open>mkwal d x b\<close>: a log with file content \<open>x\<close>, the cursor at its end, \<open>b\<close> in the buffer and no
  fault ahead. \<open>wal_at d c w\<close>: file and buffer together hold \<open>c\<close>.
\<close>

definition mkfile :: "bytes \<Rightarrow> os_file" where
  "mkfile x = \<lparr>f_data = x, f_pos = length x, f_faults = []\<rparr>"

definition mkwal :: "string \<Rightarrow> bytes \<Rightarrow> bytes \<Rightarrow> WAL" where
  "mkwal d x b = \<lparr>wal_f = mkfile x, bw_buf = b, bw_err = None, wal_dir = d\<rparr>"

definition wal_at :: "string \<Rightarrow> bytes \<Rightarrow> WAL \<Rightarrow> bool" where
  "wal_at d c w \<longleftrightarrow> (\<exists>x b. w = mkwal d x b \<and> x @ b = c \<and> length b \<le> bw_size)"

definition enc_record :: "bytes \<Rightarrow> bytes" where
  "enc_record p = put_u32 (word_of_nat (length p)) @ put_u32 (ChecksumIEEE p) @ p"

definition wal_records :: "bytes list \<Rightarrow> bytes" where
  "wal_records ps = concat (map enc_record ps)"

definition wal_file :: "bytes list \<Rightarrow> bytes" where
  "wal_file ps = wal_header @ wal_records ps"

lemma mkwal_inject [simp]: "mkwal d x b = mkwal d' x' b' \<longleftrightarrow> d = d' \<and> x = x' \<and> b = b'"
  by (auto simp: mkwal_def mkfile_def)

lemma wal_at_mkwal [simp]: "wal_at d c (mkwal d x b) \<longleftrightarrow> x @ b = c \<and> length b \<le> bw_size"
  by (auto simp: wal_at_def)

lemma mkwal_fields [simp]:
  "wal_f (mkwal d x b) = mkfile x" "bw_buf (mkwal d x b) = b" "bw_err (mkwal d x b) = None"
  "f_data (mkfile x) = x" "f_pos (mkfile x) = length x" "f_faults (mkfile x) = []"
  by (simp_all add: mkwal_def mkfile_def)

lemma mkwal_updates [simp]:
  "(mkwal d x b)\<lparr>wal_f := mkfile y\<rparr> = mkwal d y b" "(mkwal d x b)\<lparr>bw_buf := c\<rparr> = mkwal d x c"
  "bw_Reset (mkwal d x b) = mkwal d x []"
  by (simp_all add: mkwal_def bw_Reset_def)

lemma mkfile_ops [simp]:
  "f_Write (mkfile x) p = (Ok (), mkfile (x @ p))"
  "f_Size (mkfile x) = (Ok (length x), mkfile x)"
  "f_Sync (mkfile x) = (Ok (), mkfile x)"
  "f_SeekEnd (mkfile x) = (Ok (), mkfile x)"
  "f_Close (mkfile x) = (Ok (), mkfile x)"
  "os_call what (mkfile x) (\<lambda>f. ((), f)) = (Ok (), mkfile x)"
  by (simp_all add: os_call_def f_Write_def f_Size_def f_Sync_def f_SeekEnd_def f_Close_def mkfile_def)

lemma clear_file:
  "st_bind (on_file (mkwal d x b) (\<lambda>f. f_Truncate f 0)) (\<lambda>_ w.
     st_bind (on_file w (\<lambda>f. f_SeekStart f 0)) (\<lambda>_ w. k (bw_Reset w))) = k (mkwal d [] [])"
  by (simp add: on_file_def f_Truncate_def f_SeekStart_def os_call_def mkwal_def mkfile_def bw_Reset_def)

lemma bw_Flush_mkwal [simp]: "bw_Flush (mkwal d x b) = (Ok (), mkwal d (x @ b) [])"
  by (simp add: bw_Flush_def)

lemma bw_Write_empty_at:
  obtains w' where "bw_Write_empty (mkwal d x []) p = (Ok (), w')" "wal_at d (x @ p) w'"
  by (cases "length p \<le> bw_size") (auto simp: bw_Write_empty_def)

lemma bw_Write_at:
  assumes "wal_at d c w"
  obtains w' where "bw_Write w p = (Ok (), w')" "wal_at d (c @ p) w'"
proof -
  obtain x b where w: "w = mkwal d x b" "x @ b = c" "length b \<le> bw_size"
    using assms by (auto simp: wal_at_def)
  let ?avail = "bw_size - length b"
  consider (fits) "length p \<le> ?avail" | (direct) "\<not> length p \<le> ?avail" "b = []"
    | (split) "\<not> length p \<le> ?avail" "b \<noteq> []" by blast
  then show thesis
  proof cases
    case fits
    with w that [of "mkwal d x (b @ p)"] show ?thesis by (auto simp: bw_Write_def)
  next
    case direct
    with w bw_Write_empty_at [of d x p] that show ?thesis by (auto simp: bw_Write_def Let_def)
  next
    case split
    obtain w' where "bw_Write_empty (mkwal d (x @ b @ take ?avail p) []) (drop ?avail p) = (Ok (), w')"
      "wal_at d ((x @ b @ take ?avail p) @ drop ?avail p) w'"
      by (rule bw_Write_empty_at)
    with split w that [of w'] show ?thesis by (auto simp: bw_Write_def Let_def)
  qed
qed

lemma wal_Flush_at: "wal_at d c w \<Longrightarrow> wal_Flush w = (Ok (), mkwal d c [])"
  by (auto simp: wal_at_def wal_Flush_def on_file_def)

lemma wal_Append_at:
  assumes "wal_at d c w" and "json_Compact j = Ok p"
  obtains w' where "wal_Append w j = (Ok (), w')" "wal_at d (c @ enc_record p) w'"
proof -
  let ?hdr = "put_u32 (word_of_nat (length p)) @ put_u32 (ChecksumIEEE p)"
  obtain w1 where w1: "bw_Write w ?hdr = (Ok (), w1)" "wal_at d (c @ ?hdr) w1"
    using assms(1) by (rule bw_Write_at)
  obtain w2 where "bw_Write w1 p = (Ok (), w2)" "wal_at d ((c @ ?hdr) @ p) w2"
    using w1(2) by (rule bw_Write_at)
  with w1 assms(2) that [of w2] show thesis by (simp add: wal_Append_def enc_record_def)
qed

lemma wal_Append_invalid:
  "json_Compact j = Err e \<Longrightarrow> wal_Append w j = (Err (ErrWrap ''wal: invalid JSON'' e), w)"
  by (simp add: wal_Append_def)

lemma append_all_at:
  "wal_at d c w \<Longrightarrow> map json_Compact js = map Ok ps \<Longrightarrow>
    \<exists>w'. append_all w js = (Ok (), w') \<and> wal_at d (c @ wal_records ps) w'"
proof (induction js arbitrary: c w ps)
  case Nil
  then show ?case by (simp add: wal_records_def)
next
  case (Cons j js)
  then obtain p ps' where ps: "ps = p # ps'" and p: "json_Compact j = Ok p"
    and js: "map json_Compact js = map Ok ps'" by (cases ps) auto
  obtain w1 where "wal_Append w j = (Ok (), w1)" "wal_at d (c @ enc_record p) w1"
    using Cons.prems(1) p by (rule wal_Append_at)
  with Cons.IH [OF this(2) js] ps show ?case by (simp add: wal_records_def)
qed

lemma length_wal_header [simp]: "length wal_header = headerSize"
  by (simp add: wal_header_def headerSize_def)

lemma wal_writeHeader_empty: "wal_writeHeader (mkwal d [] []) = (Ok (), mkwal d wal_header [])"
  by (simp add: wal_writeHeader_def bw_Write_def bw_size_def headerSize_def)

lemma wal_Position_at: "wal_at d c w \<Longrightarrow> wal_Position w = (Ok (int (length c)), mkwal d c [])"
  by (auto simp: wal_at_def wal_Position_def on_file_def)

lemma wal_Truncate_at: "wal_at d c w \<Longrightarrow> wal_Truncate w = (Ok (), mkwal d wal_header [])"
  by (auto simp: wal_at_def wal_Truncate_def clear_file [where k = wal_writeHeader] wal_writeHeader_empty)

lemma wal_TruncatePrefix_at:
  assumes "wal_at d (wal_header @ x @ y) w" and "off = int (length (wal_header @ x))"
  shows "\<exists>w'. wal_TruncatePrefix w off = (Ok (), w') \<and> wal_at d (wal_header @ y) w'"
proof (cases "x = []")
  case True
  with assms show ?thesis by (simp add: wal_TruncatePrefix_def)
next
  case False
  let ?k = "\<lambda>w. st_bind (wal_writeHeader w) (\<lambda>_ w.
    st_bind (on_file w (\<lambda>f. f_Write f y)) (\<lambda>_ w.
    st_bind (on_file w f_SeekEnd) (\<lambda>_ w. on_file w f_Sync)))"
  obtain a b where w: "w = mkwal d a b" "a @ b = wal_header @ x @ y"
    using assms(1) by (auto simp: wal_at_def)
  note off = assms(2)
  show ?thesis
  proof (cases "y = []")
    case True
    then have "wal_TruncatePrefix w off = wal_Truncate (mkwal d (wal_header @ x) [])"
      using w off False by (simp add: wal_TruncatePrefix_def on_file_def)
    then show ?thesis using True wal_Truncate_at [of d "wal_header @ x"] by simp
  next
    case ne: False
    have "f_ReadAt (mkfile (wal_header @ x @ y)) (length y) (headerSize + length x) = Ok y"
      by (simp add: f_ReadAt_def)
    then have "wal_TruncatePrefix w off = ?k (mkwal d [] [])"
      using w off False ne clear_file [of d "wal_header @ x @ y" "[]" ?k]
      by (simp add: wal_TruncatePrefix_def on_file_def nat_add_distrib)
    then show ?thesis by (simp add: wal_writeHeader_empty on_file_def)
  qed
qed

section \<open>Opening\<close>

lemma wal_Open_locked:
  "f_faults f = [] \<Longrightarrow> fst (wal_Open dir True f) = Err (ErrWrap ''at'' ErrLocked) \<and>
    f_data (wal_f (snd (wal_Open dir True f))) = f_data f"
  by (simp add: wal_Open_def new_WAL_def on_file_def os_call_def)

lemma wal_Open_fresh:
  assumes "f_data f = []" and "f_faults f = []"
  shows "wal_Open dir False f = (Ok (), mkwal dir wal_header [])"
proof -
  have "new_WAL dir (f\<lparr>f_pos := 0\<rparr>) = mkwal dir [] []"
    using assms by (simp add: new_WAL_def mkwal_def mkfile_def)
  then show ?thesis by (simp add: wal_Open_def on_file_def wal_writeHeader_empty)
qed

text \<open>On a file with content, \<open>Open\<close> reads the magic number.\<close>

lemma wal_Open_nonempty:
  assumes "f_data f \<noteq> []" and "f_faults f = []"
  shows "wal_Open dir False f =
    (let w = new_WAL dir (f\<lparr>f_pos := 0\<rparr>) in
     if length (f_data f) < headerSize
     then (Err (ErrWrap ''wal: read header'' (ErrMsg ''EOF'')), w)
     else if (le_word (take 4 (f_data f)) :: u32) = walMagic
     then (Ok (), mkwal dir (f_data f) [])
     else st_bind (st_wrap ''wal: v1->v2 migration'' (migrateV1ToV2 w)) (\<lambda>_ w. on_file w f_SeekEnd))"
  using assms
  by (simp add: wal_Open_def new_WAL_def on_file_def os_call_def f_Size_def f_ReadAt_def f_SeekEnd_def
    mkwal_def mkfile_def headerSize_def Let_def)

lemma wal_header_magic: "(le_word (take 4 (wal_header @ x)) :: u32) = walMagic"
  by (simp add: wal_header_def)

lemma wal_Open_existing:
  assumes "f_data f = wal_header @ x" and "f_faults f = []"
  shows "wal_Open dir False f = (Ok (), mkwal dir (wal_header @ x) [])"
proof -
  have "wal_header \<noteq> []" by (simp add: wal_header_def)
  then show ?thesis
    using assms wal_header_magic [of x] by (subst wal_Open_nonempty) (auto simp: Let_def)
qed

text \<open>
  Migration of a version 1 file: the non-empty valid lines become records, each compacted.
\<close>

definition v1_lines :: "bytes \<Rightarrow> bytes list" where
  "v1_lines data = filter (\<lambda>l. l \<noteq> [] \<and> json_Valid l) (map dropCR (scan_lines data))"

definition compacted :: "bytes \<Rightarrow> bytes" where
  "compacted j = (case json_Compact j of Ok p \<Rightarrow> p | _ \<Rightarrow> [])"

lemma migrate_at:
  assumes f: "f_faults f = []" and small: "\<forall>l \<in> set (scan_lines (f_data f)). length l < scan_max"
  shows "migrateV1ToV2 (new_WAL dir f) = (Ok (), mkwal dir (wal_file (map compacted (v1_lines (f_data f)))) [])"
proof -
  let ?js = "v1_lines (f_data f)"
  have "map json_Compact ?js = map Ok (map compacted ?js)"
    by (auto simp: v1_lines_def compacted_def json_Valid_iff)
  moreover have "wal_at dir wal_header (mkwal dir wal_header [])" by simp
  ultimately obtain w' where app: "append_all (mkwal dir wal_header []) ?js = (Ok (), w')"
    and w': "wal_at dir (wal_file (map compacted ?js)) w'"
    using append_all_at [of dir wal_header] by (fastforce simp: wal_file_def)
  let ?k = "\<lambda>w. st_bind (wal_writeHeader w) (\<lambda>_ w. st_bind (append_all w ?js) (\<lambda>_ w. wal_Flush w))"
  have "\<not> (\<exists>l \<in> set (scan_lines (f_data f)). scan_max \<le> length l)" using small by (meson leD)
  then have "migrateV1ToV2 (new_WAL dir f) = ?k (mkwal dir [] [])"
    using f by (cases f) (simp add: migrateV1ToV2_def new_WAL_def on_file_def f_SeekStart_def f_Truncate_def
      os_call_def v1_lines_def mkwal_def mkfile_def bw_Reset_def Let_def)
  then show ?thesis using app wal_Flush_at [OF w'] by (simp add: wal_writeHeader_empty)
qed

lemma wal_Open_migrates:
  assumes f: "f_faults f = []" and len: "headerSize \<le> length (f_data f)"
    and magic: "(le_word (take 4 (f_data f)) :: u32) \<noteq> walMagic"
    and small: "\<forall>l \<in> set (scan_lines (f_data f)). length l < scan_max"
  shows "wal_Open dir False f = (Ok (), mkwal dir (wal_file (map compacted (v1_lines (f_data f)))) [])"
proof -
  have "f_data f \<noteq> []" using len by (auto simp: headerSize_def)
  then show ?thesis
    using f len magic migrate_at [of "f\<lparr>f_pos := 0\<rparr>" dir] small
    by (subst wal_Open_nonempty) (simp_all add: on_file_def)
qed

section \<open>Replay\<close>

lemma length_enc_record [simp]: "length (enc_record p) = recordOverhead + length p"
  by (simp add: enc_record_def recordOverhead_def)

lemma wal_records_ne: "ps \<noteq> [] \<Longrightarrow> wal_records ps \<noteq> []"
proof -
  assume "ps \<noteq> []"
  then obtain p qs where "ps = p # qs" by (cases ps) auto
  then have "0 < length (wal_records ps)" by (simp add: wal_records_def recordOverhead_def del: length_greater_0_conv)
  then show ?thesis by auto
qed

definition record_wf :: "bytes \<Rightarrow> bool" where
  "record_wf p \<longleftrightarrow> length p < 2 ^ 32"

lemma read_frame_header:
  assumes "record_wf p"
  shows "read_frame (put_u32 (word_of_nat (length p)) @ put_u32 (ChecksumIEEE p) @ r) =
    (if length r < length p then FrameTorn
     else if ChecksumIEEE (take (length p) r) \<noteq> ChecksumIEEE p then FrameTorn
     else Frame (take (length p) r) (drop (length p) r))"
proof -
  have "unat (word_of_nat (length p) :: u32) = length p"
    using assms by (simp add: record_wf_def unat_of_nat)
  then show ?thesis
    by (simp add: read_frame_def readFull_def recordOverhead_def Let_def)
qed

lemma read_frame_record: "record_wf p \<Longrightarrow> read_frame (enc_record p @ r) = Frame p r"
  by (simp add: enc_record_def read_frame_header)

lemma read_frame_torn:
  assumes "record_wf p" and "n < length (enc_record p)"
  shows "read_frame (take n (enc_record p)) = (if n < recordOverhead then FrameEOF else FrameTorn)"
proof (cases "n < recordOverhead")
  case True
  then show ?thesis by (simp add: read_frame_def readFull_def)
next
  case False
  let ?hdr = "put_u32 (word_of_nat (length p)) @ put_u32 (ChecksumIEEE p)"
  have "length ?hdr = 8" by simp
  then have "take n (?hdr @ p) = ?hdr @ take (n - 8) p"
    using False by (simp only: take_append) (simp add: recordOverhead_def)
  moreover have "n - 8 < length p" using assms(2) False by (simp add: recordOverhead_def)
  ultimately have "take n (enc_record p) = put_u32 (word_of_nat (length p)) @
      put_u32 (ChecksumIEEE p) @ take (n - 8) p" and "n - 8 < length p"
    by (simp_all add: enc_record_def)
  then show ?thesis
    using False read_frame_header [OF assms(1), of "take (n - 8) p"] by simp
qed

definition dec_record :: "bytes \<Rightarrow> (bytes \<times> bytes) result" where
  "dec_record r = (case read_frame r of Frame p r' \<Rightarrow> Ok (p, r') | _ \<Rightarrow> Err (ErrMsg ''torn''))"

interpretation wal_frame: frame_codec enc_record dec_record record_wf
  by unfold_locales (simp add: dec_record_def read_frame_record)

text \<open>The effect of a replay on the state of its callback.\<close>

definition replay_fold :: "(bytes \<Rightarrow> 'm \<Rightarrow> unit result \<times> 'm) \<Rightarrow> bytes list \<Rightarrow> 'm \<Rightarrow> 'm" where
  "replay_fold fn ps m = foldl (\<lambda>m p. if json_Valid p then snd (fn p m) else m) m ps"

definition no_panic :: "(bytes \<Rightarrow> 'm \<Rightarrow> unit result \<times> 'm) \<Rightarrow> bool" where
  "no_panic fn \<longleftrightarrow> (\<forall>p m. fst (fn p m) \<noteq> Panic)"

lemma replay_loop_record:
  assumes "no_panic fn" and "record_wf p"
  shows "replay_loop fn (enc_record p @ r) off m =
    replay_loop fn r (off + length (enc_record p)) (if json_Valid p then snd (fn p m) else m)"
proof -
  have "fst (fn p m) \<noteq> Panic" using assms(1) by (simp add: no_panic_def)
  then show ?thesis
    by (subst replay_loop.simps)
      (auto simp: read_frame_record assms add.assoc Let_def split: prod.splits result.splits)
qed

lemma replay_loop_records:
  assumes "no_panic fn"
  shows "\<forall>p \<in> set ps. record_wf p \<Longrightarrow>
    replay_loop fn (wal_records ps @ r) off m =
    replay_loop fn r (off + length (wal_records ps)) (replay_fold fn ps m)"
proof (induction ps arbitrary: off m)
  case (Cons p ps)
  then show ?case
    by (simp add: wal_records_def replay_loop_record [OF assms] replay_fold_def add.assoc)
qed (simp add: wal_records_def replay_fold_def)

text \<open>\<open>complete n ps\<close>: the records that lie entirely within the first \<open>n\<close> bytes.\<close>

fun complete :: "nat \<Rightarrow> bytes list \<Rightarrow> bytes list" where
  "complete n [] = []"
| "complete n (p # ps) =
     (if recordOverhead + length p \<le> n then p # complete (n - (recordOverhead + length p)) ps else [])"

lemma complete_all: "length (wal_records ps) \<le> n \<Longrightarrow> complete n ps = ps"
  by (induction ps arbitrary: n) (auto simp: wal_records_def)

lemma complete_prefix: "\<exists>k. complete n ps = take k ps"
proof (induction ps arbitrary: n)
  case (Cons p ps)
  then obtain k where "complete (n - (recordOverhead + length p)) ps = take k ps" by blast
  then show ?case
    by (cases "recordOverhead + length p \<le> n") (auto intro: exI [of _ "Suc k"] exI [of _ 0])
qed simp

lemma set_complete: "p \<in> set (complete n ps) \<Longrightarrow> p \<in> set ps"
  using complete_prefix [of n ps] by (auto dest: in_set_takeD)

lemma take_wal_records:
  obtains (whole) "take n (wal_records ps) = wal_records (complete n ps)"
  | (torn) p j where "p \<in> set ps" "j < length (enc_record p)"
      "j = n - length (wal_records (complete n ps))"
      "take n (wal_records ps) = wal_records (complete n ps) @ take j (enc_record p)"
proof -
  have "take n (wal_records ps) = wal_records (complete n ps) \<or>
    (\<exists>p \<in> set ps. \<exists>j. j = n - length (wal_records (complete n ps)) \<and> j < length (enc_record p) \<and>
      take n (wal_records ps) = wal_records (complete n ps) @ take j (enc_record p))"
  proof (induction ps arbitrary: n)
    case (Cons p ps)
    show ?case
    proof (cases "recordOverhead + length p \<le> n")
      case True
      with Cons [of "n - length (enc_record p)"] show ?thesis by (auto simp: wal_records_def)
    next
      case False
      then have "take n (wal_records (p # ps)) = take n (enc_record p)" and "complete n (p # ps) = []"
        and "n < length (enc_record p)"
        by (simp_all add: wal_records_def)
      then show ?thesis by (auto simp: wal_records_def)
    qed
  qed (simp add: wal_records_def)
  then show thesis using whole torn by blast
qed

definition torn_header :: "nat \<Rightarrow> bytes list \<Rightarrow> bool" where
  "torn_header n ps \<longleftrightarrow> n - length (wal_records (complete n ps)) < recordOverhead"

lemma wal_Replay_mkwal:
  "wal_Replay (mkwal d (wal_header @ x) b) fn m =
    (case replay_loop fn x headerSize m of
       (ReplayEOF, m') \<Rightarrow> ((Ok (), mkwal d (wal_header @ x) b), m')
     | (ReplayTorn off, m') \<Rightarrow> (truncateToOffset (mkwal d (wal_header @ x) b) off, m')
     | (ReplayPanic, m') \<Rightarrow> ((Panic, mkwal d (wal_header @ x) b), m'))"
  by (simp add: wal_Replay_def on_file_def f_SeekStart_def os_call_def mkwal_def mkfile_def Let_def
    split: prod.splits replay_end.splits)

lemma truncateToOffset_mkwal:
  "truncateToOffset (mkwal d (x @ y) b) (length x) = (Ok (), mkwal d x [])"
  by (simp add: truncateToOffset_def on_file_def f_Truncate_def f_SeekStart_def os_call_def
    mkwal_def mkfile_def bw_Reset_def)

lemma replay_loop_end:
  "replay_loop fn [] off m = (ReplayEOF, m)"
  "length r < recordOverhead \<Longrightarrow> replay_loop fn r off m = (ReplayEOF, m)"
  "read_frame r = FrameTorn \<Longrightarrow> replay_loop fn r off m = (ReplayTorn off, m)"
  by (simp_all add: replay_loop.simps [of fn] read_frame_def readFull_def recordOverhead_def)

lemma wal_Replay_file:
  assumes "no_panic fn" and "\<forall>p \<in> set ps. record_wf p"
  shows "wal_Replay (mkwal d (wal_file ps) b) fn m = ((Ok (), mkwal d (wal_file ps) b), replay_fold fn ps m)"
  using replay_loop_records [OF assms, of "[]" headerSize m]
  by (simp add: wal_file_def wal_Replay_mkwal replay_loop_end)

text \<open>A file cut after any number of bytes replays to its complete records.\<close>

lemma wal_Replay_cut:
  assumes np: "no_panic fn" and ps: "\<forall>p \<in> set ps. record_wf p"
  shows "wal_Replay (mkwal d (wal_header @ take n (wal_records ps)) []) fn m =
    ((Ok (), mkwal d (if torn_header n ps then wal_header @ take n (wal_records ps)
        else wal_file (complete n ps)) []),
     replay_fold fn (complete n ps) m)"
proof -
  let ?C = "complete n ps"
  have C: "\<forall>p \<in> set ?C. record_wf p" using ps set_complete by blast
  show ?thesis
  proof (cases rule: take_wal_records [of n ps])
    case whole
    then show ?thesis
      using wal_Replay_file [OF np C, of d "[]" m] by (simp add: wal_file_def)
  next
    case (torn p j)
    let ?t = "take j (enc_record p)"
    have frame: "read_frame ?t = (if j < recordOverhead then FrameEOF else FrameTorn)"
      using ps torn by (intro read_frame_torn) auto
    have len: "length ?t = j" using torn(2) by simp
    have th: "torn_header n ps \<longleftrightarrow> j < recordOverhead" using torn by (simp add: torn_header_def)
    have loop: "replay_loop fn (wal_records ?C @ ?t) headerSize m =
        replay_loop fn ?t (headerSize + length (wal_records ?C)) (replay_fold fn ?C m)"
      using replay_loop_records [OF np C] .
    show ?thesis
    proof (cases "j < recordOverhead")
      case True
      then show ?thesis
        using loop len th torn(4) by (simp add: wal_Replay_mkwal replay_loop_end)
    next
      case False
      then have "replay_loop fn ?t off m' = (ReplayTorn off, m')" for off m'
        using frame by (simp add: replay_loop_end)
      then show ?thesis
        using loop th False torn(4) truncateToOffset_mkwal [of d "wal_header @ wal_records ?C" ?t]
        by (simp add: wal_Replay_mkwal wal_file_def)
    qed
  qed
qed

section \<open>Properties\<close>

lemma replay_fold_valid:
  "\<forall>p \<in> set ps. json_Valid p \<Longrightarrow> replay_fold fn ps m = foldl (\<lambda>m p. snd (fn p m)) m ps"
  by (induction ps arbitrary: m) (simp_all add: replay_fold_def)

text \<open>C26: Documents appended to a new log and flushed are exactly what a replay after reopening
  hands to its callback, in order and in compact form; reopening and replaying leave the file as
  it is.\<close>

theorem wal_reopen_replays:
  assumes "f_data f = []" and "f_faults f = []" and js: "map json_Compact js = map Ok ps"
    and ps: "\<forall>p \<in> set ps. length p < 2 ^ 32" and np: "no_panic fn"
  shows "\<exists>w w1 w2. wal_Open dir False f = (Ok (), w) \<and> append_all w js = (Ok (), w1) \<and>
    wal_Flush w1 = (Ok (), w2) \<and> wal_Open dir False (wal_f w2) = (Ok (), w2) \<and>
    wal_Replay w2 fn m = ((Ok (), w2), foldl (\<lambda>m p. snd (fn p m)) m ps)"
proof -
  have "wal_at dir wal_header (mkwal dir wal_header [])" by simp
  then obtain w1 where w1: "append_all (mkwal dir wal_header []) js = (Ok (), w1)"
    "wal_at dir (wal_file ps) w1"
    using append_all_at [of dir wal_header "mkwal dir wal_header []" js ps] js
    unfolding wal_file_def by auto
  have "\<forall>p \<in> set ps. json_Valid p"
    using js json_Compact_Valid by (metis in_set_conv_nth length_map nth_map)
  then have "wal_Replay (mkwal dir (wal_file ps) []) fn m =
      ((Ok (), mkwal dir (wal_file ps) []), foldl (\<lambda>m p. snd (fn p m)) m ps)"
    using wal_Replay_file [OF np, of ps] ps by (simp add: record_wf_def replay_fold_valid)
  moreover have "wal_Open dir False (mkfile (wal_file ps)) = (Ok (), mkwal dir (wal_file ps) [])"
    using wal_Open_existing [of "mkfile (wal_file ps)"] by (simp add: wal_file_def)
  ultimately show ?thesis
    using wal_Open_fresh [OF assms(1,2)] w1(1) wal_Flush_at [OF w1(2)] by auto
qed

definition collect_docs :: "bytes \<Rightarrow> bytes list \<Rightarrow> unit result \<times> bytes list" where
  "collect_docs p m = (Ok (), m @ [p])"

lemma no_panic_collect: "no_panic collect_docs"
  by (simp add: no_panic_def collect_docs_def)

lemma compact_example: "json_Compact [0x7b, 0x20, 0x7d] = Ok [0x7b, 0x7d]"
  by code_simp

theorem wal_reopen_replays_witness:
  "\<exists>w w1 w2. wal_Open ''wal'' False (mkfile []) = (Ok (), w) \<and>
    append_all w [[0x7b, 0x20, 0x7d]] = (Ok (), w1) \<and>
    wal_Flush w1 = (Ok (), w2) \<and> wal_Open ''wal'' False (wal_f w2) = (Ok (), w2) \<and>
    wal_Replay w2 collect_docs [] = ((Ok (), w2), [[0x7b, 0x7d]])"
  using wal_reopen_replays [of "mkfile []" "[[0x7b, 0x20, 0x7d]]" "[[0x7b, 0x7d]]" collect_docs
      "''wal''" "[]"]
  by (simp add: compact_example no_panic_collect collect_docs_def)

text \<open>C12: A log file cut after any number of bytes past its header (a crash during a write)
  opens and replays without error, and the callback sees exactly the records that lie completely
  in the part that is left, in order. When the cut is inside a payload the partial record is also
  removed from the file.\<close>

theorem wal_crash_replays_complete:
  assumes "f_data f = wal_header @ take n (wal_records ps)" and "f_faults f = []"
    and ps: "\<forall>p \<in> set ps. length p < 2 ^ 32 \<and> json_Valid p" and np: "no_panic fn"
  shows "\<exists>w w'. wal_Open dir False f = (Ok (), w) \<and>
    wal_Replay w fn m = ((Ok (), w'), foldl (\<lambda>m p. snd (fn p m)) m (complete n ps)) \<and>
    f_data (wal_f w') = (if torn_header n ps then f_data f else wal_file (complete n ps))"
proof -
  have "\<forall>p \<in> set (complete n ps). json_Valid p" using ps set_complete by blast
  then show ?thesis
    using wal_Open_existing [OF assms(1,2)] wal_Replay_cut [OF np, of ps dir n m] ps assms(1)
    by (simp add: record_wf_def replay_fold_valid)
qed

theorem wal_crash_replays_complete_witness:
  "\<exists>w w'. wal_Open ''wal'' False
      (mkfile (wal_header @ take 19 (wal_records [[0x7b, 0x7d], [0x5b, 0x5d]]))) = (Ok (), w) \<and>
    wal_Replay w collect_docs [] = ((Ok (), w'), [[0x7b, 0x7d]]) \<and>
    f_data (wal_f w') = wal_file [[0x7b, 0x7d]]"
proof -
  have "json_Valid [0x7b, 0x7d]" "json_Valid [0x5b, 0x5d]" by code_simp+
  moreover have "complete 19 [[0x7b, 0x7d], [0x5b, 0x5d]] = [[0x7b, 0x7d :: u8]]"
    "\<not> torn_header 19 [[0x7b, 0x7d], [0x5b, 0x5d]]"
    by (simp_all add: recordOverhead_def torn_header_def wal_records_def)
  ultimately show ?thesis
    using wal_crash_replays_complete [of "mkfile (wal_header @
        take 19 (wal_records [[0x7b, 0x7d], [0x5b, 0x5d]]))" 19 "[[0x7b, 0x7d], [0x5b, 0x5d]]"
        collect_docs "''wal''" "[]"]
    by (simp add: no_panic_collect collect_docs_def)
qed

text \<open>C30: Truncating the log at an offset taken with \<open>Position\<close> removes exactly the records
  that were in the log then; every record appended since is kept.\<close>

theorem wal_truncate_prefix_keeps_tail:
  assumes w: "wal_at d (wal_file ps) w" and pos: "wal_Position w = (Ok off, w1)"
    and js: "map json_Compact js = map Ok qs" and app: "append_all w1 js = (Ok (), w2)"
  shows "\<exists>w3. wal_TruncatePrefix w2 off = (Ok (), w3) \<and> wal_at d (wal_file qs) w3"
proof -
  have off: "off = int (length (wal_file ps))" and w1: "w1 = mkwal d (wal_file ps) []"
    using wal_Position_at [OF w] pos by auto
  have "wal_at d (wal_file ps @ wal_records qs) w2"
    using append_all_at [of d "wal_file ps" w1 js qs] js app w1 by auto
  then show ?thesis
    using wal_TruncatePrefix_at [of d "wal_records ps" "wal_records qs" w2 off] off
    by (simp add: wal_file_def)
qed

theorem wal_truncate_prefix_keeps_tail_witness:
  "\<exists>w2 w3. append_all (mkwal ''wal'' (wal_file [[0x5b, 0x5d]]) []) [[0x7b, 0x20, 0x7d]] = (Ok (), w2) \<and>
    wal_TruncatePrefix w2 18 = (Ok (), w3) \<and> wal_at ''wal'' (wal_file [[0x7b, 0x7d]]) w3"
proof -
  let ?w = "mkwal ''wal'' (wal_file [[0x5b, 0x5d]]) []"
  have at: "wal_at ''wal'' (wal_file [[0x5b, 0x5d]]) ?w" by simp
  obtain w2 where w2: "append_all ?w [[0x7b, 0x20, 0x7d]] = (Ok (), w2)"
    using append_all_at [OF at, of "[[0x7b, 0x20, 0x7d]]" "[[0x7b, 0x7d]]"] compact_example by auto
  have "wal_Position ?w = (Ok 18, ?w)"
    using wal_Position_at [OF at]
    by (simp add: wal_file_def headerSize_def wal_records_def recordOverhead_def)
  from wal_truncate_prefix_keeps_tail [OF at this, of "[[0x7b, 0x20, 0x7d]]" "[[0x7b, 0x7d]]"]
  show ?thesis using w2 compact_example by simp
qed




text \<open>C36: \<open>TruncatePrefix\<close> is not atomic: when the operating system refuses the seek after the
  file was emptied, the call fails and the records it had to keep are gone from the file.\<close>

theorem wal_truncate_prefix_fault_loses_tail:
  assumes "ps \<noteq> []" and "qs \<noteq> []"
  shows "wal_TruncatePrefix (new_WAL d \<lparr>f_data = wal_file (ps @ qs), f_pos = 0,
      f_faults = [False, False, True]\<rparr>) (int (length (wal_file ps))) =
    (Err (ErrMsg ''seek''), new_WAL d \<lparr>f_data = [], f_pos = 0, f_faults = []\<rparr>)"
proof -
  have "wal_records ps \<noteq> []" "wal_records qs \<noteq> []" using assms by (simp_all add: wal_records_ne)
  moreover have "wal_file (ps @ qs) = wal_header @ wal_records ps @ wal_records qs"
    "wal_file ps = wal_header @ wal_records ps"
    by (simp_all add: wal_file_def wal_records_def)
  ultimately show ?thesis
    by (simp add: wal_TruncatePrefix_def new_WAL_def bw_Flush_def on_file_def f_Size_def f_ReadAt_def
      f_Truncate_def f_SeekStart_def os_call_def Let_def)
qed

theorem wal_truncate_prefix_fault_loses_tail_witness:
  "wal_TruncatePrefix (new_WAL ''wal'' \<lparr>f_data = wal_file ([[0x31]] @ [[0x32]]), f_pos = 0,
      f_faults = [False, False, True]\<rparr>) (int (length (wal_file [[0x31]]))) =
    (Err (ErrMsg ''seek''), new_WAL ''wal'' \<lparr>f_data = [], f_pos = 0, f_faults = []\<rparr>)"
  by (rule wal_truncate_prefix_fault_loses_tail) simp_all

end
