(* ===== verification/Cache.thy ===== *)
theory Cache
  imports Prelude
begin

text \<open>
  The hotcache LRU (\<open>src/pkg/cache/hotcache.go\<close>). As in the code, a map from keys to list
  elements and a doubly linked list (\<open>container/list\<close>) share the elements: an element is a number
  here and \<open>lru_elems\<close> is the heap of \<open>HotcacheEntry\<close> values, so that the update through
  \<open>el.Value\<close> is a heap update. The mutex makes every operation one step; the metrics are left
  out. Result: any sequence of operations behaves like a bounded list of key-value pairs with the
  most recently used in front, which the locale \<open>lru_cache\<close> states as an interface.
\<close>

section \<open>The implementation\<close>

record 'v HotcacheEntry =
  he_Key :: string
  he_HC :: 'v

record 'v HotcacheLRU =
  lru_capacity :: int
  lru_items :: "string \<rightharpoonup> nat"
  lru_order :: "nat list"
  lru_elems :: "nat \<Rightarrow> 'v HotcacheEntry"
  lru_next :: nat

definition NewHotcacheLRU :: "int \<Rightarrow> 'v HotcacheLRU" where
  "NewHotcacheLRU capacity =
     \<lparr>lru_capacity = (if capacity \<le> 0 then 128 else capacity), lru_items = Map.empty, lru_order = [],
      lru_elems = (\<lambda>_. \<lparr>he_Key = '''', he_HC = undefined\<rparr>), lru_next = 0\<rparr>"

definition MoveToFront :: "nat \<Rightarrow> nat list \<Rightarrow> nat list" where
  "MoveToFront el order = el # remove1 el order"

definition lru_Get :: "'v HotcacheLRU \<Rightarrow> string \<Rightarrow> 'v option \<times> 'v HotcacheLRU" where
  "lru_Get h key =
     (case lru_items h key of
        None \<Rightarrow> (None, h)
      | Some el \<Rightarrow> (Some (he_HC (lru_elems h el)), h\<lparr>lru_order := MoveToFront el (lru_order h)\<rparr>))"

function lru_evict :: "'v HotcacheLRU \<Rightarrow> 'v HotcacheLRU" where
  "lru_evict h =
     (if lru_capacity h < int (length (lru_order h)) \<and> lru_order h \<noteq> []
      then let bk = last (lru_order h) in
        lru_evict (h\<lparr>lru_order := butlast (lru_order h),
          lru_items := (lru_items h)(he_Key (lru_elems h bk) := None)\<rparr>)
      else h)"
  by pat_completeness auto
termination
  by (relation "measure (\<lambda>h. length (lru_order h))") auto

declare lru_evict.simps [simp del]

definition lru_Put :: "'v HotcacheLRU \<Rightarrow> string \<Rightarrow> 'v \<Rightarrow> 'v HotcacheLRU" where
  "lru_Put h key hc =
     (case lru_items h key of
        Some el \<Rightarrow>
          h\<lparr>lru_order := MoveToFront el (lru_order h),
            lru_elems := (lru_elems h)(el := (lru_elems h el)\<lparr>he_HC := hc\<rparr>)\<rparr>
      | None \<Rightarrow>
          (let el = lru_next h in
           lru_evict (h\<lparr>lru_elems := (lru_elems h)(el := \<lparr>he_Key = key, he_HC = hc\<rparr>),
             lru_next := el + 1, lru_order := el # lru_order h,
             lru_items := (lru_items h)(key \<mapsto> el)\<rparr>)))"

section \<open>The interface\<close>

text \<open>
  \<open>lru_touch\<close> moves a pair to the front, \<open>lru_insert\<close> puts a new pair there and keeps the first
  \<open>cap\<close> pairs.
\<close>

definition lru_touch :: "string \<Rightarrow> (string \<times> 'v) list \<Rightarrow> (string \<times> 'v) list" where
  "lru_touch k xs =
     (case map_of xs k of None \<Rightarrow> xs | Some v \<Rightarrow> (k, v) # filter (\<lambda>(k', _). k' \<noteq> k) xs)"

definition lru_insert :: "nat \<Rightarrow> string \<Rightarrow> 'v \<Rightarrow> (string \<times> 'v) list \<Rightarrow> (string \<times> 'v) list" where
  "lru_insert cap k v xs = take cap ((k, v) # filter (\<lambda>(k', _). k' \<noteq> k) xs)"

locale lru_cache =
  fixes get :: "'c \<Rightarrow> string \<Rightarrow> 'v option \<times> 'c"
    and put :: "'c \<Rightarrow> string \<Rightarrow> 'v \<Rightarrow> 'c"
    and pairs :: "'c \<Rightarrow> (string \<times> 'v) list"
    and cap :: "'c \<Rightarrow> nat"
    and inv :: "'c \<Rightarrow> bool"
  assumes get_result: "inv c \<Longrightarrow> fst (get c k) = map_of (pairs c) k"
    and get_pairs: "inv c \<Longrightarrow> pairs (snd (get c k)) = lru_touch k (pairs c)"
    and get_inv: "inv c \<Longrightarrow> inv (snd (get c k)) \<and> cap (snd (get c k)) = cap c"
    and put_pairs: "inv c \<Longrightarrow> pairs (put c k v) = lru_insert (cap c) k v (pairs c)"
    and put_inv: "inv c \<Longrightarrow> inv (put c k v) \<and> cap (put c k v) = cap c"
    and cap_pos: "inv c \<Longrightarrow> 0 < cap c"
    and bounded: "inv c \<Longrightarrow> length (pairs c) \<le> cap c \<and> distinct (map fst (pairs c))"
begin

lemma get_after_put: "inv c \<Longrightarrow> fst (get (put c k v) k) = Some v"
  using get_result [of "put c k v" k] put_inv [of c k v] put_pairs [of c k v] cap_pos [of c]
  by (cases "cap c") (simp_all add: lru_insert_def)

text \<open>A property of all cached pairs is kept, and what a hit returns has it.\<close>

lemma put_all: "inv c \<Longrightarrow> (\<forall>(k, v) \<in> set (pairs c). P k v) \<Longrightarrow> P k v \<Longrightarrow>
    \<forall>(k, v) \<in> set (pairs (put c k v)). P k v"
proof -
  assume c: "inv c" "\<forall>(k, v) \<in> set (pairs c). P k v" "P k v"
  have "set (pairs (put c k v)) \<subseteq> insert (k, v) (set (pairs c))"
    using put_pairs [OF c(1), of k v]
      set_take_subset [of "cap c" "(k, v) # filter (\<lambda>(k', _). k' \<noteq> k) (pairs c)"]
    by (auto simp: lru_insert_def)
  then show ?thesis using c by blast
qed

lemma get_all: "inv c \<Longrightarrow> (\<forall>(k, v) \<in> set (pairs c). P k v) \<Longrightarrow>
    (\<forall>(k, v) \<in> set (pairs (snd (get c k'))). P k v) \<and> (\<forall>v. fst (get c k') = Some v \<longrightarrow> P k' v)"
  using get_pairs [of c k'] get_result [of c k']
  by (auto simp: lru_touch_def dest: map_of_SomeD split: option.splits)

end

section \<open>The implementation has the interface\<close>

definition lru_pairs :: "'v HotcacheLRU \<Rightarrow> (string \<times> 'v) list" where
  "lru_pairs h = map (\<lambda>e. (he_Key (lru_elems h e), he_HC (lru_elems h e))) (lru_order h)"

definition lru_keyed :: "'v HotcacheLRU \<Rightarrow> bool" where
  "lru_keyed h \<longleftrightarrow> distinct (map (\<lambda>e. he_Key (lru_elems h e)) (lru_order h)) \<and>
     (\<forall>e \<in> set (lru_order h). e < lru_next h) \<and>
     (\<forall>k e. lru_items h k = Some e \<longleftrightarrow> e \<in> set (lru_order h) \<and> he_Key (lru_elems h e) = k)"

definition lru_inv :: "'v HotcacheLRU \<Rightarrow> bool" where
  "lru_inv h \<longleftrightarrow> lru_keyed h \<and> 0 < lru_capacity h \<and> int (length (lru_order h)) \<le> lru_capacity h"

lemma lru_inv_New: "lru_inv (NewHotcacheLRU c)"
  by (simp add: lru_inv_def lru_keyed_def NewHotcacheLRU_def)

lemma lru_keyed_cong:
  "lru_keyed h \<Longrightarrow> lru_order h' = lru_order h \<Longrightarrow> lru_items h' = lru_items h \<Longrightarrow> lru_next h' = lru_next h \<Longrightarrow>
    (\<And>e. he_Key (lru_elems h' e) = he_Key (lru_elems h e)) \<Longrightarrow> lru_keyed h'"
  by (simp add: lru_keyed_def)

lemma lru_lookup:
  assumes "lru_keyed h"
  shows "map_of (lru_pairs h) k = map_option (\<lambda>e. he_HC (lru_elems h e)) (lru_items h k)"
proof (cases "lru_items h k")
  case None
  then have "\<forall>e \<in> set (lru_order h). he_Key (lru_elems h e) \<noteq> k"
    using assms unfolding lru_keyed_def by (metis option.distinct(1))
  then show ?thesis using None by (auto simp: lru_pairs_def map_of_eq_None_iff)
next
  case (Some e)
  then have e: "e \<in> set (lru_order h)" "he_Key (lru_elems h e) = k"
    using assms by (auto simp: lru_keyed_def)
  have "distinct (map fst (lru_pairs h))" using assms by (simp add: lru_keyed_def lru_pairs_def comp_def)
  moreover have "(k, he_HC (lru_elems h e)) \<in> set (lru_pairs h)" using e by (auto simp: lru_pairs_def)
  ultimately show ?thesis using Some by simp
qed

lemma filter_pairs_remove1:
  assumes "distinct (map key order)" and "e \<in> set order"
  shows "filter (\<lambda>(k, _). k \<noteq> key e) (map (\<lambda>e. (key e, val e)) order) =
    map (\<lambda>e. (key e, val e)) (remove1 e order)"
  using assms
proof (induction order)
  case (Cons x xs)
  show ?case
  proof (cases "x = e")
    case True
    then have "\<forall>y \<in> set xs. key y \<noteq> key e" using Cons.prems by (metis imageI distinct.simps(2) list.set_map list.simps(9))
    then show ?thesis using True by (simp add: filter_id_conv)
  next
    case False
    then have e: "e \<in> set xs" using Cons.prems by simp
    then have "key x \<noteq> key e" using Cons.prems(1) by auto
    then show ?thesis using Cons e False by simp
  qed
qed simp

lemma keyed_move:
  assumes "lru_keyed h" and "e \<in> set (lru_order h)"
  shows "lru_keyed (h\<lparr>lru_order := MoveToFront e (lru_order h)\<rparr>)"
proof -
  have "distinct (lru_order h)" using assms by (simp add: lru_keyed_def distinct_map)
  then have "set (MoveToFront e (lru_order h)) = set (lru_order h)"
    and "distinct (MoveToFront e (lru_order h))"
    using assms(2) by (auto simp: MoveToFront_def)
  then show ?thesis using assms by (simp add: lru_keyed_def distinct_map)
qed

lemma length_move: "e \<in> set order \<Longrightarrow> length (MoveToFront e order) = length order"
  using length_pos_if_in_set [of e order] by (simp add: MoveToFront_def length_remove1)

lemma lru_pairs_remove:
  assumes "lru_keyed h" and "e \<in> set (lru_order h)" and "he_Key (lru_elems h e) = k"
  shows "filter (\<lambda>(k', _). k' \<noteq> k) (lru_pairs h) =
    map (\<lambda>e. (he_Key (lru_elems h e), he_HC (lru_elems h e))) (remove1 e (lru_order h))"
  using filter_pairs_remove1 [of "\<lambda>e. he_Key (lru_elems h e)" "lru_order h" e] assms
  by (simp add: lru_pairs_def lru_keyed_def)

lemma lru_Get_hit:
  assumes "lru_inv h" and "lru_items h k = Some e"
  shows "lru_pairs (snd (lru_Get h k)) = lru_touch k (lru_pairs h) \<and> lru_inv (snd (lru_Get h k))"
proof -
  have e: "e \<in> set (lru_order h)" "he_Key (lru_elems h e) = k" and keyed: "lru_keyed h"
    using assms by (auto simp: lru_inv_def lru_keyed_def)
  have "map_of (lru_pairs h) k = Some (he_HC (lru_elems h e))"
    using lru_lookup [OF keyed] assms(2) by simp
  moreover note lru_pairs_remove [OF keyed e]
  ultimately show ?thesis
    using assms e keyed keyed_move [OF keyed e(1)] length_move [OF e(1)]
    by (simp add: lru_Get_def lru_touch_def lru_pairs_def MoveToFront_def lru_inv_def)
qed

lemma lru_evict_idle: "int (length (lru_order h)) \<le> lru_capacity h \<Longrightarrow> lru_evict h = h"
  by (subst lru_evict.simps) simp

text \<open>One pair over capacity: the loop removes the last one.\<close>

lemma lru_evict_one:
  assumes "lru_keyed h" and "int (length (lru_order h)) = lru_capacity h + 1" and "0 < lru_capacity h"
  shows "lru_pairs (lru_evict h) = take (nat (lru_capacity h)) (lru_pairs h) \<and> lru_inv (lru_evict h) \<and>
    lru_capacity (lru_evict h) = lru_capacity h"
proof -
  let ?bk = "last (lru_order h)"
  let ?h = "h\<lparr>lru_order := butlast (lru_order h),
    lru_items := (lru_items h)(he_Key (lru_elems h ?bk) := None)\<rparr>"
  have ne: "lru_order h \<noteq> []" using assms by auto
  have len: "length (lru_order h) = Suc (nat (lru_capacity h))" using assms by linarith
  have "lru_evict h = ?h"
    using assms ne lru_evict_idle [of ?h] by (subst lru_evict.simps) (simp add: Let_def len)
  moreover have "butlast (lru_order h) = take (nat (lru_capacity h)) (lru_order h)"
    by (simp add: butlast_conv_take len)
  then have "lru_pairs ?h = take (nat (lru_capacity h)) (lru_pairs h)"
    by (simp add: lru_pairs_def take_map)
  moreover have "lru_order h = butlast (lru_order h) @ [?bk]" using ne by simp
  then have "distinct (map (\<lambda>e. he_Key (lru_elems h e)) (butlast (lru_order h) @ [?bk]))"
    and set: "set (lru_order h) = insert ?bk (set (butlast (lru_order h)))"
    using assms(1) unfolding lru_keyed_def by (metis, metis Un_insert_right list.simps(15) set_append sup_bot_right list.set(1))
  then have "\<forall>e \<in> set (butlast (lru_order h)). he_Key (lru_elems h e) \<noteq> he_Key (lru_elems h ?bk)"
    and "distinct (map (\<lambda>e. he_Key (lru_elems h e)) (butlast (lru_order h)))"
    by (simp_all add: image_iff) (metis)
  then have "lru_keyed ?h"
    using assms(1) unfolding lru_keyed_def by (auto simp: set)
  ultimately show ?thesis using assms len by (simp add: lru_inv_def)
qed

lemma lru_Put_hit:
  assumes "lru_inv h" and "lru_items h k = Some e"
  shows "lru_pairs (lru_Put h k v) = lru_insert (nat (lru_capacity h)) k v (lru_pairs h) \<and>
    lru_inv (lru_Put h k v) \<and> lru_capacity (lru_Put h k v) = lru_capacity h"
proof -
  have e: "e \<in> set (lru_order h)" "he_Key (lru_elems h e) = k" and keyed: "lru_keyed h"
    using assms by (auto simp: lru_inv_def lru_keyed_def)
  let ?elems = "(lru_elems h)(e := (lru_elems h e)\<lparr>he_HC := v\<rparr>)"
  let ?h = "h\<lparr>lru_order := MoveToFront e (lru_order h)\<rparr>"
  have "e \<notin> set (remove1 e (lru_order h))" using keyed by (simp add: lru_keyed_def distinct_map)
  then have "map (\<lambda>e. (he_Key (?elems e), he_HC (?elems e))) (remove1 e (lru_order h)) =
      map (\<lambda>e. (he_Key (lru_elems h e), he_HC (lru_elems h e))) (remove1 e (lru_order h))"
    by auto
  also have "\<dots> = filter (\<lambda>(k', _). k' \<noteq> k) (lru_pairs h)"
    using lru_pairs_remove [OF keyed e] by (rule sym)
  finally have "lru_pairs (lru_Put h k v) = (k, v) # filter (\<lambda>(k', _). k' \<noteq> k) (lru_pairs h)"
    using assms e by (simp add: lru_Put_def lru_pairs_def MoveToFront_def)
  moreover have "length (lru_pairs (lru_Put h k v)) \<le> nat (lru_capacity h)"
    using assms length_move [OF e(1)] by (auto simp: lru_Put_def lru_pairs_def lru_inv_def)
  moreover have "lru_keyed (?h\<lparr>lru_elems := ?elems\<rparr>)"
    using keyed_move [OF keyed e(1)] by (rule lru_keyed_cong) simp_all
  moreover have "lru_Put h k v = ?h\<lparr>lru_elems := ?elems\<rparr>" using assms by (simp add: lru_Put_def)
  ultimately show ?thesis
    using assms(1) length_move [OF e(1)] by (simp add: lru_insert_def lru_inv_def)
qed

lemma lru_Put_miss:
  assumes "lru_inv h" and "lru_items h k = None"
  shows "lru_pairs (lru_Put h k v) = lru_insert (nat (lru_capacity h)) k v (lru_pairs h) \<and>
    lru_inv (lru_Put h k v) \<and> lru_capacity (lru_Put h k v) = lru_capacity h"
proof -
  let ?el = "lru_next h"
  define h' where "h' = h\<lparr>lru_elems := (lru_elems h)(?el := \<lparr>he_Key = k, he_HC = v\<rparr>), lru_next := ?el + 1,
    lru_order := ?el # lru_order h, lru_items := (lru_items h)(k \<mapsto> ?el)\<rparr>"
  have h' [simp]: "lru_elems h' = (lru_elems h)(?el := \<lparr>he_Key = k, he_HC = v\<rparr>)"
    "lru_order h' = ?el # lru_order h" "lru_items h' = (lru_items h)(k \<mapsto> ?el)" "lru_next h' = ?el + 1"
    "lru_capacity h' = lru_capacity h"
    by (simp_all add: h'_def)
  have keyed: "lru_keyed h" using assms by (simp add: lru_inv_def)
  have fresh: "?el \<notin> set (lru_order h)" using keyed by (auto simp: lru_keyed_def)
  have absent: "\<forall>e \<in> set (lru_order h). he_Key (lru_elems h e) \<noteq> k"
    using keyed assms(2) unfolding lru_keyed_def by (metis option.distinct(1))
  have "he_Key (lru_elems h' e) = he_Key (lru_elems h e)" if "e \<in> set (lru_order h)" for e
    using that fresh by auto
  then have "map (\<lambda>e. he_Key (lru_elems h' e)) (lru_order h) = map (\<lambda>e. he_Key (lru_elems h e)) (lru_order h)"
    by (rule map_cong [OF refl])
  moreover have "k \<notin> (\<lambda>e. he_Key (lru_elems h e)) ` set (lru_order h)" using absent by blast
  moreover have "map (\<lambda>e. he_Key (lru_elems h' e)) (lru_order h') =
      k # map (\<lambda>e. he_Key (lru_elems h' e)) (lru_order h)" by simp
  ultimately have "distinct (map (\<lambda>e. he_Key (lru_elems h' e)) (lru_order h'))"
    using keyed by (simp only: lru_keyed_def distinct.simps set_map simp_thms)
  moreover have "lru_items h' k' = Some e \<longleftrightarrow> e \<in> set (lru_order h') \<and> he_Key (lru_elems h' e) = k'" for k' e
    using keyed absent fresh unfolding lru_keyed_def by auto
  moreover have "\<forall>e \<in> set (lru_order h'). e < lru_next h'" using keyed by (auto simp: lru_keyed_def less_Suc_eq)
  ultimately have keyed': "lru_keyed h'" unfolding lru_keyed_def by blast
  have pairs: "lru_pairs h' = (k, v) # lru_pairs h"
    using fresh by (auto simp: lru_pairs_def)
  have filter: "filter (\<lambda>(k', _). k' \<noteq> k) (lru_pairs h) = lru_pairs h"
    using absent by (auto simp: lru_pairs_def filter_id_conv)
  have put: "lru_Put h k v = lru_evict h'" using assms(2) by (simp add: lru_Put_def Let_def h'_def)
  have cap: "0 < lru_capacity h" "int (length (lru_order h)) \<le> lru_capacity h"
    using assms(1) by (auto simp: lru_inv_def)
  show ?thesis
  proof (cases "int (length (lru_order h)) = lru_capacity h")
    case True
    then show ?thesis
      using lru_evict_one [OF keyed'] cap by (simp add: put pairs filter lru_insert_def)
  next
    case False
    then have room: "int (length (lru_order h)) + 1 \<le> lru_capacity h" using cap by linarith
    then have "lru_evict h' = h'" by (intro lru_evict_idle) simp
    moreover have "length (lru_pairs h') \<le> nat (lru_capacity h)"
      using room by (simp add: pairs) (simp add: lru_pairs_def)
    ultimately show ?thesis
      using keyed' cap room by (simp add: put pairs filter lru_insert_def lru_inv_def)
  qed
qed

interpretation hotcache_lru: lru_cache lru_Get lru_Put lru_pairs "\<lambda>h. nat (lru_capacity h)" lru_inv
proof unfold_locales
  fix c :: "'v HotcacheLRU" and k :: string and v :: 'v
  assume inv: "lru_inv c"
  then have keyed: "lru_keyed c" by (simp add: lru_inv_def)
  show "fst (lru_Get c k) = map_of (lru_pairs c) k"
    using lru_lookup [OF keyed] by (simp add: lru_Get_def split: option.splits)
  show "lru_pairs (snd (lru_Get c k)) = lru_touch k (lru_pairs c)"
    using lru_Get_hit [OF inv] lru_lookup [OF keyed, of k]
    by (cases "lru_items c k") (simp_all add: lru_Get_def lru_touch_def)
  show "lru_inv (snd (lru_Get c k)) \<and> nat (lru_capacity (snd (lru_Get c k))) = nat (lru_capacity c)"
    using lru_Get_hit [OF inv] inv by (cases "lru_items c k") (simp_all add: lru_Get_def)
  show "lru_pairs (lru_Put c k v) = lru_insert (nat (lru_capacity c)) k v (lru_pairs c)"
    using lru_Put_hit [OF inv] lru_Put_miss [OF inv] by (cases "lru_items c k") simp_all
  show "lru_inv (lru_Put c k v) \<and> nat (lru_capacity (lru_Put c k v)) = nat (lru_capacity c)"
    using lru_Put_hit [OF inv] lru_Put_miss [OF inv] by (cases "lru_items c k") simp_all
  show "0 < nat (lru_capacity c)" using inv by (simp add: lru_inv_def)
  show "length (lru_pairs c) \<le> nat (lru_capacity c) \<and> distinct (map fst (lru_pairs c))"
    using inv by (auto simp: lru_inv_def lru_keyed_def lru_pairs_def comp_def)
qed

section \<open>Properties\<close>

datatype 'v lru_op = OpGet string | OpPut string 'v

fun lru_run :: "'v lru_op list \<Rightarrow> 'v HotcacheLRU \<Rightarrow> 'v option list \<times> 'v HotcacheLRU" where
  "lru_run [] h = ([], h)"
| "lru_run (OpGet k # ops) h =
     (case lru_Get h k of (r, h1) \<Rightarrow> case lru_run ops h1 of (rs, h2) \<Rightarrow> (r # rs, h2))"
| "lru_run (OpPut k v # ops) h = lru_run ops (lru_Put h k v)"

text \<open>The specification: a list of at most \<open>cap\<close> pairs.\<close>

fun lru_spec :: "nat \<Rightarrow> 'v lru_op list \<Rightarrow> (string \<times> 'v) list \<Rightarrow> 'v option list \<times> (string \<times> 'v) list" where
  "lru_spec cap [] xs = ([], xs)"
| "lru_spec cap (OpGet k # ops) xs =
     (case lru_spec cap ops (lru_touch k xs) of (rs, ys) \<Rightarrow> (map_of xs k # rs, ys))"
| "lru_spec cap (OpPut k v # ops) xs = lru_spec cap ops (lru_insert cap k v xs)"

lemma lru_run_spec:
  "lru_inv h \<Longrightarrow> lru_run ops h = (rs, h') \<Longrightarrow>
    lru_spec (nat (lru_capacity h)) ops (lru_pairs h) = (rs, lru_pairs h') \<and> lru_inv h'"
proof (induction ops h arbitrary: rs rule: lru_run.induct)
  case (2 k ops h)
  obtain r h1 where g: "lru_Get h k = (r, h1)" by fastforce
  obtain rs1 h2 where r: "lru_run ops h1 = (rs1, h2)" by fastforce
  have h1: "lru_inv h1" "nat (lru_capacity h1) = nat (lru_capacity h)" "lru_pairs h1 = lru_touch k (lru_pairs h)"
    "r = map_of (lru_pairs h) k"
    using hotcache_lru.get_inv [OF 2(2), of k] hotcache_lru.get_pairs [OF 2(2), of k]
      hotcache_lru.get_result [OF 2(2), of k] g by auto
  have "rs = r # rs1" "h' = h2" using 2(3) g r by auto
  then show ?case using 2(1) [OF g [symmetric] h1(1)] r h1 by auto
next
  case (3 k v ops h)
  have "lru_inv (lru_Put h k v)" "nat (lru_capacity (lru_Put h k v)) = nat (lru_capacity h)"
    "lru_pairs (lru_Put h k v) = lru_insert (nat (lru_capacity h)) k v (lru_pairs h)"
    using hotcache_lru.put_inv [OF 3(2)] hotcache_lru.put_pairs [OF 3(2)] by auto
  then show ?case using 3(1) [of rs] 3(3) by simp
qed simp

text \<open>C19: Every sequence of \<open>Get\<close> and \<open>Put\<close> on a new cache returns the results, and leaves the
  contents in the order of use, of a list that keeps at most \<open>capacity\<close> pairs (128 when the given
  capacity is not positive) with the most recently used in front: a hit returns the value last put
  for the key, and only the least recently used pairs are evicted.\<close>

theorem lru_refines_bounded_list:
  "map_prod id lru_pairs (lru_run ops (NewHotcacheLRU capacity)) =
     lru_spec (if capacity \<le> 0 then 128 else nat capacity) ops [] \<and>
   length (lru_pairs (snd (lru_run ops (NewHotcacheLRU capacity :: 'v HotcacheLRU)))) \<le>
     (if capacity \<le> 0 then 128 else nat capacity)"
proof -
  let ?h = "NewHotcacheLRU capacity :: 'v HotcacheLRU"
  obtain rs h' where run: "lru_run ops ?h = (rs, h')" by fastforce
  have cap: "nat (lru_capacity ?h) = (if capacity \<le> 0 then 128 else nat capacity)"
    and pairs: "lru_pairs ?h = []"
    by (simp_all add: NewHotcacheLRU_def lru_pairs_def)
  have spec: "lru_spec (nat (lru_capacity ?h)) ops [] = (rs, lru_pairs h')"
    using lru_run_spec [OF lru_inv_New run] pairs by simp
  have "length xs \<le> c \<Longrightarrow> length (snd (lru_spec c ops xs)) \<le> c" for c and xs :: "(string \<times> 'v) list"
  proof (induction c ops xs rule: lru_spec.induct)
    case (2 c k ops xs)
    have "length (lru_touch k xs) \<le> length xs"
    proof (cases "map_of xs k")
      case (Some v)
      then have "(k, v) \<in> set xs" by (rule map_of_SomeD)
      then have "length (filter (\<lambda>(k', _). k' \<noteq> k) xs) < length xs"
        by (intro length_filter_less) auto
      then show ?thesis using Some by (simp add: lru_touch_def)
    qed (simp add: lru_touch_def)
    then show ?case using 2 by (auto split: prod.split)
  qed (simp_all add: lru_insert_def)
  from this [of "[]" "nat (lru_capacity ?h)"] have "length (lru_pairs h') \<le> nat (lru_capacity ?h)"
    using spec by simp
  then show ?thesis using run spec cap by simp
qed

end
