(* ===== verification/Schema.thy ===== *)
theory Schema
  imports Prelude
begin

text \<open>
  Index schemas (\<open>src/pkg/schema/schema.go\<close>). The JSON encoding of a schema, done by Go's
  reflection, is the parameter \<open>S\<close>. Result: \<open>Validate\<close> accepts exactly the schemas with
  different field names, known types and an ID field that is empty or one of the fields, and
  \<open>Parse\<close> returns only such schemas.
\<close>

type_synonym FieldType = string

definition FieldTypeText :: FieldType where "FieldTypeText = ''text''"
definition FieldTypeKeyword :: FieldType where "FieldTypeKeyword = ''keyword''"
definition FieldTypeI64 :: FieldType where "FieldTypeI64 = ''i64''"

lemma field_types_distinct [simp]:
  "FieldTypeText \<noteq> FieldTypeKeyword" "FieldTypeKeyword \<noteq> FieldTypeText"
  "FieldTypeText \<noteq> FieldTypeI64" "FieldTypeI64 \<noteq> FieldTypeText"
  "FieldTypeKeyword \<noteq> FieldTypeI64" "FieldTypeI64 \<noteq> FieldTypeKeyword"
  by (simp_all add: FieldTypeText_def FieldTypeKeyword_def FieldTypeI64_def)

record Field =
  fd_Name :: string
  fd_Type :: FieldType
  fd_Store :: bool

record Schema =
  sc_Fields :: "Field list"
  sc_IDField :: string

fun validate_fields :: "string set \<Rightarrow> Field list \<Rightarrow> string set result" where
  "validate_fields seen [] = Ok seen"
| "validate_fields seen (f # fs) =
     (if fd_Name f \<in> seen then Err (ErrMsg ''duplicate field'')
      else if fd_Type f \<in> {FieldTypeText, FieldTypeKeyword, FieldTypeI64}
      then validate_fields (insert (fd_Name f) seen) fs
      else Err (ErrMsg ''unknown type''))"

definition sc_Validate :: "Schema \<Rightarrow> unit result" where
  "sc_Validate s =
     res_bind (validate_fields {} (sc_Fields s)) (\<lambda>seen.
     if sc_IDField s \<noteq> '''' \<and> sc_IDField s \<notin> seen then Err (ErrMsg ''id_field not in fields'') else Ok ())"

definition sc_Field :: "Schema \<Rightarrow> string \<Rightarrow> Field option" where
  "sc_Field s name = find (\<lambda>f. fd_Name f = name) (sc_Fields s)"

definition TextFields :: "Schema \<Rightarrow> string list" where
  "TextFields s = map fd_Name (filter (\<lambda>f. fd_Type f = FieldTypeText) (sc_Fields s))"

record schema_json =
  sj_Unmarshal :: "bytes \<Rightarrow> Schema result"
  sj_MarshalIndent :: "Schema \<Rightarrow> bytes result"

definition sc_Parse :: "schema_json \<Rightarrow> bytes \<Rightarrow> Schema result" where
  "sc_Parse S data =
     res_bind (sj_Unmarshal S data) (\<lambda>s. res_bind (sc_Validate s) (\<lambda>_. Ok s))"

definition sc_Marshal :: "schema_json \<Rightarrow> Schema \<Rightarrow> bytes result" where
  "sc_Marshal S s = sj_MarshalIndent S s"

section \<open>Validation\<close>

definition schema_ok :: "Schema \<Rightarrow> bool" where
  "schema_ok s \<longleftrightarrow> distinct (map fd_Name (sc_Fields s)) \<and>
     (\<forall>f \<in> set (sc_Fields s). fd_Type f \<in> {FieldTypeText, FieldTypeKeyword, FieldTypeI64}) \<and>
     (sc_IDField s = '''' \<or> sc_IDField s \<in> fd_Name ` set (sc_Fields s))"

lemma validate_fields_Ok:
  "validate_fields seen fs = Ok seen' \<longleftrightarrow>
     distinct (map fd_Name fs) \<and> seen \<inter> fd_Name ` set fs = {} \<and>
     (\<forall>f \<in> set fs. fd_Type f \<in> {FieldTypeText, FieldTypeKeyword, FieldTypeI64}) \<and>
     seen' = seen \<union> fd_Name ` set fs"
  by (induction fs arbitrary: seen) auto

lemma validate_fields_no_panic: "validate_fields seen fs \<noteq> Panic"
  by (induction fs arbitrary: seen) auto

lemma sc_Validate_ok: "sc_Validate s = Ok () \<longleftrightarrow> schema_ok s"
  by (auto simp: sc_Validate_def res_bind_eq_Ok validate_fields_Ok schema_ok_def)

lemma find_by_name:
  "distinct (map fd_Name fs) \<Longrightarrow> f \<in> set fs \<Longrightarrow> find (\<lambda>g. fd_Name g = fd_Name f) fs = Some f"
  by (induction fs) auto

lemma sc_Field_ok: "schema_ok s \<Longrightarrow> f \<in> set (sc_Fields s) \<Longrightarrow> sc_Field s (fd_Name f) = Some f"
  by (simp add: sc_Field_def schema_ok_def find_by_name)

section \<open>Properties\<close>

text \<open>C37: Validation accepts a schema exactly when its field names are different, every type is
  one of the three known types, and the ID field is empty or names a field; otherwise it returns an
  error, never a panic. What \<open>Parse\<close> returns has passed this test.\<close>

theorem schema_validation_exact:
  "(sc_Validate s = Ok ()) = schema_ok s \<and> sc_Validate s \<noteq> Panic \<and>
   (case sc_Parse S data of Ok s' \<Rightarrow> schema_ok s' \<and> sj_Unmarshal S data = Ok s' | _ \<Rightarrow> True)"
proof (intro conjI)
  show "sc_Validate s \<noteq> Panic"
    using validate_fields_no_panic [of "{}" "sc_Fields s"]
    by (cases "validate_fields {} (sc_Fields s)") (auto simp: sc_Validate_def)
  show "case sc_Parse S data of Ok s' \<Rightarrow> schema_ok s' \<and> sj_Unmarshal S data = Ok s' | _ \<Rightarrow> True"
    by (auto simp: sc_Parse_def res_bind_eq_Ok sc_Validate_ok split: result.split)
qed (rule sc_Validate_ok)

end
