(* ===== verification/Analyze.thy ===== *)
theory Analyze
  imports Prelude
begin

text \<open>
  Text analysis (\<open>src/pkg/analyze/analyze.go\<close>). Ranging over a Go string decodes UTF-8, with
  the replacement character and width one for invalid bytes; that decoder is modelled. The Unicode
  tables behind \<open>unicode.IsLetter\<close>, \<open>unicode.IsDigit\<close> and \<open>strings.ToLower\<close>, and the
  normalisation chain of \<open>golang.org/x/text\<close>, are the parameter \<open>U\<close>.

  Result: the one-pass tokenizer computes the maximal runs of letters and digits of the text,
  folded, without those that fold to nothing, numbered from zero. The locale \<open>tokenizer\<close> is
  Go's interface \<open>Tokenizer\<close> with the law phrase queries rely on.
\<close>

section \<open>Runes of a string\<close>

type_synonym rune = u32

definition RuneError :: rune where "RuneError = 0xFFFD"

definition cont :: "u8 \<Rightarrow> bool" where "cont b \<longleftrightarrow> 0x80 \<le> b \<and> b \<le> 0xBF"

definition low6 :: "u8 \<Rightarrow> rune" where "low6 b = ucast (b AND 0x3F)"

text \<open>The range of the second byte of a sequence of three or four bytes.\<close>

definition accept3 :: "u8 \<Rightarrow> u8 \<Rightarrow> bool" where
  "accept3 b0 b1 \<longleftrightarrow>
     (if b0 = 0xE0 then 0xA0 \<le> b1 \<and> b1 \<le> 0xBF
      else if b0 = 0xED then 0x80 \<le> b1 \<and> b1 \<le> 0x9F else cont b1)"

definition accept4 :: "u8 \<Rightarrow> u8 \<Rightarrow> bool" where
  "accept4 b0 b1 \<longleftrightarrow>
     (if b0 = 0xF0 then 0x90 \<le> b1 \<and> b1 \<le> 0xBF
      else if b0 = 0xF4 then 0x80 \<le> b1 \<and> b1 \<le> 0x8F else cont b1)"

fun DecodeRune :: "bytes \<Rightarrow> rune \<times> nat" where
  "DecodeRune [] = (RuneError, 0)"
| "DecodeRune (b0 # bs) =
     (if b0 < 0x80 then (ucast b0, 1)
      else if 0xC2 \<le> b0 \<and> b0 \<le> 0xDF then
        (case bs of
           b1 # _ \<Rightarrow> if cont b1 then (push_bit 6 (ucast (b0 AND 0x1F)) OR low6 b1, 2) else (RuneError, 1)
         | _ \<Rightarrow> (RuneError, 1))
      else if 0xE0 \<le> b0 \<and> b0 \<le> 0xEF then
        (case bs of
           b1 # b2 # _ \<Rightarrow>
             if accept3 b0 b1 \<and> cont b2
             then (push_bit 12 (ucast (b0 AND 0x0F)) OR push_bit 6 (low6 b1) OR low6 b2, 3)
             else (RuneError, 1)
         | _ \<Rightarrow> (RuneError, 1))
      else if 0xF0 \<le> b0 \<and> b0 \<le> 0xF4 then
        (case bs of
           b1 # b2 # b3 # _ \<Rightarrow>
             if accept4 b0 b1 \<and> cont b2 \<and> cont b3
             then (push_bit 18 (ucast (b0 AND 0x07)) OR push_bit 12 (low6 b1) OR push_bit 6 (low6 b2)
               OR low6 b3, 4)
             else (RuneError, 1)
         | _ \<Rightarrow> (RuneError, 1))
      else (RuneError, 1))"

lemma DecodeRune_width: "b \<noteq> [] \<Longrightarrow> 1 \<le> snd (DecodeRune b) \<and> snd (DecodeRune b) \<le> length b"
  by (cases b) (auto split: list.splits)

text \<open>\<open>for i, r := range text\<close>\<close>

function runes_from :: "nat \<Rightarrow> bytes \<Rightarrow> (nat \<times> rune) list" where
  "runes_from i b =
     (if b = [] then []
      else let r = fst (DecodeRune b); w = snd (DecodeRune b) in (i, r) # runes_from (i + w) (drop w b))"
  by pat_completeness auto
termination
proof (relation "measure (\<lambda>(i, b). length b)")
  fix i and b :: bytes and r w
  assume "b \<noteq> []" "w = snd (DecodeRune b)"
  then have "length b - w < length b" using DecodeRune_width [of b] by simp
  then show "((i + w, drop w b), i, b) \<in> measure (\<lambda>(i, b). length b)" by simp
qed simp

declare runes_from.simps [simp del]

section \<open>The tokenizer\<close>

record Token =
  tk_Term :: string
  tk_Position :: u32
  tk_StartOff :: u32
  tk_EndOff :: u32

record unicode =
  uc_IsLetter :: "rune \<Rightarrow> bool"
  uc_IsDigit :: "rune \<Rightarrow> bool"
  uc_ToLower :: "string \<Rightarrow> string"
  uc_transform :: "string \<Rightarrow> string result"

definition foldASCII :: "unicode \<Rightarrow> string \<Rightarrow> string" where
  "foldASCII U s =
     (let s = uc_ToLower U s in case uc_transform U s of Ok r \<Rightarrow> r | _ \<Rightarrow> s)"

definition isWordRune :: "unicode \<Rightarrow> rune \<Rightarrow> bool" where
  "isWordRune U r \<longleftrightarrow> uc_IsLetter U r \<or> uc_IsDigit U r"

record tok_state =
  ts_tokens :: "Token list"
  ts_pos :: u32
  ts_inWord :: bool
  ts_wordStart :: nat

definition substr :: "string \<Rightarrow> nat \<Rightarrow> nat \<Rightarrow> string" where
  "substr s i j = take (j - i) (drop i s)"

definition tok_emit :: "unicode \<Rightarrow> string \<Rightarrow> tok_state \<Rightarrow> nat \<Rightarrow> tok_state" where
  "tok_emit U text st i =
     (let term = foldASCII U (substr text (ts_wordStart st) i) in
      if term \<noteq> '''' then
        st\<lparr>ts_tokens := ts_tokens st @ [\<lparr>tk_Term = term, tk_Position = ts_pos st,
             tk_StartOff = word_of_nat (ts_wordStart st), tk_EndOff = word_of_nat i\<rparr>],
           ts_pos := ts_pos st + 1\<rparr>
      else st)"

definition tok_step :: "unicode \<Rightarrow> string \<Rightarrow> tok_state \<Rightarrow> nat \<times> rune \<Rightarrow> tok_state" where
  "tok_step U text st = (\<lambda>(i, r).
     if isWordRune U r then
       (if \<not> ts_inWord st then st\<lparr>ts_wordStart := i, ts_inWord := True\<rparr> else st)
     else if ts_inWord st then (tok_emit U text st i)\<lparr>ts_inWord := False\<rparr> else st)"

definition Tokenize :: "unicode \<Rightarrow> string \<Rightarrow> Token list" where
  "Tokenize U text =
     (let st = foldl (tok_step U text)
        \<lparr>ts_tokens = [], ts_pos = 0, ts_inWord = False, ts_wordStart = 0\<rparr> (runes_from 0 (bytes_of text))
      in if ts_inWord st then ts_tokens (tok_emit U text st (length text)) else ts_tokens st)"

section \<open>Reference definition\<close>

text \<open>The spans of the maximal runs of word runes; \<open>n\<close> is the length of the text.\<close>

fun word_runs :: "(rune \<Rightarrow> bool) \<Rightarrow> nat \<Rightarrow> (nat \<times> rune) list \<Rightarrow> (nat \<times> nat) list"
  and word_end :: "(rune \<Rightarrow> bool) \<Rightarrow> nat \<Rightarrow> nat \<Rightarrow> (nat \<times> rune) list \<Rightarrow> (nat \<times> nat) list" where
  "word_runs w n [] = []"
| "word_runs w n ((i, r) # rs) = (if w r then word_end w n i rs else word_runs w n rs)"
| "word_end w n s [] = [(s, n)]"
| "word_end w n s ((i, r) # rs) = (if w r then word_end w n s rs else (s, i) # word_runs w n rs)"

fun number_tokens :: "u32 \<Rightarrow> (string \<times> nat \<times> nat) list \<Rightarrow> Token list" where
  "number_tokens p [] = []"
| "number_tokens p ((t, s, e) # xs) =
     \<lparr>tk_Term = t, tk_Position = p, tk_StartOff = word_of_nat s, tk_EndOff = word_of_nat e\<rparr>
     # number_tokens (p + 1) xs"

definition folded_runs :: "unicode \<Rightarrow> string \<Rightarrow> (nat \<times> nat) list \<Rightarrow> (string \<times> nat \<times> nat) list" where
  "folded_runs U text spans =
     filter (\<lambda>(t, _). t \<noteq> '''') (map (\<lambda>(s, e). (foldASCII U (substr text s e), s, e)) spans)"

definition tokenize_ref :: "unicode \<Rightarrow> string \<Rightarrow> Token list" where
  "tokenize_ref U text =
     number_tokens 0 (folded_runs U text
       (word_runs (isWordRune U) (length text) (runes_from 0 (bytes_of text))))"

lemma tok_emit_inWord [simp]:
  "ts_inWord (tok_emit U text st i) = ts_inWord st"
  "ts_wordStart (tok_emit U text st i) = ts_wordStart st"
  by (simp_all add: tok_emit_def Let_def)

lemma number_tokens_snoc:
  "number_tokens p (xs @ [(t, s, e)]) = number_tokens p xs @
     [\<lparr>tk_Term = t, tk_Position = p + word_of_nat (length xs), tk_StartOff = word_of_nat s,
       tk_EndOff = word_of_nat e\<rparr>]"
  by (induction p xs rule: number_tokens.induct) (simp_all add: algebra_simps)

definition tok_done :: "unicode \<Rightarrow> string \<Rightarrow> (nat \<times> nat) list \<Rightarrow> tok_state \<Rightarrow> bool" where
  "tok_done U text spans st \<longleftrightarrow>
     ts_tokens st = number_tokens 0 (folded_runs U text spans) \<and>
     ts_pos st = word_of_nat (length (folded_runs U text spans))"

lemma tok_emit_done:
  assumes "tok_done U text spans st"
  shows "tok_done U text (spans @ [(ts_wordStart st, i)]) (tok_emit U text st i)"
  using assms number_tokens_snoc [of 0 "folded_runs U text spans"]
  by (simp add: tok_done_def tok_emit_def folded_runs_def Let_def)

lemma tok_done_fields:
  "tok_done U text spans (st\<lparr>ts_inWord := b\<rparr>) = tok_done U text spans st"
  "tok_done U text spans (st\<lparr>ts_wordStart := j, ts_inWord := b\<rparr>) = tok_done U text spans st"
  by (simp_all add: tok_done_def)

definition tok_finish :: "unicode \<Rightarrow> string \<Rightarrow> tok_state \<Rightarrow> tok_state" where
  "tok_finish U text st = (if ts_inWord st then tok_emit U text st (length text) else st)"

lemma tok_loop:
  "tok_done U text spans st \<Longrightarrow>
   tok_done U text
     (spans @ (if ts_inWord st then word_end (isWordRune U) (length text) (ts_wordStart st) rs
               else word_runs (isWordRune U) (length text) rs))
     (tok_finish U text (foldl (tok_step U text) st rs))"
proof (induction rs arbitrary: spans st)
  case Nil
  then show ?case by (simp add: tok_finish_def tok_emit_done)
next
  case (Cons ir rs)
  obtain i r where ir: "ir = (i, r)" by fastforce
  show ?case
  proof (cases "isWordRune U r")
    case True
    let ?st = "if ts_inWord st then st else st\<lparr>ts_wordStart := i, ts_inWord := True\<rparr>"
    have "tok_done U text spans ?st" using Cons.prems by (simp add: tok_done_def)
    from Cons.IH [OF this] show ?thesis
      using ir True by (cases "ts_inWord st") (simp_all add: tok_step_def)
  next
    case False
    show ?thesis
    proof (cases "ts_inWord st")
      case in_word: True
      let ?st = "(tok_emit U text st i)\<lparr>ts_inWord := False\<rparr>"
      have "tok_done U text (spans @ [(ts_wordStart st, i)]) ?st"
        using tok_emit_done [OF Cons.prems] by (simp add: tok_done_fields)
      from Cons.IH [OF this] show ?thesis
        using ir False in_word by (simp add: tok_step_def)
    next
      case out: False
      from Cons.IH [OF Cons.prems] show ?thesis using ir False out by (simp add: tok_step_def)
    qed
  qed
qed

lemma Tokenize_ref: "Tokenize U text = tokenize_ref U text"
proof -
  let ?st = "\<lparr>ts_tokens = [], ts_pos = 0, ts_inWord = False, ts_wordStart = 0\<rparr>"
  have "tok_done U text [] ?st" by (simp add: tok_done_def folded_runs_def)
  from tok_loop [OF this, of "runes_from 0 (bytes_of text)"] show ?thesis
    by (auto simp: tok_done_def tokenize_ref_def Tokenize_def tok_finish_def Let_def split: if_splits)
qed

section \<open>The interface\<close>

text \<open>
  What the clients of a tokenizer rely on: the position of a token is its index, and no term is
  empty. Consecutive positions make adjacent words adjacent positions, which phrase queries test.
\<close>

locale tokenizer =
  fixes tokenize :: "string \<Rightarrow> Token list"
  assumes positions: "i < length (tokenize t) \<Longrightarrow> tk_Position (tokenize t ! i) = word_of_nat i"
    and terms_nonempty: "k \<in> set (tokenize t) \<Longrightarrow> tk_Term k \<noteq> ''''"
begin

lemma positions_map: "map tk_Position (tokenize t) = map word_of_nat [0..<length (tokenize t)]"
  by (rule nth_equalityI) (simp_all add: positions)

lemma positions_distinct:
  assumes "length (tokenize t) \<le> 2 ^ 32"
  shows "distinct (map tk_Position (tokenize t))"
proof -
  have "inj_on (word_of_nat :: nat \<Rightarrow> u32) {0..<length (tokenize t)}"
  proof (rule inj_onI)
    fix i j
    assume "i \<in> {0..<length (tokenize t)}" "j \<in> {0..<length (tokenize t)}"
      "(word_of_nat i :: u32) = word_of_nat j"
    then show "i = j" using assms u32_of_nat_inj [of i j] by simp
  qed
  then show ?thesis by (simp add: positions_map distinct_map)
qed

text \<open>Two tokens are neighbours exactly when their positions differ by one.\<close>

lemma positions_adjacent:
  assumes "length (tokenize t) < 2 ^ 32" and "i < length (tokenize t)" and "j < length (tokenize t)"
  shows "tk_Position (tokenize t ! j) = tk_Position (tokenize t ! i) + 1 \<longleftrightarrow> j = Suc i"
proof -
  have "(word_of_nat i + 1 :: u32) = word_of_nat (Suc i)" by simp
  moreover have "(word_of_nat j :: u32) = word_of_nat (Suc i) \<longleftrightarrow> j = Suc i"
    using assms by (intro u32_of_nat_inj) simp_all
  ultimately show ?thesis using assms(2,3) by (simp only: positions)
qed

end

lemma number_tokens_nth:
  "i < length xs \<Longrightarrow> number_tokens p xs ! i = \<lparr>tk_Term = fst (xs ! i), tk_Position = p + word_of_nat i,
     tk_StartOff = word_of_nat (fst (snd (xs ! i))), tk_EndOff = word_of_nat (snd (snd (xs ! i)))\<rparr>"
proof (induction p xs arbitrary: i rule: number_tokens.induct)
  case (2 p t s e xs)
  then show ?case by (cases i) (simp_all add: algebra_simps)
qed simp

lemma length_number_tokens [simp]: "length (number_tokens p xs) = length xs"
  by (induction p xs rule: number_tokens.induct) simp_all

interpretation standard: tokenizer "Tokenize U" for U
proof
  fix i t
  assume "i < length (Tokenize U t)"
  then show "tk_Position (Tokenize U t ! i) = word_of_nat i"
    by (simp add: Tokenize_ref tokenize_ref_def number_tokens_nth)
next
  fix k t
  assume "k \<in> set (Tokenize U t)"
  then obtain i where "i < length (Tokenize U t)" "k = Tokenize U t ! i" by (metis in_set_conv_nth)
  then show "tk_Term k \<noteq> ''''"
    using nth_mem [of i "folded_runs U t (word_runs (isWordRune U) (length t) (runes_from 0 (bytes_of t)))"]
    by (auto simp: Tokenize_ref tokenize_ref_def number_tokens_nth folded_runs_def)
qed

section \<open>The spans lie in the text, in order\<close>

lemma runes_from_bounds:
  "\<forall>(j, r) \<in> set (runes_from i b). i \<le> j \<and> j < i + length b"
proof (induction i b rule: runes_from.induct)
  case (1 i b)
  show ?case
  proof (cases "b = []")
    case False
    let ?w = "snd (DecodeRune b)"
    have w: "1 \<le> ?w" "?w \<le> length b" using DecodeRune_width [OF False] by auto
    then show ?thesis
      using 1 [OF False refl refl] False by (subst runes_from.simps) (fastforce simp: Let_def)
  qed (simp add: runes_from.simps)
qed

lemma runes_from_sorted: "sorted_wrt (\<lambda>a b. fst a < fst b) (runes_from i b)"
proof (induction i b rule: runes_from.induct)
  case (1 i b)
  show ?case
  proof (cases "b = []")
    case False
    let ?w = "snd (DecodeRune b)"
    have w: "1 \<le> ?w" using DecodeRune_width [OF False] by auto
    have "\<forall>x \<in> set (runes_from (i + ?w) (drop ?w b)). i < fst x"
      using runes_from_bounds [of "i + ?w" "drop ?w b"] w by fastforce
    then show ?thesis
      using 1 [OF False refl refl] False by (subst runes_from.simps) (simp add: Let_def)
  qed (simp add: runes_from.simps)
qed

definition spans_in :: "nat \<Rightarrow> nat \<Rightarrow> (nat \<times> nat) list \<Rightarrow> bool" where
  "spans_in lo n spans \<longleftrightarrow> (\<forall>(s, e) \<in> set spans. lo \<le> s \<and> s < e \<and> e \<le> n) \<and>
     sorted_wrt (\<lambda>a b. snd a < fst b) spans"

lemma spans_in_mono: "spans_in lo n spans \<Longrightarrow> lo' \<le> lo \<Longrightarrow> spans_in lo' n spans"
  by (fastforce simp: spans_in_def)

lemma word_runs_spans:
  "sorted_wrt (\<lambda>a b. fst a < fst b) rs \<Longrightarrow> \<forall>(j, r) \<in> set rs. lo \<le> j \<and> j < n \<Longrightarrow>
     spans_in lo n (word_runs w n rs)"
  "sorted_wrt (\<lambda>a b. fst a < fst b) rs \<Longrightarrow> \<forall>(j, r) \<in> set rs. s < j \<and> j < n \<Longrightarrow> s < n \<Longrightarrow>
     spans_in s n (word_end w n s rs)"
proof (induction w n rs and w n s rs arbitrary: lo rule: word_runs_word_end.induct)
  case (2 w n i r rs)
  show ?case
  proof (cases "w r")
    case True
    then have "spans_in i n (word_end w n i rs)" using 2 by fastforce
    then show ?thesis using True 2(4) by (auto elim: spans_in_mono)
  next
    case False
    then have "spans_in lo n (word_runs w n rs)" using 2 by simp
    then show ?thesis using False by simp
  qed
next
  case (4 w n s i r rs)
  show ?case
  proof (cases "w r")
    case True
    then show ?thesis using 4 by simp
  next
    case False
    have "\<forall>(j, r) \<in> set rs. Suc i \<le> j \<and> j < n" using 4(3,4) by (auto simp: Suc_le_eq)
    then have rest: "spans_in (Suc i) n (word_runs w n rs)" using 4(2) [OF False] 4(3) by simp
    have i: "s < i" "i < n" using 4(4) by auto
    have "\<forall>(a, b) \<in> set (word_runs w n rs). s \<le> a \<and> a < b \<and> b \<le> n \<and> i < a"
      using rest i by (force simp: spans_in_def)
    then show ?thesis using False rest i by (auto simp: spans_in_def)
  qed
qed (simp_all add: spans_in_def)

section \<open>Properties\<close>


end
