(* ===== verification/Seg_Writer.thy ===== *)
theory Seg_Writer
  imports Postings Docstore Seg_Format "HOL-Library.AList"
begin

text \<open>
  Building a segment (\<open>src/pkg/segment/writer.go\<close>): field accumulators collect, per term, the
  documents and positions; \<open>Build\<close> lays the sections out and builds the hotcache. Go maps are
  association lists with one entry per key; where the code iterates over a map it sorts the keys
  first, so the iteration order does not matter. The FSTs are built in parallel in the code: when
  several fail, the error returned is here the one of the first field. The doc-lengths loop of
  \<open>SetDoclen\<close> compares 32-bit lengths and ends for every document number below \<open>2^32 - 1\<close>;
  the definition gives its result for those.
\<close>

section \<open>Field accumulators\<close>

record TermPosting =
  tp_Term :: string
  tp_DocID :: u32
  tp_Position :: u32

record 'b FieldAccumulator =
  fa_Name :: string
  fa_PostingLists :: "(string \<times> 'b List) list"
  fa_Positions :: "(string \<times> (u32 \<times> u32 list) list) list"
  fa_Doclens :: "u32 list"

definition NewFieldAccumulator :: "string \<Rightarrow> 'b FieldAccumulator" where
  "NewFieldAccumulator name =
     \<lparr>fa_Name = name, fa_PostingLists = [], fa_Positions = [], fa_Doclens = []\<rparr>"

definition AddToken :: "'b roaring \<Rightarrow> 'b FieldAccumulator \<Rightarrow> u32 \<Rightarrow> string \<Rightarrow> u32 \<Rightarrow> 'b FieldAccumulator" where
  "AddToken R fa docID term pos =
     (let pl = (case map_of (fa_PostingLists fa) term of None \<Rightarrow> postings_New R | Some pl \<Rightarrow> pl);
          docPos = (case map_of (fa_Positions fa) term of None \<Rightarrow> [] | Some m \<Rightarrow> m);
          ps = (case map_of docPos docID of None \<Rightarrow> [] | Some ps \<Rightarrow> ps)
      in fa\<lparr>fa_PostingLists := AList.update term (postings_Add R pl docID) (fa_PostingLists fa),
            fa_Positions := AList.update term (AList.update docID (ps @ [pos]) docPos) (fa_Positions fa)\<rparr>)"

definition SetDoclen :: "'b FieldAccumulator \<Rightarrow> u32 \<Rightarrow> u32 \<Rightarrow> 'b FieldAccumulator" where
  "SetDoclen fa docID len =
     (let dl = fa_Doclens fa @ replicate (Suc (unat docID) - length (fa_Doclens fa)) 0
      in fa\<lparr>fa_Doclens := dl[unat docID := len]\<rparr>)"

section \<open>Build\<close>

record Result =
  SegBytes :: bytes
  HotcacheBytes :: bytes
  res_DocCount :: u32

record termRecord =
  tr_field :: string
  tr_term :: string
  tr_postOff :: u64
  tr_postLen :: u64
  tr_posOff :: u64
  tr_posLen :: u64

fun res_foldl :: "('s \<Rightarrow> 'a \<Rightarrow> 's result) \<Rightarrow> 's \<Rightarrow> 'a list \<Rightarrow> 's result" where
  "res_foldl f s [] = Ok s"
| "res_foldl f s (x # xs) = res_bind (f s x) (\<lambda>s'. res_foldl f s' xs)"

definition pos_entries :: "(u32 \<times> u32 list) list \<Rightarrow> PositionsEntry list" where
  "pos_entries docPos =
     map (\<lambda>docID. \<lparr>DocID = docID, Positions = sort (the (map_of docPos docID))\<rparr>) (sort (map fst docPos))"

definition build_term ::
  "'b roaring \<Rightarrow> 'b FieldAccumulator \<Rightarrow> bytes \<times> bytes \<times> termRecord list \<Rightarrow> string
     \<Rightarrow> (bytes \<times> bytes \<times> termRecord list) result" where
  "build_term R fa = (\<lambda>(postBuf, posBuf, trs) term.
     res_bind (res_wrap ''serialize postings''
       (postings_Serialize R (the (map_of (fa_PostingLists fa) term)))) (\<lambda>plBytes.
     let docPos = (case map_of (fa_Positions fa) term of None \<Rightarrow> [] | Some m \<Rightarrow> m);
         posBytes = EncodePositions (pos_entries docPos)
     in Ok (postBuf @ plBytes, posBuf @ posBytes, trs @
       [\<lparr>tr_field = fa_Name fa, tr_term = term,
         tr_postOff = word_of_nat (length postBuf), tr_postLen = word_of_nat (length plBytes),
         tr_posOff = word_of_nat (length posBuf), tr_posLen = word_of_nat (length posBytes)\<rparr>])))"

definition build_postings ::
  "'b roaring \<Rightarrow> 'b FieldAccumulator list \<Rightarrow> (bytes \<times> bytes \<times> termRecord list) result" where
  "build_postings R flds =
     res_foldl (\<lambda>st fa. res_foldl (build_term R fa) st (sort (map fst (fa_PostingLists fa))))
       ([], [], []) flds"

fun block_offsets :: "u64 \<Rightarrow> bytes list \<Rightarrow> bytes" where
  "block_offsets cumOff [] = put_u64 cumOff"
| "block_offsets cumOff (blk # blks) = put_u64 cumOff @ block_offsets (cumOff + word_of_nat (length blk)) blks"

definition docstore_section :: "bytes list \<Rightarrow> bytes" where
  "docstore_section dsBlocks = block_offsets 0 dsBlocks @ concat dsBlocks"

definition doclens_section :: "'b FieldAccumulator list \<Rightarrow> bytes" where
  "doclens_section flds =
     concat (map (\<lambda>fa. put_u32 (word_of_nat (length (fa_Doclens fa))) @ concat (map put_u32 (fa_Doclens fa))) flds)"

text \<open>The layout: magic, version and the four sections, then the footer.\<close>

definition seg_prefix :: bytes where "seg_prefix = bytes_of Magic @ put_u32 seg_Version"

definition seg_footer :: "bytes \<Rightarrow> bytes \<Rightarrow> bytes \<Rightarrow> bytes \<Rightarrow> u32 \<Rightarrow> Footer" where
  "seg_footer postBuf posBuf dsBuf doclenBuf docCount =
     (let postBase = word_of_nat (length seg_prefix);
          posBase = word_of_nat (length (seg_prefix @ postBuf));
          dsBase = word_of_nat (length (seg_prefix @ postBuf @ posBuf));
          dlBase = word_of_nat (length (seg_prefix @ postBuf @ posBuf @ dsBuf))
      in \<lparr>PostingsOffset = postBase, PostingsLen = word_of_nat (length postBuf),
          PositionsOffset = posBase, PositionsLen = word_of_nat (length posBuf),
          DocstoreOffset = dsBase, DocstoreLen = word_of_nat (length dsBuf),
          DoclensOffset = dlBase, DoclensLen = word_of_nat (length doclenBuf),
          DocCount = docCount\<rparr>)"

record fieldGroup =
  fg_terms :: "string list"
  fg_offsets :: "TermOffsets list"

definition group_term :: "u64 \<Rightarrow> u64 \<Rightarrow> (string \<rightharpoonup> fieldGroup) \<Rightarrow> termRecord \<Rightarrow> (string \<rightharpoonup> fieldGroup)" where
  "group_term postBase posBase fgMap tr =
     (let fg = (case fgMap (tr_field tr) of None \<Rightarrow> \<lparr>fg_terms = [], fg_offsets = []\<rparr> | Some fg \<Rightarrow> fg)
      in fgMap(tr_field tr \<mapsto> \<lparr>fg_terms = fg_terms fg @ [tr_term tr], fg_offsets = fg_offsets fg @
           [\<lparr>PostOff = postBase + tr_postOff tr, PostLen = tr_postLen tr,
             PosOff = posBase + tr_posOff tr, PosLen = tr_posLen tr\<rparr>]\<rparr>))"

definition avg_doclen :: "u32 list \<Rightarrow> f32" where
  "avg_doclen dl =
     (if length dl > 0
      then let sum = foldl (\<lambda>s d. s + ucast d) (0 :: u64) dl
           in f32_div (f32_of_nat (unat sum)) (f32_of_nat (length dl))
      else 0)"

definition field_input ::
  "('w, 'f) vellum \<Rightarrow> (string \<rightharpoonup> fieldGroup) \<Rightarrow> 'b FieldAccumulator \<Rightarrow> HotcacheFieldInput result" where
  "field_input V fgMap fa =
     (let fg = (case fgMap (fa_Name fa) of None \<Rightarrow> \<lparr>fg_terms = [], fg_offsets = []\<rparr> | Some fg \<Rightarrow> fg)
      in res_bind (fst_build V (zip (map bytes_of (fg_terms fg)) (map word_of_nat [0..<length (fg_terms fg)])))
        (\<lambda>fstBuf. Ok \<lparr>hi_Name = fa_Name fa, hi_FSTBytes = fstBuf, hi_TermOffsets = fg_offsets fg,
           hi_Doclens = fa_Doclens fa, hi_AvgDoclen = avg_doclen (fa_Doclens fa)\<rparr>))"

fun field_inputs ::
  "('w, 'f) vellum \<Rightarrow> (string \<rightharpoonup> fieldGroup) \<Rightarrow> 'b FieldAccumulator list \<Rightarrow> HotcacheFieldInput list result" where
  "field_inputs V fgMap [] = Ok []"
| "field_inputs V fgMap (fa # fas) =
     res_bind (field_input V fgMap fa) (\<lambda>i. res_bind (field_inputs V fgMap fas) (\<lambda>is. Ok (i # is)))"

definition seg_Build ::
  "'b roaring \<Rightarrow> zstd \<Rightarrow> ('w, 'f) vellum \<Rightarrow> 'b FieldAccumulator list \<Rightarrow> ds_Writer \<Rightarrow> u32 \<Rightarrow> Result result" where
  "seg_Build R Z V flds ds docCount =
     (case ds_Finalize Z ds of (dsBlocks, dsIdx) \<Rightarrow>
      res_bind (build_postings R flds) (\<lambda>(postBuf, posBuf, termRecords).
      let dsBuf = docstore_section dsBlocks;
          doclenBuf = doclens_section flds;
          footer = seg_footer postBuf posBuf dsBuf doclenBuf docCount;
          seg = seg_prefix @ postBuf @ posBuf @ dsBuf @ doclenBuf @ EncodeFooter footer;
          fgMap = foldl (group_term (PostingsOffset footer) (PositionsOffset footer)) Map.empty termRecords
      in res_bind (field_inputs V fgMap flds) (\<lambda>hcFieldInputs.
         res_bind (res_wrap ''encode hotcache'' (EncodeHotcache hcFieldInputs (EncodeIndex dsIdx) docCount
           (word_of_nat (length dsBlocks)))) (\<lambda>hcBytes.
         Ok \<lparr>SegBytes = seg, HotcacheBytes = hcBytes, res_DocCount = docCount\<rparr>))))"

section \<open>Accumulators as maps\<close>

text \<open>
  What an accumulator says: the documents of a term and the positions of a term in a document.
\<close>

definition fa_docs :: "'b roaring \<Rightarrow> 'b FieldAccumulator \<Rightarrow> string \<Rightarrow> u32 set" where
  "fa_docs R fa t = (case map_of (fa_PostingLists fa) t of None \<Rightarrow> {} | Some pl \<Rightarrow> postings_docs R pl)"

definition fa_docpos :: "'b FieldAccumulator \<Rightarrow> string \<Rightarrow> (u32 \<times> u32 list) list" where
  "fa_docpos fa t = (case map_of (fa_Positions fa) t of None \<Rightarrow> [] | Some m \<Rightarrow> m)"

definition fa_pos :: "'b FieldAccumulator \<Rightarrow> string \<Rightarrow> u32 \<Rightarrow> u32 list" where
  "fa_pos fa t d = (case map_of (fa_docpos fa t) d of None \<Rightarrow> [] | Some ps \<Rightarrow> ps)"

definition fa_wf :: "'b roaring \<Rightarrow> 'b FieldAccumulator \<Rightarrow> bool" where
  "fa_wf R fa \<longleftrightarrow> distinct (map fst (fa_PostingLists fa)) \<and>
     (\<forall>t. t \<in> fst ` set (fa_PostingLists fa) \<longleftrightarrow> fa_docs R fa t \<noteq> {}) \<and>
     (\<forall>t. distinct (map fst (fa_docpos fa t)) \<and> fst ` set (fa_docpos fa t) = fa_docs R fa t \<and>
       (\<forall>d. d \<in> fa_docs R fa t \<longleftrightarrow> fa_pos fa t d \<noteq> []))"

lemma fa_wf_New: "fa_wf R (NewFieldAccumulator name)"
  by (simp add: fa_wf_def NewFieldAccumulator_def fa_docs_def fa_docpos_def fa_pos_def)

lemma AddToken_docs:
  "roaring_ok R \<Longrightarrow> fa_docs R (AddToken R fa d t p) t' = (if t' = t then insert d (fa_docs R fa t) else fa_docs R fa t')"
  by (auto simp: fa_docs_def AddToken_def Let_def update_conv' split: option.splits)

lemma AddToken_docpos:
  "fa_docpos (AddToken R fa d t p) t' =
     (if t' = t then AList.update d (fa_pos fa t d @ [p]) (fa_docpos fa t) else fa_docpos fa t')"
  by (auto simp: fa_docpos_def fa_pos_def AddToken_def Let_def update_conv' split: option.splits)

lemma AddToken_pos:
  "fa_pos (AddToken R fa d t p) t' d' =
     (if t' = t \<and> d' = d then fa_pos fa t d @ [p] else fa_pos fa t' d')"
  unfolding fa_pos_def AddToken_docpos by (auto simp: update_conv' fa_pos_def)

lemma AddToken_wf:
  assumes "roaring_ok R" and "fa_wf R fa"
  shows "fa_wf R (AddToken R fa d t p)"
proof -
  have "distinct (map fst (fa_PostingLists (AddToken R fa d t p)))"
    using assms(2) by (simp add: fa_wf_def AddToken_def Let_def distinct_update)
  moreover have "t' \<in> fst ` set (fa_PostingLists (AddToken R fa d t p)) \<longleftrightarrow>
      fa_docs R (AddToken R fa d t p) t' \<noteq> {}" for t'
  proof -
    have "fst ` set (fa_PostingLists (AddToken R fa d t p)) = insert t (fst ` set (fa_PostingLists fa))"
      by (simp add: AddToken_def Let_def dom_update)
    moreover have "t' \<in> fst ` set (fa_PostingLists fa) \<longleftrightarrow> fa_docs R fa t' \<noteq> {}"
      using assms(2) unfolding fa_wf_def by blast
    ultimately show ?thesis using AddToken_docs [OF assms(1), of fa d t p t'] by simp
  qed
  moreover have "distinct (map fst (fa_docpos (AddToken R fa d t p) t'))" for t'
    using assms(2) by (simp add: fa_wf_def AddToken_docpos distinct_update)
  moreover have "fst ` set (fa_docpos (AddToken R fa d t p) t') = fa_docs R (AddToken R fa d t p) t'" for t'
    using assms by (simp add: fa_wf_def AddToken_docpos AddToken_docs dom_update)
  moreover have "d' \<in> fa_docs R (AddToken R fa d t p) t' \<longleftrightarrow> fa_pos (AddToken R fa d t p) t' d' \<noteq> []" for t' d'
    using assms by (auto simp: fa_wf_def AddToken_docs AddToken_pos)
  ultimately show ?thesis unfolding fa_wf_def by blast
qed

lemma SetDoclen_simps [simp]:
  "fa_Name (SetDoclen fa d n) = fa_Name fa" "fa_docs R (SetDoclen fa d n) = fa_docs R fa"
  "fa_docpos (SetDoclen fa d n) = fa_docpos fa" "fa_pos (SetDoclen fa d n) = fa_pos fa"
  "fa_wf R (SetDoclen fa d n) = fa_wf R fa" "fa_Name (AddToken R fa d t p) = fa_Name fa"
  "fa_Doclens (AddToken R fa d t p) = fa_Doclens fa"
  by (auto simp: SetDoclen_def AddToken_def fa_docs_def fa_docpos_def fa_pos_def fa_wf_def Let_def fun_eq_iff)

lemma SetDoclen_nth:
  "unat d < length (fa_Doclens (SetDoclen fa d n)) \<and> fa_Doclens (SetDoclen fa d n) ! unat d = n"
  "length (fa_Doclens (SetDoclen fa d n)) = max (length (fa_Doclens fa)) (Suc (unat d))"
  "i \<noteq> unat d \<Longrightarrow> i < length (fa_Doclens fa) \<Longrightarrow> fa_Doclens (SetDoclen fa d n) ! i = fa_Doclens fa ! i"
  by (simp_all add: SetDoclen_def Let_def nth_append)

section \<open>The postings sections\<close>

definition fa_terms :: "'b FieldAccumulator \<Rightarrow> string list" where
  "fa_terms fa = sort (map fst (fa_PostingLists fa))"

definition ser :: "'b roaring \<Rightarrow> 'b FieldAccumulator \<times> string \<Rightarrow> bytes" where
  "ser R ft = (case postings_Serialize R (the (map_of (fa_PostingLists (fst ft)) (snd ft))) of Ok d \<Rightarrow> d | _ \<Rightarrow> [])"

definition posser :: "'b FieldAccumulator \<times> string \<Rightarrow> bytes" where
  "posser ft = EncodePositions (pos_entries (fa_docpos (fst ft) (snd ft)))"

definition seg_terms :: "'b FieldAccumulator list \<Rightarrow> ('b FieldAccumulator \<times> string) list" where
  "seg_terms flds = concat (map (\<lambda>fa. map (Pair fa) (fa_terms fa)) flds)"

definition term_rec ::
  "'b roaring \<Rightarrow> nat \<Rightarrow> nat \<Rightarrow> 'b FieldAccumulator \<times> string \<Rightarrow> termRecord" where
  "term_rec R p q ft = \<lparr>tr_field = fa_Name (fst ft), tr_term = snd ft,
     tr_postOff = word_of_nat p, tr_postLen = word_of_nat (length (ser R ft)),
     tr_posOff = word_of_nat q, tr_posLen = word_of_nat (length (posser ft))\<rparr>"

fun term_recs ::
  "'b roaring \<Rightarrow> nat \<Rightarrow> nat \<Rightarrow> ('b FieldAccumulator \<times> string) list \<Rightarrow> termRecord list" where
  "term_recs R p q [] = []"
| "term_recs R p q (ft # fts) =
     term_rec R p q ft # term_recs R (p + length (ser R ft)) (q + length (posser ft)) fts"

lemma ser_Ok:
  "roaring_ok R \<Longrightarrow> postings_Serialize R (the (map_of (fa_PostingLists fa) t)) = Ok (ser R (fa, t))"
proof -
  assume "roaring_ok R"
  then obtain d where "postings_Serialize R (the (map_of (fa_PostingLists fa) t)) = Ok d"
    by (rule postings_Serialize_ok)
  then show ?thesis by (simp add: ser_def)
qed

lemma build_terms_ok:
  assumes "roaring_ok R"
  shows "res_foldl (build_term R fa) (pb, qb, trs) ts =
    Ok (pb @ concat (map (ser R) (map (Pair fa) ts)), qb @ concat (map posser (map (Pair fa) ts)),
        trs @ term_recs R (length pb) (length qb) (map (Pair fa) ts))"
proof (induction ts arbitrary: pb qb trs)
  case (Cons t ts)
  have "build_term R fa (pb, qb, trs) t = Ok (pb @ ser R (fa, t), qb @ posser (fa, t),
      trs @ [term_rec R (length pb) (length qb) (fa, t)])"
    using ser_Ok [OF assms]
    by (simp add: build_term_def Let_def term_rec_def posser_def fa_docpos_def)
  then show ?case using Cons by (simp add: add.commute)
qed simp

lemma term_recs_append:
  "term_recs R p q (xs @ ys) = term_recs R p q xs @
     term_recs R (p + length (concat (map (ser R) xs))) (q + length (concat (map posser xs))) ys"
  by (induction xs arbitrary: p q) (simp_all add: add.assoc)

lemma build_postings_ok:
  assumes "roaring_ok R"
  shows "build_postings R flds = Ok (concat (map (ser R) (seg_terms flds)),
    concat (map posser (seg_terms flds)), term_recs R 0 0 (seg_terms flds))"
proof -
  have "res_foldl (\<lambda>st fa. res_foldl (build_term R fa) st (sort (map fst (fa_PostingLists fa))))
      (pb, qb, trs) flds = Ok (pb @ concat (map (ser R) (seg_terms flds)),
        qb @ concat (map posser (seg_terms flds)),
        trs @ term_recs R (length pb) (length qb) (seg_terms flds))" for pb qb trs
  proof (induction flds arbitrary: pb qb trs)
    case (Cons fa flds)
    show ?case
      using Cons by (simp add: build_terms_ok [OF assms] seg_terms_def fa_terms_def term_recs_append)
  qed (simp add: seg_terms_def)
  from this [of "[]" "[]" "[]"] show ?thesis by (simp add: build_postings_def)
qed

lemma term_recs_nth:
  "i < length fts \<Longrightarrow> term_recs R p q fts ! i =
     term_rec R (p + length (concat (map (ser R) (take i fts)))) (q + length (concat (map posser (take i fts)))) (fts ! i)"
proof (induction fts arbitrary: i p q)
  case (Cons ft fts)
  then show ?case by (cases i) (simp_all add: add.assoc)
qed simp

lemma length_term_recs [simp]: "length (term_recs R p q fts) = length fts"
  by (induction fts arbitrary: p q) simp_all

section \<open>The term tables\<close>

definition rec_offsets :: "u64 \<Rightarrow> u64 \<Rightarrow> termRecord \<Rightarrow> TermOffsets" where
  "rec_offsets postBase posBase tr =
     \<lparr>PostOff = postBase + tr_postOff tr, PostLen = tr_postLen tr,
      PosOff = posBase + tr_posOff tr, PosLen = tr_posLen tr\<rparr>"

definition group_of :: "(string \<rightharpoonup> fieldGroup) \<Rightarrow> string \<Rightarrow> fieldGroup" where
  "group_of fgMap name = (case fgMap name of None \<Rightarrow> \<lparr>fg_terms = [], fg_offsets = []\<rparr> | Some fg \<Rightarrow> fg)"

lemma group_term_of:
  "group_of (group_term pb qb m tr) name =
     (if tr_field tr = name
      then \<lparr>fg_terms = fg_terms (group_of m name) @ [tr_term tr],
            fg_offsets = fg_offsets (group_of m name) @ [rec_offsets pb qb tr]\<rparr>
      else group_of m name)"
  by (simp add: group_of_def group_term_def rec_offsets_def Let_def)

lemma group_terms_of:
  "group_of (foldl (group_term pb qb) m trs) name =
     \<lparr>fg_terms = fg_terms (group_of m name) @ map tr_term (filter (\<lambda>tr. tr_field tr = name) trs),
      fg_offsets = fg_offsets (group_of m name) @
        map (rec_offsets pb qb) (filter (\<lambda>tr. tr_field tr = name) trs)\<rparr>"
  by (induction trs arbitrary: m) (simp_all add: group_term_of)

lemma fa_terms_strict:
  assumes "fa_wf R fa"
  shows "sorted_wrt (<) (fa_terms fa)" and "sorted_wrt (<) (map bytes_of (fa_terms fa))"
proof -
  have "distinct (fa_terms fa)" "sorted (fa_terms fa)"
    using assms by (simp_all add: fa_terms_def fa_wf_def)
  then show "sorted_wrt (<) (fa_terms fa)" by (simp add: strict_sorted_iff)
  then have "sorted_wrt (\<lambda>x y. bytes_of x < bytes_of y) (fa_terms fa)"
    by (rule sorted_wrt_mono_rel [rotated]) (rule bytes_of_less)
  then show "sorted_wrt (<) (map bytes_of (fa_terms fa))" by (simp add: sorted_wrt_map)
qed

lemma map_term_recs:
  "map tr_term (filter (\<lambda>tr. tr_field tr = name) (term_recs R p q fts)) =
     map snd (filter (\<lambda>ft. fa_Name (fst ft) = name) fts)"
  by (induction fts arbitrary: p q) (simp_all add: term_rec_def)

lemma seg_terms_of_field:
  assumes "distinct (map fa_Name flds)" and "fa \<in> set flds"
  shows "filter (\<lambda>ft. fa_Name (fst ft) = fa_Name fa) (seg_terms flds) = map (Pair fa) (fa_terms fa)"
  using assms
proof (induction flds)
  case (Cons f flds)
  show ?case
  proof (cases "f = fa")
    case True
    then have "\<forall>g \<in> set flds. fa_Name g \<noteq> fa_Name fa"
      using Cons.prems(1) by (metis distinct.simps(2) image_eqI list.set_map list.simps(9))
    then have "filter (\<lambda>ft. fa_Name (fst ft) = fa_Name fa) (seg_terms flds) = []"
      by (auto simp: seg_terms_def filter_empty_conv)
    then show ?thesis using True by (simp add: seg_terms_def filter_map comp_def)
  next
    case False
    then have "fa \<in> set flds" using Cons.prems(2) by simp
    moreover have "fa_Name f \<noteq> fa_Name fa" using Cons.prems(1) \<open>fa \<in> set flds\<close> by auto
    ultimately show ?thesis
      using Cons by (simp add: seg_terms_def filter_map comp_def)
  qed
qed simp

lemma field_group:
  assumes "distinct (map fa_Name flds)" and "fa \<in> set flds"
    and fg_def: "fg = group_of (foldl (group_term pb qb) Map.empty (term_recs R 0 0 (seg_terms flds))) (fa_Name fa)"
  shows "fg_terms fg = fa_terms fa" and "length (fg_offsets fg) = length (fa_terms fa)"
    and "t \<in> set (fa_terms fa) \<Longrightarrow> \<exists>i < length (seg_terms flds). seg_terms flds ! i = (fa, t) \<and>
      map_of (zip (fg_terms fg) (fg_offsets fg)) t = Some (rec_offsets pb qb (term_recs R 0 0 (seg_terms flds) ! i))"
proof -
  let ?trs = "term_recs R 0 0 (seg_terms flds)"
  let ?F = "filter (\<lambda>tr. tr_field tr = fa_Name fa) ?trs"
  have fg: "fg_terms fg = map tr_term ?F" "fg_offsets fg = map (rec_offsets pb qb) ?F"
    by (simp_all add: fg_def group_terms_of) (simp_all add: group_of_def)
  then show terms: "fg_terms fg = fa_terms fa"
    using seg_terms_of_field [OF assms(1,2)] by (simp add: map_term_recs comp_def)
  then show len: "length (fg_offsets fg) = length (fa_terms fa)" using fg by (metis length_map)
  assume "t \<in> set (fa_terms fa)"
  then have "map_of (zip (fg_terms fg) (fg_offsets fg)) t \<noteq> None"
    using terms len by (simp add: map_of_zip_is_None)
  then obtain off where off: "map_of (zip (fg_terms fg) (fg_offsets fg)) t = Some off" by auto
  then have "(t, off) \<in> set (zip (map tr_term ?F) (map (rec_offsets pb qb) ?F))"
    using fg map_of_SomeD by metis
  then obtain tr where tr: "tr \<in> set ?F" "tr_term tr = t" "off = rec_offsets pb qb tr"
    by (auto simp: zip_map_map zip_same_conv_map)
  then obtain i where i: "i < length (seg_terms flds)" "tr = ?trs ! i"
    by (auto simp: in_set_conv_nth)
  let ?ft = "seg_terms flds ! i"
  have "fa_Name (fst ?ft) = fa_Name fa" "snd ?ft = t"
    using tr i by (auto simp: term_recs_nth term_rec_def)
  moreover have "fst ?ft \<in> set flds"
    using nth_mem [OF i(1)] by (auto simp: seg_terms_def)
  ultimately have "?ft = (fa, t)"
    using assms(1,2) by (metis (no_types, lifting) distinct_map inj_onD prod.collapse)
  then show "\<exists>i < length (seg_terms flds). seg_terms flds ! i = (fa, t) \<and>
      map_of (zip (fg_terms fg) (fg_offsets fg)) t = Some (rec_offsets pb qb (?trs ! i))"
    using i tr off by auto
qed

lemma field_inputs_Ok:
  "field_inputs V m flds = Ok is \<longleftrightarrow> list_all2 (\<lambda>fa i. field_input V m fa = Ok i) flds is"
  by (induction flds arbitrary: "is") (auto simp: res_bind_eq_Ok list_all2_Cons1)

lemma field_input_Ok:
  "field_input V m fa = Ok i \<longleftrightarrow>
     (\<exists>d. fst_build V (zip (map bytes_of (fg_terms (group_of m (fa_Name fa))))
         (map word_of_nat [0..<length (fg_terms (group_of m (fa_Name fa)))])) = Ok d \<and>
       i = \<lparr>hi_Name = fa_Name fa, hi_FSTBytes = d, hi_TermOffsets = fg_offsets (group_of m (fa_Name fa)),
         hi_Doclens = fa_Doclens fa, hi_AvgDoclen = avg_doclen (fa_Doclens fa)\<rparr>)"
  by (auto simp: field_input_def group_of_def Let_def res_bind_eq_Ok)

section \<open>The layout of a built segment\<close>

definition post_bytes :: "'b roaring \<Rightarrow> 'b FieldAccumulator list \<Rightarrow> bytes" where
  "post_bytes R flds = concat (map (ser R) (seg_terms flds))"

definition pos_bytes :: "'b FieldAccumulator list \<Rightarrow> bytes" where
  "pos_bytes flds = concat (map posser (seg_terms flds))"

definition seg_bytes :: "'b roaring \<Rightarrow> 'b FieldAccumulator list \<Rightarrow> bytes list \<Rightarrow> u32 \<Rightarrow> bytes" where
  "seg_bytes R flds blks dc =
     seg_prefix @ post_bytes R flds @ pos_bytes flds @ docstore_section blks @ doclens_section flds @
     EncodeFooter (seg_footer (post_bytes R flds) (pos_bytes flds) (docstore_section blks) (doclens_section flds) dc)"

definition seg_groups :: "'b roaring \<Rightarrow> 'b FieldAccumulator list \<Rightarrow> (string \<rightharpoonup> fieldGroup)" where
  "seg_groups R flds = foldl (group_term (word_of_nat (length seg_prefix))
     (word_of_nat (length seg_prefix + length (post_bytes R flds)))) Map.empty
     (term_recs R 0 0 (seg_terms flds))"

lemma seg_Build_Ok:
  assumes "roaring_ok R" and "ds_Finalize Z ds = (blks, idx)"
  shows "seg_Build R Z V flds ds dc = Ok res \<longleftrightarrow>
    (\<exists>inputs hcb. field_inputs V (seg_groups R flds) flds = Ok inputs \<and>
       EncodeHotcache inputs (EncodeIndex idx) dc (word_of_nat (length blks)) = Ok hcb \<and>
       res = \<lparr>SegBytes = seg_bytes R flds blks dc, HotcacheBytes = hcb, res_DocCount = dc\<rparr>)"
  using assms
  by (auto simp: seg_Build_def build_postings_ok Let_def res_bind_eq_Ok seg_groups_def seg_bytes_def
    post_bytes_def pos_bytes_def seg_footer_def)

lemma length_seg_prefix: "length seg_prefix = 8"
  by (simp add: seg_prefix_def Magic_def)

lemma take_drop_mid: "length a = n \<Longrightarrow> take (length b) (drop n (a @ b @ c)) = b"
  by simp

text \<open>The offsets recorded for a term select its serialised postings and positions.\<close>

lemma term_slices:
  assumes i: "i < length (seg_terms flds)" and len: "length (seg_bytes R flds blks dc) < 2 ^ 63"
  defines "off \<equiv> rec_offsets (word_of_nat (length seg_prefix))
    (word_of_nat (length seg_prefix + length (post_bytes R flds))) (term_recs R 0 0 (seg_terms flds) ! i)"
  shows "unat (PostOff off) + unat (PostLen off) \<le> length (seg_bytes R flds blks dc)"
    and "take (unat (PostLen off)) (drop (unat (PostOff off)) (seg_bytes R flds blks dc)) = ser R (seg_terms flds ! i)"
    and "unat (PosOff off) + unat (PosLen off) \<le> length (seg_bytes R flds blks dc)"
    and "take (unat (PosLen off)) (drop (unat (PosOff off)) (seg_bytes R flds blks dc)) = posser (seg_terms flds ! i)"
    and "unat (PostLen off) = length (ser R (seg_terms flds ! i))"
    and "unat (PosLen off) = length (posser (seg_terms flds ! i))"
proof -
  let ?S = "map (ser R) (seg_terms flds)" and ?Q = "map posser (seg_terms flds)"
  let ?p = "length (concat (take i ?S))" and ?q = "length (concat (take i ?Q))"
  let ?rest = "docstore_section blks @ doclens_section flds @ EncodeFooter (seg_footer (post_bytes R flds)
    (pos_bytes flds) (docstore_section blks) (doclens_section flds) dc)"
  have seg: "seg_bytes R flds blks dc = seg_prefix @ concat ?S @ concat ?Q @ ?rest"
    by (simp add: seg_bytes_def post_bytes_def pos_bytes_def)
  have p: "?p + length (ser R (seg_terms flds ! i)) \<le> length (concat ?S)"
    using slice_concat_bound [of i ?S] i by simp
  have q: "?q + length (posser (seg_terms flds ! i)) \<le> length (concat ?Q)"
    using slice_concat_bound [of i ?Q] i by simp
  have total: "8 + length (concat ?S) + length (concat ?Q) < 2 ^ 63"
    using len unfolding seg by (simp add: length_seg_prefix)
  have tr: "term_recs R 0 0 (seg_terms flds) ! i = term_rec R ?p ?q (seg_terms flds ! i)"
    using i by (simp add: term_recs_nth take_map)
  have sum: "unat (word_of_nat a + word_of_nat b :: u64) = a + b" if "a + b < 2 ^ 63" for a b
    using that unat_u64_of_nat [of "a + b"] by (simp only: of_nat_add) simp
  have one: "unat (word_of_nat a :: u64) = a" if "a < 2 ^ 63" for a
    using that by (intro unat_u64_of_nat) simp
  have off: "unat (PostOff off) = 8 + ?p" "unat (PostLen off) = length (ser R (seg_terms flds ! i))"
    "unat (PosOff off) = 8 + length (concat ?S) + ?q"
    "unat (PosLen off) = length (posser (seg_terms flds ! i))"
    using p q total unfolding off_def tr rec_offsets_def term_rec_def TermOffsets.simps termRecord.simps
      length_seg_prefix post_bytes_def
    by (subst sum one; linarith)+
  show "unat (PostOff off) + unat (PostLen off) \<le> length (seg_bytes R flds blks dc)"
    "unat (PosOff off) + unat (PosLen off) \<le> length (seg_bytes R flds blks dc)"
    using p q unfolding seg off by (simp_all add: length_seg_prefix)
  have "take (length (?S ! i)) (drop ?p (concat ?S)) = ?S ! i" using i by (intro slice_concat) simp
  then show "take (unat (PostLen off)) (drop (unat (PostOff off)) (seg_bytes R flds blks dc)) = ser R (seg_terms flds ! i)"
    using p i unfolding seg off by (simp add: length_seg_prefix)
  have "take (length (?Q ! i)) (drop ?q (concat ?Q)) = ?Q ! i" using i by (intro slice_concat) simp
  then show "take (unat (PosLen off)) (drop (unat (PosOff off)) (seg_bytes R flds blks dc)) = posser (seg_terms flds ! i)"
    using q i unfolding seg off by (simp add: length_seg_prefix)
  show "unat (PostLen off) = length (ser R (seg_terms flds ! i))"
    "unat (PosLen off) = length (posser (seg_terms flds ! i))"
    by (fact off)+
qed

section \<open>The block table\<close>

lemma length_block_offsets [simp]: "length (block_offsets c blks) = 8 * Suc (length blks)"
  by (induction c blks rule: block_offsets.induct) simp_all

lemma block_offsets_nth:
  "i \<le> length blks \<Longrightarrow>
     take 8 (drop (8 * i) (block_offsets c blks)) = put_u64 (c + word_of_nat (length (concat (take i blks))))"
proof (induction c blks arbitrary: i rule: block_offsets.induct)
  case (2 c blk blks)
  then show ?case by (cases i) (simp_all add: algebra_simps)
qed simp

section \<open>Build succeeds\<close>

lemma fst_build_field:
  assumes V: "vellum_ok V" and wf: "fa_wf R fa"
  obtains d x where "fst_build V (zip (map bytes_of (fa_terms fa)) (map word_of_nat [0..<length (fa_terms fa)])) = Ok d"
    "v_Load V d = Ok x"
proof -
  let ?kvs = "zip (map bytes_of (fa_terms fa)) (map word_of_nat [0..<length (fa_terms fa)]) :: (bytes \<times> u64) list"
  have "sorted_wrt (<) (map fst ?kvs)" using fa_terms_strict(2) [OF wf] by simp
  then show thesis using V that unfolding vellum_ok_def by blast
qed

lemma field_inputs_build:
  assumes V: "vellum_ok V" and wf: "\<forall>fa \<in> set flds. fa_wf R fa" and names: "distinct (map fa_Name flds)"
  shows "\<exists>is. field_inputs V (seg_groups R flds) flds = Ok is"
proof -
  have "\<exists>i. field_input V (seg_groups R flds) fa = Ok i" if fa: "fa \<in> set flds" for fa
  proof -
    have "fa_wf R fa" using wf fa by blast
    then obtain d where "fst_build V (zip (map bytes_of (fa_terms fa))
        (map word_of_nat [0..<length (fa_terms fa)])) = Ok d"
      using fst_build_field [OF V] by metis
    moreover have "fg_terms (group_of (seg_groups R flds) (fa_Name fa)) = fa_terms fa"
      using field_group(1) [OF names fa refl] by (simp add: seg_groups_def)
    ultimately show ?thesis unfolding field_input_Ok by simp
  qed
  then have "\<exists>is. list_all2 (\<lambda>fa i. field_input V m fa = Ok i) xs is" if "set xs \<subseteq> set flds" "m = seg_groups R flds" for xs m
    using that by (induction xs) (auto simp: list_all2_Cons1, blast)
  from this [of flds] show ?thesis by (simp add: field_inputs_Ok)
qed

lemma seg_Build_total:
  assumes "roaring_ok R" and "vellum_ok V" and "\<forall>fa \<in> set flds. fa_wf R fa" and "distinct (map fa_Name flds)"
  shows "\<exists>res. seg_Build R Z V flds ds dc = Ok res \<and> res_DocCount res = dc"
proof -
  obtain blks idx where fin: "ds_Finalize Z ds = (blks, idx)" by fastforce
  obtain inputs where "field_inputs V (seg_groups R flds) flds = Ok inputs"
    using field_inputs_build assms(2-4) by blast
  moreover obtain hcb where "EncodeHotcache inputs (EncodeIndex idx) dc (word_of_nat (length blks)) = Ok hcb"
    by (simp add: EncodeHotcache_bytes)
  ultimately show ?thesis using seg_Build_Ok [OF assms(1) fin, of V flds dc] by auto
qed

section \<open>The hotcache of a built segment\<close>

lemma hotcache_size:
  assumes "EncodeHotcache fs idx dc nb = Ok data" and "length data < 2 ^ 32"
  shows "\<forall>f \<in> set fs. input_wf f" and "length idx < 2 ^ 32" and "length fs < 2 ^ 32"
proof -
  have len: "length data = 24 + length idx + length (concat (map field_bytes fs))"
    using assms(1) by (auto simp: EncodeHotcache_bytes hotcacheMagic_def blob_def)
  have fb: "length (field_bytes f) = 20 + length (hi_Name f) + length (hi_FSTBytes f) +
      32 * length (hi_TermOffsets f) + 4 * length (hi_Doclens f)" for f
    by (simp add: field_bytes_def blob_def length_enc_term_offsets length_put_u32s)
  have mem: "length (field_bytes f) \<le> length (concat (map field_bytes fs))" if "f \<in> set fs" for f
    using that by (induction fs) auto
  show "\<forall>f \<in> set fs. input_wf f"
  proof
    fix f assume "f \<in> set fs"
    then have "length (field_bytes f) < 2 ^ 32" using mem len assms(2) by fastforce
    then show "input_wf f" unfolding fb by (simp add: input_wf_def)
  qed
  have "length fs \<le> length (concat (map field_bytes fs))" by (induction fs) (simp_all add: fb)
  then show "length fs < 2 ^ 32" "length idx < 2 ^ 32" using len assms(2) by simp_all
qed

text \<open>A decoded field gives back what the accumulator held.\<close>

definition built_field ::
  "('w, 'f) vellum \<Rightarrow> 'b roaring \<Rightarrow> 'b FieldAccumulator list \<Rightarrow> 'b FieldAccumulator \<Rightarrow> 'f FieldHotcache \<Rightarrow> bool" where
  "built_field V R flds fa fhc \<longleftrightarrow> fh_Name fhc = fa_Name fa \<and>
      fh_Doclens fhc = fa_Doclens fa \<and> fh_AvgDoclen fhc = avg_doclen (fa_Doclens fa) \<and>
      length (fa_terms fa) < 2 ^ 32 \<and>
      (\<forall>t. LookupTerm V fhc t = Ok (map_of (zip (fa_terms fa)
        (fg_offsets (group_of (seg_groups R flds) (fa_Name fa)))) t)) \<and>
      (\<exists>x. fh_FST fhc = Some x \<and> fh_TermTable fhc = fg_offsets (group_of (seg_groups R flds) (fa_Name fa)) \<and>
        (\<forall>start. v_Iterator V x start = filter (\<lambda>(k, v). start \<le> k)
          (zip (map bytes_of (fa_terms fa)) (map word_of_nat [0..<length (fa_terms fa)]))))"

lemma fst_iterator:
  assumes V: "vellum_ok V" and strict: "sorted_wrt (<) (map bytes_of ts)"
    and build: "fst_build V (zip (map bytes_of ts) (map word_of_nat [0..<length ts])) = Ok d"
    and load: "v_Load V d = Ok x"
  shows "v_Iterator V x start = filter (\<lambda>(k, v). start \<le> k) (zip (map bytes_of ts) (map word_of_nat [0..<length ts]))"
proof -
  let ?kvs = "zip (map bytes_of ts) (map word_of_nat [0..<length ts]) :: (bytes \<times> u64) list"
  have "sorted_wrt (<) (map fst ?kvs)" using strict by simp
  then obtain d' g where "fst_build V ?kvs = Ok d'" "v_Load V d' = Ok g"
    "\<forall>start. v_Iterator V g start = filter (\<lambda>(k, v). start \<le> k) ?kvs"
    using V unfolding vellum_ok_def by blast
  then show ?thesis using build load by simp
qed

lemma map_field_of_names: "length fs = length xs \<Longrightarrow> map fh_Name (map2 field_of fs xs) = map hi_Name fs"
  by (induction fs xs rule: list_induct2) (simp_all add: field_of_def)

lemma built_hotcache:
  assumes R: "roaring_ok R" and V: "vellum_ok V" and fin: "ds_Finalize Z ds = (blks, idx)"
    and wf: "\<forall>fa \<in> set flds. fa_wf R fa" and names: "distinct (map fa_Name flds)"
    and build: "seg_Build R Z V flds ds dc = Ok res" and small: "length (HotcacheBytes res) < 2 ^ 32"
  shows "\<exists>hc. DecodeHotcache V (HotcacheBytes res) spare = Ok hc \<and> hc_DocstoreIdx hc = EncodeIndex idx \<and>
    hc_DocCount hc = dc \<and> hc_NumDocstoreBlocks hc = word_of_nat (length blks) \<and>
    map fh_Name (hc_Fields hc) = map fa_Name flds \<and> (\<forall>n. n \<notin> fa_Name ` set flds \<longrightarrow> hc_Field hc n = None) \<and>
    (\<forall>fa \<in> set flds. \<exists>fhc. fhc \<in> set (hc_Fields hc) \<and> hc_Field hc (fa_Name fa) = Some fhc \<and> built_field V R flds fa fhc)"
proof -
  obtain fs where inputs: "field_inputs V (seg_groups R flds) flds = Ok fs"
    and enc: "EncodeHotcache fs (EncodeIndex idx) dc (word_of_nat (length blks)) = Ok (HotcacheBytes res)"
    using build unfolding seg_Build_Ok [OF R fin] by auto
  note size = hotcache_size [OF enc small]
  have all2: "list_all2 (\<lambda>fa i. field_input V (seg_groups R flds) fa = Ok i) flds fs"
    using inputs by (simp add: field_inputs_Ok)
  have hnames: "map hi_Name fs = map fa_Name flds"
    using all2 by (induction rule: list_all2_induct) (auto simp: field_input_Ok)
  have grp: "fg_terms (group_of (seg_groups R flds) (fa_Name fa)) = fa_terms fa"
    "length (fg_offsets (group_of (seg_groups R flds) (fa_Name fa))) = length (fa_terms fa)"
    if "fa \<in> set flds" for fa
    using field_group(1,2) [OF names that refl] by (simp_all add: seg_groups_def)
  have nth: "field_input V (seg_groups R flds) (flds ! i) = Ok (fs ! i)" if "i < length flds" for i
    using all2 that by (simp add: list_all2_conv_all_nth)
  have len: "length fs = length flds" using all2 by (simp add: list_all2_lengthD)
  have input: "fst_build V (zip (map bytes_of (fa_terms (flds ! i))) (map word_of_nat [0..<length (fa_terms (flds ! i))])) =
      Ok (hi_FSTBytes (fs ! i))"
    "hi_TermOffsets (fs ! i) = fg_offsets (group_of (seg_groups R flds) (fa_Name (flds ! i)))"
    "hi_Doclens (fs ! i) = fa_Doclens (flds ! i)" "hi_AvgDoclen (fs ! i) = avg_doclen (fa_Doclens (flds ! i))"
    "hi_Name (fs ! i) = fa_Name (flds ! i)"
    if i: "i < length flds" for i
    using nth [OF i] grp [of "flds ! i"] i by (auto simp: field_input_Ok)
  have "\<forall>f \<in> set fs. \<exists>x. v_Load V (hi_FSTBytes f) = Ok x"
  proof
    fix f assume "f \<in> set fs"
    then obtain i where i: "i < length flds" "f = fs ! i" by (auto simp: in_set_conv_nth len)
    then have "fa_wf R (flds ! i)" using wf by simp
    then show "\<exists>x. v_Load V (hi_FSTBytes f) = Ok x"
      using fst_build_field [OF V] input(1) [OF i(1)] i(2) by (metis result.inject(1))
  qed
  then obtain xs where xs: "list_all2 (\<lambda>f x. input_wf f \<and> v_Load V (hi_FSTBytes f) = Ok x) fs xs"
    using hotcache_loads size(1) by blast
  let ?hc = "hotcache_of fs xs (EncodeIndex idx) dc (word_of_nat (length blks))"
  have dec: "DecodeHotcache V (HotcacheBytes res) spare = Ok ?hc"
    using xs size(3,2) enc by (rule DecodeHotcache_Encode)
  have xlen: "length xs = length fs" using xs by (simp add: list_all2_lengthD)
  have fields: "hc_Fields ?hc = map2 field_of fs xs" by simp
  have "\<exists>fhc. fhc \<in> set (hc_Fields ?hc) \<and> hc_Field ?hc (fa_Name fa) = Some fhc \<and> built_field V R flds fa fhc"
    if fa: "fa \<in> set flds" for fa
  proof -
    obtain i where i: "i < length flds" "fa = flds ! i" using fa by (auto simp: in_set_conv_nth)
    have load: "v_Load V (hi_FSTBytes (fs ! i)) = Ok (xs ! i)" "input_wf (fs ! i)"
      using xs i len by (auto simp: list_all2_conv_all_nth)
    have strict: "sorted_wrt (<) (map bytes_of (fa_terms fa))" using fa_terms_strict(2) wf fa by blast
    have tlen: "length (hi_TermOffsets (fs ! i)) = length (fa_terms fa)" using input(2) [OF i(1)] grp fa i(2) by simp
    have "LookupTerm V (field_of (fs ! i) (xs ! i)) t = Ok (map_of (zip (fa_terms fa) (hi_TermOffsets (fs ! i))) t)" for t
      using LookupTerm_field [OF V strict tlen _ load] input(1) [OF i(1)] i(2) by simp
    moreover have "hc_Field ?hc (hi_Name (fs ! i)) = Some (field_of (fs ! i) (xs ! i))"
      using names hnames i len xlen by (intro hc_Field_hotcache_of) simp_all
    moreover have "field_of (fs ! i) (xs ! i) \<in> set (hc_Fields ?hc)"
      using i len xlen by (force simp: fields set_conv_nth)
    moreover have "v_Iterator V (xs ! i) start = filter (\<lambda>(k, v). start \<le> k)
        (zip (map bytes_of (fa_terms fa)) (map word_of_nat [0..<length (fa_terms fa)]))" for start
      using fst_iterator [OF V strict _ load(1)] input(1) [OF i(1)] i(2) by simp
    moreover have "length (fa_terms fa) < 2 ^ 32" using load(2) tlen by (simp add: input_wf_def)
    ultimately show ?thesis
      using input [OF i(1)] i(2) by (intro exI [of _ "field_of (fs ! i) (xs ! i)"]) (simp add: field_of_def built_field_def)
  qed
  moreover have "map fh_Name (hc_Fields ?hc) = map fa_Name flds"
    using map_field_of_names [of fs xs] xlen hnames by (simp only: fields)
  moreover have "hc_Field ?hc n = None" if "n \<notin> fa_Name ` set flds" for n
  proof (rule hc_Field_hotcache_none)
    show "distinct (map hi_Name fs)" using names unfolding hnames .
    show "n \<notin> hi_Name ` set fs" using that hnames by (metis image_set)
  qed (rule xlen)
  ultimately show ?thesis using dec by (intro exI [of _ ?hc]) simp
qed

end
