(* ===== verification/Seg_Reader.thy ===== *)
theory Seg_Reader
  imports Seg_Writer Store
begin

text \<open>
  Reading a segment with range requests (\<open>src/pkg/segment/reader.go\<close>). The reader keeps the
  object key and the footer; the store \<open>B\<close> and its state \<open>s\<close> are arguments of every operation.
  Offsets are converted to \<open>int64\<close> as in the code (\<open>sint\<close>), and the arithmetic on block numbers
  wraps at 32 bits. Result: on a segment built by \<open>Build\<close>, the reader finds for every term
  exactly its documents and positions, every docstore block, and iterating over the documents
  visits exactly the live ones in order.
\<close>

section \<open>Operations\<close>

record Reader =
  rd_segKey :: string
  rd_footer :: Footer

definition seg_NewReader :: "'s BlobStore \<Rightarrow> 's \<Rightarrow> string \<Rightarrow> Reader result" where
  "seg_NewReader B s segKey =
     res_bind (res_wrap ''segment reader head'' (bs_Head B s segKey)) (\<lambda>size.
     if size < int FooterSize then Err (ErrMsg ''segment too small'')
     else res_bind (res_wrap ''segment reader footer''
         (bs_GetRange B s segKey (size - int FooterSize) (int FooterSize))) (\<lambda>footerBytes.
       res_bind (DecodeFooter (replicate FooterSize 0 @ footerBytes)) (\<lambda>footer.
       Ok \<lparr>rd_segKey = segKey, rd_footer = footer\<rparr>)))"

definition GetPostings ::
  "'b roaring \<Rightarrow> 's BlobStore \<Rightarrow> 's \<Rightarrow> Reader \<Rightarrow> TermOffsets \<Rightarrow> 'b List result" where
  "GetPostings R B s r to =
     (if PostLen to = 0 then Ok (postings_New R)
      else res_bind (res_wrap ''get postings''
          (bs_GetRange B s (rd_segKey r) (sint (PostOff to)) (sint (PostLen to)))) (\<lambda>data.
        postings_Deserialize R data))"

definition GetPositions ::
  "'s BlobStore \<Rightarrow> 's \<Rightarrow> Reader \<Rightarrow> TermOffsets \<Rightarrow> PositionsEntry list result" where
  "GetPositions B s r to =
     (if PosLen to = 0 then Ok []
      else res_bind (res_wrap ''get positions''
          (bs_GetRange B s (rd_segKey r) (sint (PosOff to)) (sint (PosLen to)))) (\<lambda>data.
        DecodePositions data))"

definition GetDocBlock :: "'s BlobStore \<Rightarrow> 's \<Rightarrow> Reader \<Rightarrow> u32 \<Rightarrow> u32 \<Rightarrow> bytes result" where
  "GetDocBlock B s r blockIdx numBlocks =
     (if numBlocks = 0 then Err (ErrMsg ''GetDocBlock: numBlocks is 0'')
      else let tableOff = DocstoreOffset (rd_footer r);
               tableSize = int (unat (numBlocks + 1)) * 8
      in res_bind (res_wrap ''docstore offset table''
           (bs_GetRange B s (rd_segKey r) (sint tableOff) tableSize)) (\<lambda>tblData.
         if length tblData < unat ((blockIdx + 2) * 8) then Err (ErrMsg ''block index out of range'')
         else res_bind (res_bind (slice_from tblData (unat (blockIdx * 8))) le_u64) (\<lambda>blkRelStart.
           res_bind (res_bind (slice_from tblData (unat ((blockIdx + 1) * 8))) le_u64) (\<lambda>blkRelEnd.
           let blkLen = blkRelEnd - blkRelStart;
               blkAbsStart = sint tableOff + tableSize + sint blkRelStart
           in bs_GetRange B s (rd_segKey r) blkAbsStart (sint blkLen)))))"

fun fetch_blocks :: "'s BlobStore \<Rightarrow> 's \<Rightarrow> Reader \<Rightarrow> u32 \<Rightarrow> nat list \<Rightarrow> bytes list result" where
  "fetch_blocks B s r numBlocks [] = Ok []"
| "fetch_blocks B s r numBlocks (i # is) =
     res_bind (res_wrap ''fetch block'' (GetDocBlock B s r (word_of_nat i) numBlocks)) (\<lambda>blk.
     res_bind (fetch_blocks B s r numBlocks is) (\<lambda>blks. Ok (blk # blks)))"

text \<open>
  The loop over the documents; \<open>fn\<close> may change a state \<open>'m\<close> and its error ends the loop.
\<close>

fun iterate_loop ::
  "'b roaring \<Rightarrow> zstd \<Rightarrow> bytes list \<Rightarrow> BlockEntry list \<Rightarrow> 'b option
     \<Rightarrow> (u32 \<Rightarrow> bytes \<Rightarrow> 'm \<Rightarrow> unit result \<times> 'm) \<Rightarrow> nat list \<Rightarrow> 'm \<Rightarrow> unit result \<times> 'm" where
  "iterate_loop R Z blks dsIdx del fn [] m = (Ok (), m)"
| "iterate_loop R Z blks dsIdx del fn (docID # ids) m =
     (if (case del of None \<Rightarrow> False | Some bm \<Rightarrow> bm_Contains R bm (word_of_nat docID))
      then iterate_loop R Z blks dsIdx del fn ids m
      else if length dsIdx \<le> docID then iterate_loop R Z blks dsIdx del fn ids m
      else case ds_Get Z blks (dsIdx ! docID) of
          Panic \<Rightarrow> (Panic, m)
        | Err e \<Rightarrow> (Err (ErrWrap ''read doc'' e), m)
        | Ok rawJSON \<Rightarrow> st_bind (fn (word_of_nat docID) rawJSON m)
            (\<lambda>_ m. iterate_loop R Z blks dsIdx del fn ids m))"

definition IterateDocs ::
  "'b roaring \<Rightarrow> zstd \<Rightarrow> 's BlobStore \<Rightarrow> 's \<Rightarrow> Reader \<Rightarrow> 'f Hotcache \<Rightarrow> 'b option
     \<Rightarrow> (u32 \<Rightarrow> bytes \<Rightarrow> 'm \<Rightarrow> unit result \<times> 'm) \<Rightarrow> 'm \<Rightarrow> unit result \<times> 'm" where
  "IterateDocs R Z B s r hc del fn m =
     st_bind (res_wrap ''decode docstore index'' (DecodeIndex (hc_DocstoreIdx hc)), m) (\<lambda>dsIdx m.
     st_bind (fetch_blocks B s r (hc_NumDocstoreBlocks hc) [0..<unat (hc_NumDocstoreBlocks hc)], m) (\<lambda>blks m.
     st_bind (zstd_NewReader Z, m) (\<lambda>_ m.
     iterate_loop R Z blks dsIdx del fn [0..<unat (hc_DocCount hc)] m)))"

section \<open>Reading what was built\<close>

text \<open>The store holds a built segment under a key.\<close>

definition stored_segment ::
  "(string \<rightharpoonup> bytes) \<Rightarrow> string \<Rightarrow> 'b roaring \<Rightarrow> 'b FieldAccumulator list \<Rightarrow> bytes list \<Rightarrow> u32 \<Rightarrow> bool" where
  "stored_segment objs key R flds blks dc \<longleftrightarrow>
     objs key = Some (seg_bytes R flds blks dc) \<and> length (seg_bytes R flds blks dc) < 2 ^ 63"

definition built_footer :: "'b roaring \<Rightarrow> 'b FieldAccumulator list \<Rightarrow> bytes list \<Rightarrow> u32 \<Rightarrow> Footer" where
  "built_footer R flds blks dc =
     seg_footer (post_bytes R flds) (pos_bytes flds) (docstore_section blks) (doclens_section flds) dc"

definition built_reader :: "string \<Rightarrow> 'b roaring \<Rightarrow> 'b FieldAccumulator list \<Rightarrow> bytes list \<Rightarrow> u32 \<Rightarrow> Reader" where
  "built_reader key R flds blks dc = \<lparr>rd_segKey = key, rd_footer = built_footer R flds blks dc\<rparr>"

lemma sint_u64: "unat (w :: u64) < 2 ^ 63 \<Longrightarrow> sint w = int (unat w)"
  using sint_of_nat_small [of "unat w"] by simp

lemma pos_entries_wf:
  assumes "fa_wf R fa" and "\<forall>d. length (fa_pos fa t d) \<le> max_u32_slice"
  shows "\<forall>e \<in> set (pos_entries (fa_docpos fa t)). entry_wf e"
proof
  fix e
  assume "e \<in> set (pos_entries (fa_docpos fa t))"
  then obtain d where d: "d \<in> fst ` set (fa_docpos fa t)"
    and e: "e = \<lparr>DocID = d, Positions = sort (the (map_of (fa_docpos fa t) d))\<rparr>"
    by (auto simp: pos_entries_def)
  then have "map_of (fa_docpos fa t) d \<noteq> None" by (simp add: map_of_eq_None_iff)
  then have "the (map_of (fa_docpos fa t) d) = fa_pos fa t d" by (auto simp: fa_pos_def)
  then show "entry_wf e" using assms(2) e by (simp add: entry_wf_def)
qed

context blob_store
begin

lemma NewReader_built:
  assumes "stored_segment (objects s) key R flds blks dc"
  shows "seg_NewReader B s key = Ok (built_reader key R flds blks dc)"
proof -
  let ?seg = "seg_bytes R flds blks dc" and ?f = "built_footer R flds blks dc"
  obtain pre where seg: "?seg = pre @ EncodeFooter ?f"
    by (simp add: seg_bytes_def built_footer_def)
  have obj: "objects s key = Some ?seg" using assms by (simp add: stored_segment_def)
  have "bs_GetRange B s key (int (length pre)) (int FooterSize) = Ok (take FooterSize (drop (length pre) ?seg))"
    using seg by (intro GetRange_in [OF obj]) (simp_all add: FooterSize_def)
  then have "bs_GetRange B s key (int (length ?seg) - int FooterSize) (int FooterSize) = Ok (EncodeFooter ?f)"
    using seg by simp
  then show ?thesis
    using obj seg Head_size [of s key] DecodeFooter_append
    by (simp add: seg_NewReader_def built_reader_def)
qed

lemma GetPostings_built:
  assumes seg: "stored_segment (objects s) key R flds blks dc" and R: "roaring_ok R"
    and i: "i < length (seg_terms flds)" and ft: "seg_terms flds ! i = (fa, t)"
    and pl: "map_of (fa_PostingLists fa) t = Some pl"
  defines "off \<equiv> rec_offsets (word_of_nat (length seg_prefix))
    (word_of_nat (length seg_prefix + length (post_bytes R flds))) (term_recs R 0 0 (seg_terms flds) ! i)"
  shows "\<exists>l. GetPostings R B s (built_reader key R flds blks dc) off = Ok l \<and>
    postings_docs R l = fa_docs R fa t"
proof -
  let ?seg = "seg_bytes R flds blks dc"
  have obj: "objects s key = Some ?seg" and len: "length ?seg < 2 ^ 63"
    using seg by (simp_all add: stored_segment_def)
  note sl = term_slices [OF i len, folded off_def]
  obtain d l where d: "postings_Serialize R pl = Ok d" "d \<noteq> []" "postings_Deserialize R d = Ok l"
    "postings_docs R l = postings_docs R pl" by (rule postings_Serialize_ok [OF R])
  then have ser: "ser R (fa, t) = d" using pl by (simp add: ser_def)
  have ne: "PostLen off \<noteq> 0" using sl(5) d(2) ser ft by (auto simp: unat_eq_0)
  then have "bs_GetRange B s key (int (unat (PostOff off))) (int (unat (PostLen off))) = Ok d"
    using GetRange_in [OF obj _ sl(1)] sl(2) ser ft by (simp add: unat_gt_0)
  moreover have "sint (PostOff off) = int (unat (PostOff off))" "sint (PostLen off) = int (unat (PostLen off))"
    using sl(1) len by (intro sint_u64; linarith)+
  ultimately show ?thesis using ne d pl by (simp add: GetPostings_def built_reader_def fa_docs_def)
qed

lemma GetPositions_built:
  assumes seg: "stored_segment (objects s) key R flds blks dc" and wf: "fa_wf R fa"
    and i: "i < length (seg_terms flds)" and ft: "seg_terms flds ! i = (fa, t)"
    and size: "\<forall>d. length (fa_pos fa t d) \<le> max_u32_slice"
  defines "off \<equiv> rec_offsets (word_of_nat (length seg_prefix))
    (word_of_nat (length seg_prefix + length (post_bytes R flds))) (term_recs R 0 0 (seg_terms flds) ! i)"
  shows "GetPositions B s (built_reader key R flds blks dc) off = Ok (pos_entries (fa_docpos fa t))"
proof -
  let ?seg = "seg_bytes R flds blks dc" and ?es = "pos_entries (fa_docpos fa t)"
  have obj: "objects s key = Some ?seg" and len: "length ?seg < 2 ^ 63"
    using seg by (simp_all add: stored_segment_def)
  note sl = term_slices [OF i len, folded off_def]
  have dec: "DecodePositions (EncodePositions ?es) = Ok ?es"
    using DecodePositions_concat pos_entries_wf [OF wf size] by (simp add: EncodePositions_concat)
  have ser: "posser (fa, t) = EncodePositions ?es" by (simp add: posser_def)
  show ?thesis
  proof (cases "PosLen off = 0")
    case True
    then have "EncodePositions ?es = []" using sl(6) ser ft by simp
    then show ?thesis using dec True by (simp add: GetPositions_def DecodePositions.simps)
  next
    case False
    have "bs_GetRange B s key (int (unat (PosOff off))) (int (unat (PosLen off))) = Ok (EncodePositions ?es)"
      using GetRange_in [OF obj _ sl(3)] sl(4) ser ft False by (simp add: unat_gt_0)
    moreover have "sint (PosOff off) = int (unat (PosOff off))" "sint (PosLen off) = int (unat (PosLen off))"
      using sl(3) len by (intro sint_u64; linarith)+
    ultimately show ?thesis using dec False by (simp add: GetPositions_def built_reader_def)
  qed
qed


lemma GetDocBlock_built:
  assumes seg: "stored_segment (objects s) key R flds blks dc" and i: "i < length blks"
    and n: "Suc (length blks) < 2 ^ 29" and ne: "[] \<notin> set blks"
  shows "GetDocBlock B s (built_reader key R flds blks dc) (word_of_nat i) (word_of_nat (length blks)) =
    Ok (blks ! i)"
proof -
  let ?seg = "seg_bytes R flds blks dc" and ?n = "length blks"
  let ?T = "8 + length (post_bytes R flds) + length (pos_bytes flds)"
  let ?a = "length (concat (take i blks))"
  obtain pre post where sec: "?seg = pre @ block_offsets 0 blks @ concat blks @ post" and pre: "length pre = ?T"
  proof (rule that [of "seg_prefix @ post_bytes R flds @ pos_bytes flds"
        "doclens_section flds @ EncodeFooter (built_footer R flds blks dc)"])
  qed (simp_all add: length_seg_prefix seg_bytes_def built_footer_def, simp add: docstore_section_def)
  have obj: "objects s key = Some ?seg" and len: "length ?seg < 2 ^ 63"
    using seg by (simp_all add: stored_segment_def)
  have tot: "?T + 8 * Suc ?n + length (concat blks) < 2 ^ 63" using len unfolding sec by (simp add: pre)
  have off: "sint (DocstoreOffset (built_footer R flds blks dc)) = int ?T"
  proof -
    have "DocstoreOffset (built_footer R flds blks dc) = word_of_nat ?T"
      by (simp add: built_footer_def seg_footer_def Let_def length_seg_prefix)
    moreover have "sint (word_of_nat ?T :: u64) = int ?T" using tot by (intro sint_of_nat_small) linarith
    ultimately show ?thesis by metis
  qed
  have numB: "unat (word_of_nat ?n + 1 :: u32) = Suc ?n" "(word_of_nat ?n :: u32) \<noteq> 0"
    using n i unat_u32_of_nat [of "Suc ?n"] unat_u32_of_nat [of ?n] by (auto simp: add.commute)
  have idx: "unat (word_of_nat i * 8 :: u32) = 8 * i" "unat ((word_of_nat i + 1) * 8 :: u32) = 8 * Suc i"
    "unat ((word_of_nat i + 2) * 8 :: u32) = 8 * (i + 2)"
    using n i unat_u32_of_nat [of "8 * i"] unat_u32_of_nat [of "8 * Suc i"] unat_u32_of_nat [of "8 * (i + 2)"]
    by (simp_all add: algebra_simps)
  have tbl: "bs_GetRange B s key (int ?T) (int (Suc ?n) * 8) = Ok (block_offsets 0 blks)"
    using GetRange_in [OF obj, where off = ?T and n = "8 * Suc ?n"] sec pre by (simp add: algebra_simps)
  have rel: "res_bind (slice_from (block_offsets 0 blks) (8 * j)) le_u64 =
      Ok (word_of_nat (length (concat (take j blks))))" if "j \<le> ?n" for j
    using that block_offsets_nth [OF that, of 0] by (simp add: slice_from_def le_u64_def)
  have split: "length (concat (take (Suc i) blks)) = ?a + length (blks ! i)"
    using i by (simp add: take_Suc_conv_app_nth)
  have bound: "?a + length (blks ! i) \<le> length (concat blks)" using slice_concat_bound [OF i] .
  have blk: "take (length (blks ! i)) (drop (?T + 8 * Suc ?n + ?a) ?seg) = blks ! i"
    using slice_concat [OF i] bound unfolding sec by (simp add: pre)
  have "bs_GetRange B s key (int (?T + 8 * Suc ?n + ?a)) (int (length (blks ! i))) = Ok (blks ! i)"
    using GetRange_in [OF obj, where off = "?T + 8 * Suc ?n + ?a" and n = "length (blks ! i)"] bound sec pre blk ne nth_mem [OF i] by fastforce
  then have fin: "bs_GetRange B s key (int ?T + int (Suc ?n) * 8 + int ?a) (int (length (blks ! i))) = Ok (blks ! i)"
    by (simp add: algebra_simps)
  have sints: "sint (word_of_nat ?a :: u64) = int ?a"
    "sint (word_of_nat (?a + length (blks ! i)) - word_of_nat ?a :: u64) = int (length (blks ! i))"
    using bound tot by (simp_all add: sint_of_nat_small)
  have "\<not> length (block_offsets 0 blks) < unat ((word_of_nat i + 2) * 8 :: u32)" using i idx(3) by simp
  then show ?thesis
    using tbl rel [of i] rel [of "Suc i"] fin off numB idx i sints split
    by (simp add: GetDocBlock_def built_reader_def Let_def del: of_nat_Suc)
qed

lemma fetch_blocks_built:
  assumes seg: "stored_segment (objects s) key R flds blks dc" and n: "Suc (length blks) < 2 ^ 29" and ne: "[] \<notin> set blks"
  shows "fetch_blocks B s (built_reader key R flds blks dc) (word_of_nat (length blks)) [0..<length blks] = Ok blks"
proof -
  have "\<forall>i \<in> set is. i < length blks \<Longrightarrow>
      fetch_blocks B s (built_reader key R flds blks dc) (word_of_nat (length blks)) is = Ok (map ((!) blks) is)" for "is"
    by (induction "is") (simp_all add: GetDocBlock_built [OF seg _ n ne])
  from this [of "[0..<length blks]"] show ?thesis by (simp add: map_nth)
qed

end

text \<open>The calls a visit of the live documents makes.\<close>

fun visit_docs ::
  "(u32 \<Rightarrow> bytes \<Rightarrow> 'm \<Rightarrow> unit result \<times> 'm) \<Rightarrow> (u32 \<times> bytes) list \<Rightarrow> 'm \<Rightarrow> unit result \<times> 'm" where
  "visit_docs fn [] m = (Ok (), m)"
| "visit_docs fn ((d, raw) # ds) m = st_bind (fn d raw m) (\<lambda>_ m. visit_docs fn ds m)"

definition live_docs :: "'b roaring \<Rightarrow> 'b option \<Rightarrow> bytes list \<Rightarrow> (u32 \<times> bytes) list" where
  "live_docs R del docs =
     filter (\<lambda>(d, _). case del of None \<Rightarrow> True | Some bm \<Rightarrow> d \<notin> bm_docs R bm)
       (zip (map word_of_nat [0..<length docs]) docs)"

lemma iterate_loop_docs:
  assumes R: "roaring_ok R" and len: "length idx = length docs"
    and get: "\<forall>i < length docs. ds_Get Z blks (idx ! i) = Ok (docs ! i)"
  shows "k \<le> length docs \<Longrightarrow> iterate_loop R Z blks idx del fn [k..<length docs] m =
    visit_docs fn (filter (\<lambda>(d, _). case del of None \<Rightarrow> True | Some bm \<Rightarrow> d \<notin> bm_docs R bm)
      (zip (map word_of_nat [k..<length docs]) (drop k docs))) m"
proof (induction "length docs - k" arbitrary: k m)
  case (Suc n)
  then have k: "k < length docs" by simp
  have upt: "[k..<length docs] = k # [Suc k..<length docs]" using k by (rule upt_conv_Cons)
  have drop: "drop k docs = docs ! k # drop (Suc k) docs" using k by (simp add: Cons_nth_drop_Suc)
  have IH: "iterate_loop R Z blks idx del fn [Suc k..<length docs] m' =
      visit_docs fn (filter (\<lambda>(d, _). case del of None \<Rightarrow> True | Some bm \<Rightarrow> d \<notin> bm_docs R bm)
        (zip (map word_of_nat [Suc k..<length docs]) (drop (Suc k) docs))) m'" for m'
    using Suc.hyps k by simp
  note IH' = ext [OF IH]
  show ?case
  proof (cases "case del of None \<Rightarrow> False | Some bm \<Rightarrow> (word_of_nat k :: u32) \<in> bm_docs R bm")
    case True
    then obtain bm where "del = Some bm" "(word_of_nat k :: u32) \<in> bm_docs R bm"
      by (auto split: option.splits)
    then show ?thesis using IH unfolding upt drop by (simp add: roaring_Contains [OF R])
  next
    case False
    then have "(case del of None \<Rightarrow> True | Some bm \<Rightarrow> (word_of_nat k :: u32) \<notin> bm_docs R bm)"
      and "\<not> (case del of None \<Rightarrow> False | Some bm \<Rightarrow> bm_Contains R bm (word_of_nat k))"
      by (auto simp: roaring_Contains [OF R] split: option.splits)
    then show ?thesis using get k len unfolding upt drop by (simp add: IH')
  qed
qed simp

context blob_store
begin

lemma IterateDocs_built:
  assumes seg: "stored_segment (objects s) key R flds blks dc" and R: "roaring_ok R" and Z: "zstd_ok Z"
    and w: "ds_NewWriter Z = Ok w" and docs: "\<forall>d \<in> set docs. length d \<le> ds_max_doc"
    and fin: "ds_Finalize Z (ds_AddAll Z w 0 docs) = (blks, idx)"
    and n: "Suc (length docs) < 2 ^ 29"
    and hc: "hc_DocstoreIdx hc = EncodeIndex idx" "hc_NumDocstoreBlocks hc = word_of_nat (length blks)"
      "hc_DocCount hc = word_of_nat (length docs)"
  shows "IterateDocs R Z B s (built_reader key R flds blks dc) hc del fn m = visit_docs fn (live_docs R del docs) m"
proof -
  have st: "length idx = length docs" "length blks \<le> length docs"
    "\<forall>i < length docs. ds_Get Z blks (idx ! i) = Ok (docs ! i)"
    using ds_store_roundtrip [OF Z w docs _ fin] n by auto
  have "unat (word_of_nat (length blks) :: u32) = length blks" "unat (word_of_nat (length docs) :: u32) = length docs"
    using n st(2) by (simp_all add: unat_u32_of_nat)
  moreover have "fetch_blocks B s (built_reader key R flds blks dc) (word_of_nat (length blks)) [0..<length blks] = Ok blks"
    using seg n st(2) ds_blocks_nonempty [OF Z w fin] by (intro fetch_blocks_built) simp_all
  moreover have "zstd_NewReader Z = Ok ()" using Z by (simp add: zstd_ok_def)
  ultimately show ?thesis
    using hc iterate_loop_docs [OF R st(1,3), of 0 del fn m]
    by (simp add: IterateDocs_def DecodeIndex_EncodeIndex live_docs_def)
qed


lemma term_served:
  assumes seg: "stored_segment (objects s) key R flds blks dc" and R: "roaring_ok R"
    and wf: "fa_wf R fa" and names: "distinct (map fa_Name flds)" and fa: "fa \<in> set flds"
    and size: "\<forall>t d. length (fa_pos fa t d) \<le> max_u32_slice" and t: "t \<in> set (fa_terms fa)"
    and look: "map_of (zip (fa_terms fa) (fg_offsets (group_of (seg_groups R flds) (fa_Name fa)))) t = Some off"
  shows "(\<exists>l. GetPostings R B s (built_reader key R flds blks dc) off = Ok l \<and> postings_docs R l = fa_docs R fa t) \<and>
    GetPositions B s (built_reader key R flds blks dc) off = Ok (pos_entries (fa_docpos fa t))"
proof -
  note fg = field_group [OF names fa refl, where R = R and pb = "word_of_nat (length seg_prefix)"
      and qb = "word_of_nat (length seg_prefix + length (post_bytes R flds))", folded seg_groups_def]
  obtain i where i: "i < length (seg_terms flds)" "seg_terms flds ! i = (fa, t)"
    and "map_of (zip (fa_terms fa) (fg_offsets (group_of (seg_groups R flds) (fa_Name fa)))) t =
      Some (rec_offsets (word_of_nat (length seg_prefix))
        (word_of_nat (length seg_prefix + length (post_bytes R flds))) (term_recs R 0 0 (seg_terms flds) ! i))"
    using fg(3) [OF t] fg(1) by auto
  then have off: "off = rec_offsets (word_of_nat (length seg_prefix))
        (word_of_nat (length seg_prefix + length (post_bytes R flds))) (term_recs R 0 0 (seg_terms flds) ! i)"
    using look by simp
  have "map_of (fa_PostingLists fa) t \<noteq> None" using t by (simp add: fa_terms_def map_of_eq_None_iff)
  then obtain pl where "map_of (fa_PostingLists fa) t = Some pl" by auto
  then show ?thesis
    using GetPostings_built [OF seg R i] GetPositions_built [OF seg wf i] size unfolding off by blast
qed

end

text \<open>
  A reader and the hotcache entry of a field give back what an accumulator held: no entry for a
  term that does not occur, and otherwise its documents and its positions.
\<close>

definition serves_field ::
  "('w, 'f) vellum \<Rightarrow> 'b roaring \<Rightarrow> 's BlobStore \<Rightarrow> 's \<Rightarrow> Reader \<Rightarrow> 'f FieldHotcache \<Rightarrow> 'b FieldAccumulator \<Rightarrow> bool" where
  "serves_field V R B s rd fhc fa \<longleftrightarrow>
     fh_Name fhc = fa_Name fa \<and> fh_Doclens fhc = fa_Doclens fa \<and> fh_AvgDoclen fhc = avg_doclen (fa_Doclens fa) \<and>
     (\<forall>t. if fa_docs R fa t = {} then LookupTerm V fhc t = Ok None
       else \<exists>to l. LookupTerm V fhc t = Ok (Some to) \<and> GetPostings R B s rd to = Ok l \<and>
         postings_docs R l = fa_docs R fa t \<and> GetPositions B s rd to = Ok (pos_entries (fa_docpos fa t)))"

lemma fa_terms_docs: "fa_wf R fa \<Longrightarrow> t \<in> set (fa_terms fa) \<longleftrightarrow> fa_docs R fa t \<noteq> {}"
  by (simp add: fa_wf_def fa_terms_def)

context blob_store
begin

lemma built_field_serves:
  assumes seg: "stored_segment (objects s) key R flds blks dc" and R: "roaring_ok R"
    and wf: "fa_wf R fa" and names: "distinct (map fa_Name flds)" and fa: "fa \<in> set flds"
    and size: "\<forall>t d. length (fa_pos fa t d) \<le> max_u32_slice"
    and bf: "built_field V R flds fa fhc"
  shows "serves_field V R B s (built_reader key R flds blks dc) fhc fa"
proof -
  let ?offs = "fg_offsets (group_of (seg_groups R flds) (fa_Name fa))"
  have len: "length ?offs = length (fa_terms fa)"
    using field_group(2) [OF names fa refl] by (simp add: seg_groups_def)
  have "if fa_docs R fa t = {} then LookupTerm V fhc t = Ok None
      else \<exists>to l. LookupTerm V fhc t = Ok (Some to) \<and>
        GetPostings R B s (built_reader key R flds blks dc) to = Ok l \<and> postings_docs R l = fa_docs R fa t \<and>
        GetPositions B s (built_reader key R flds blks dc) to = Ok (pos_entries (fa_docpos fa t))" for t
  proof (cases "fa_docs R fa t = {}")
    case True
    then have "map_of (zip (fa_terms fa) ?offs) t = None"
      using fa_terms_docs [OF wf] len by (simp add: map_of_zip_is_None)
    then show ?thesis using True bf by (simp add: built_field_def)
  next
    case False
    then have t: "t \<in> set (fa_terms fa)" using fa_terms_docs [OF wf] by blast
    then have "map_of (zip (fa_terms fa) ?offs) t \<noteq> None" using len by (simp add: map_of_zip_is_None)
    then obtain to where "map_of (zip (fa_terms fa) ?offs) t = Some to" by auto
    then show ?thesis
      using term_served [OF seg R wf names fa size t] False bf by (auto simp: built_field_def)
  qed
  then show ?thesis using bf unfolding serves_field_def built_field_def by blast
qed

end

section \<open>Properties\<close>

text \<open>C21: A segment that was built and stored is read back faithfully: the reader opens it, its
  hotcache decodes, and for every field and every term the lookup finds nothing when the term does
  not occur and otherwise leads to exactly the documents and the sorted positions that the
  accumulator had collected; the lengths of the documents are kept too. (Segment below 2^63 bytes,
  hotcache below 2^32.)\<close>

theorem segment_index_roundtrip:
  assumes store: "blob_store B objects" and R: "roaring_ok R" and V: "vellum_ok V"
    and wf: "\<forall>fa \<in> set flds. fa_wf R fa" and size: "\<forall>fa \<in> set flds. \<forall>t d. length (fa_pos fa t d) \<le> max_u32_slice"
    and names: "distinct (map fa_Name flds)" and build: "seg_Build R Z V flds ds dc = Ok res"
    and obj: "objects s key = Some (SegBytes res)" "length (SegBytes res) < 2 ^ 63" "length (HotcacheBytes res) < 2 ^ 32"
  shows "\<exists>rd hc. seg_NewReader B s key = Ok rd \<and> DecodeHotcache V (HotcacheBytes res) spare = Ok hc \<and>
    hc_DocCount hc = dc \<and>
    (\<forall>fa \<in> set flds. \<exists>fhc. hc_Field hc (fa_Name fa) = Some fhc \<and> serves_field V R B s rd fhc fa)"
proof -
  obtain blks idx where fin: "ds_Finalize Z ds = (blks, idx)" by fastforce
  have "SegBytes res = seg_bytes R flds blks dc" using build unfolding seg_Build_Ok [OF R fin] by auto
  then have seg: "stored_segment (objects s) key R flds blks dc" using obj by (simp add: stored_segment_def)
  obtain hc where hc: "DecodeHotcache V (HotcacheBytes res) spare = Ok hc" "hc_DocCount hc = dc"
    and fields: "\<forall>fa \<in> set flds. \<exists>fhc. fhc \<in> set (hc_Fields hc) \<and> hc_Field hc (fa_Name fa) = Some fhc \<and>
      built_field V R flds fa fhc"
    using built_hotcache [OF R V fin wf names build obj(3)] by blast
  have "\<exists>fhc. hc_Field hc (fa_Name fa) = Some fhc \<and>
      serves_field V R B s (built_reader key R flds blks dc) fhc fa" if fa: "fa \<in> set flds" for fa
  proof -
    obtain fhc where "hc_Field hc (fa_Name fa) = Some fhc" "built_field V R flds fa fhc"
      using fields fa by blast
    moreover have "fa_wf R fa" "\<forall>t d. length (fa_pos fa t d) \<le> max_u32_slice" using wf size fa by blast+
    ultimately show ?thesis using blob_store.built_field_serves [OF store seg R _ names fa] by blast
  qed
  then show ?thesis using hc blob_store.NewReader_built [OF store seg] by blast
qed

text \<open>C22: Iterating over a stored segment calls the callback exactly for the documents that are not
  in the delete bitmap, in the order they were added and with their original bytes, up to the first
  error of the callback.\<close>

theorem segment_docs_roundtrip:
  assumes store: "blob_store B objects" and R: "roaring_ok R" and V: "vellum_ok V" and Z: "zstd_ok Z"
    and wf: "\<forall>fa \<in> set flds. fa_wf R fa" and names: "distinct (map fa_Name flds)"
    and w: "ds_NewWriter Z = Ok w" and docs: "\<forall>d \<in> set docs. length d \<le> ds_max_doc" "Suc (length docs) < 2 ^ 29"
    and build: "seg_Build R Z V flds (ds_AddAll Z w 0 docs) (word_of_nat (length docs)) = Ok res"
    and obj: "objects s key = Some (SegBytes res)" "length (SegBytes res) < 2 ^ 63" "length (HotcacheBytes res) < 2 ^ 32"
  shows "\<exists>rd hc. seg_NewReader B s key = Ok rd \<and> DecodeHotcache V (HotcacheBytes res) spare = Ok hc \<and>
    IterateDocs R Z B s rd hc del fn m = visit_docs fn (live_docs R del docs) m"
proof -
  obtain blks idx where fin: "ds_Finalize Z (ds_AddAll Z w 0 docs) = (blks, idx)" by fastforce
  have "SegBytes res = seg_bytes R flds blks (word_of_nat (length docs))"
    using build unfolding seg_Build_Ok [OF R fin] by auto
  then have seg: "stored_segment (objects s) key R flds blks (word_of_nat (length docs))"
    using obj by (simp add: stored_segment_def)
  obtain hc where dec: "DecodeHotcache V (HotcacheBytes res) spare = Ok hc"
    and hc: "hc_DocstoreIdx hc = EncodeIndex idx" "hc_NumDocstoreBlocks hc = word_of_nat (length blks)"
      "hc_DocCount hc = word_of_nat (length docs)"
    using built_hotcache [where spare = spare, OF R V fin wf names build obj(3)] by blast
  have "IterateDocs R Z B s (built_reader key R flds blks (word_of_nat (length docs))) hc del fn m =
      visit_docs fn (live_docs R del docs) m"
    by (rule blob_store.IterateDocs_built [OF store seg R Z w docs(1) fin docs(2) hc])
  then show ?thesis
    using dec blob_store.NewReader_built [OF store seg]
    by (intro exI [of _ "built_reader key R flds blks (word_of_nat (length docs))"] exI [of _ hc]) simp
qed

text \<open>A one-field accumulator to run the model on.\<close>

definition example_acc :: "u32 list FieldAccumulator" where
  "example_acc = SetDoclen (AddToken list_roaring (NewFieldAccumulator ''body'') 0 ''cat'' 0) 0 1"

lemma example_acc_wf: "fa_wf list_roaring example_acc"
  by (simp add: example_acc_def AddToken_wf list_roaring_ok fa_wf_New)

lemma example_acc_pos: "fa_pos example_acc t d = (if t = ''cat'' \<and> d = 0 then [0] else [])"
  by (simp add: example_acc_def AddToken_pos) (simp add: NewFieldAccumulator_def fa_pos_def fa_docpos_def)

definition example_ds :: ds_Writer where
  "example_ds = \<lparr>blocks = [], index = [], curBuf = [], curDocs = 0, curStart = 0\<rparr>"

lemma example_lists:
  "fa_PostingLists example_acc = [(''cat'', List [0])]" "fa_docpos example_acc ''cat'' = [(0, [0])]"
  "fa_Name example_acc = ''body''" "fa_Doclens example_acc = [1]" "fa_terms example_acc = [''cat'']"
  by (simp_all add: example_acc_def AddToken_def SetDoclen_def NewFieldAccumulator_def postings_New_def
    postings_Add_def list_roaring_def fa_docpos_def fa_terms_def Let_def)

lemma example_ser:
  "ser list_roaring (example_acc, ''cat'') = [1, 0, 0, 0, 0]" "posser (example_acc, ''cat'') = [0, 1, 0]"
proof -
  have z: "put_u32 0 = [0, 0, 0, 0]" "EncodePositions [\<lparr>DocID = 0, Positions = [0]\<rparr>] = [0, 1, 0]" by code_simp+
  show "ser list_roaring (example_acc, ''cat'') = [1, 0, 0, 0, 0]"
    by (simp add: ser_def example_lists postings_Serialize_def list_roaring_def z)
  show "posser (example_acc, ''cat'') = [0, 1, 0]"
    by (simp add: posser_def example_lists pos_entries_def z)
qed

lemma example_build:
  "\<exists>res. seg_Build list_roaring id_zstd list_vellum [example_acc] (ds_AddAll id_zstd example_ds 0 [[0x31]]) 1 = Ok res \<and>
    length (SegBytes res) < 2 ^ 63 \<and> length (HotcacheBytes res) < 2 ^ 32"
proof -
  let ?fg = "group_of (seg_groups list_roaring [example_acc]) ''body''"
  have fin: "ds_Finalize id_zstd (ds_AddAll id_zstd example_ds 0 [[0x31]]) =
      ([[1, 0, 0, 0, 0x31]], [\<lparr>Block = 0, Offset = 0\<rparr>])"
  proof -
    have one: "put_u32 1 = [1, 0, 0, 0]" by code_simp
    show ?thesis
      by (simp add: example_ds_def ds_Finalize_def ds_Add_def ds_flushBlock_def id_zstd_def one blockSize_def Let_def)
  qed
  have terms: "seg_terms [example_acc] = [(example_acc, ''cat'')]"
    by (simp add: seg_terms_def example_lists)
  have seg: "length (seg_bytes list_roaring [example_acc] [[1, 0, 0, 0, 0x31]] 1) < 2 ^ 63"
    by (simp add: seg_bytes_def length_seg_prefix post_bytes_def pos_bytes_def terms example_ser
      docstore_section_def doclens_section_def example_lists FooterSize_def)
  have fg: "fg_terms ?fg = [''cat'']" "length (fg_offsets ?fg) = 1"
    using field_group(1,2) [of "[example_acc]" example_acc, OF _ _ refl]
    by (simp_all add: seg_groups_def example_lists)
  obtain inp where inp: "field_input list_vellum (seg_groups list_roaring [example_acc]) example_acc = Ok inp"
    "length (hi_FSTBytes inp) < 100" "length (hi_TermOffsets inp) = 1" "hi_Doclens inp = [1]" "hi_Name inp = ''body''"
    using fg by (simp add: field_input_Ok example_lists list_vellum_build enc_kv_def bytes_of_def)
  have "length (field_bytes inp) < 300"
    using inp by (simp add: field_bytes_def blob_def length_enc_term_offsets)
  then show ?thesis
    using inp seg unfolding seg_Build_Ok [OF list_roaring_ok fin]
    by (auto simp: EncodeHotcache_bytes hotcacheMagic_def blob_def)
qed

theorem segment_index_roundtrip_witness:
  "\<exists>s rd hc fhc to l. seg_NewReader mem_BlobStore s ''k'' = Ok rd \<and> hc_Field hc ''body'' = Some fhc \<and>
    LookupTerm list_vellum fhc ''cat'' = Ok (Some to) \<and> GetPostings list_roaring mem_BlobStore s rd to = Ok l \<and>
    postings_docs list_roaring l = {0}"
proof -
  obtain res where res: "seg_Build list_roaring id_zstd list_vellum [example_acc] (ds_AddAll id_zstd example_ds 0 [[0x31]]) 1 = Ok res"
    "length (SegBytes res) < 2 ^ 63" "length (HotcacheBytes res) < 2 ^ 32"
    using example_build by blast
  let ?s = "\<lparr>ms_objects = [(''k'', SegBytes res)], ms_RangeLog = []\<rparr>"
  have obj: "mem_content ?s ''k'' = Some (SegBytes res)" by (simp add: mem_content_def)
  have docs: "fa_docs list_roaring example_acc ''cat'' = {0}"
    by (simp add: fa_docs_def example_lists postings_docs_def list_roaring_docs)
  have "\<exists>rd hc. seg_NewReader mem_BlobStore ?s ''k'' = Ok rd \<and>
      DecodeHotcache list_vellum (HotcacheBytes res) [] = Ok hc \<and> hc_DocCount hc = 1 \<and>
      (\<forall>fa \<in> set [example_acc]. \<exists>fhc. hc_Field hc (fa_Name fa) = Some fhc \<and>
        serves_field list_vellum list_roaring mem_BlobStore ?s rd fhc fa)"
    by (rule segment_index_roundtrip [OF mem.blob_store_axioms list_roaring_ok list_vellum_ok _ _ _ res(1) obj res(2,3)])
      (simp_all add: example_acc_wf example_acc_pos max_u32_slice_def)
  then obtain rd hc fhc where "seg_NewReader mem_BlobStore ?s ''k'' = Ok rd" "hc_Field hc ''body'' = Some fhc"
    "serves_field list_vellum list_roaring mem_BlobStore ?s rd fhc example_acc"
    by (auto simp: example_lists)
  then show ?thesis using docs unfolding serves_field_def by (metis insert_not_empty)
qed

theorem segment_docs_roundtrip_witness:
  "\<exists>s rd hc. seg_NewReader mem_BlobStore s ''k'' = Ok rd \<and>
    IterateDocs list_roaring id_zstd mem_BlobStore s rd (hc :: (bytes \<times> u64) list Hotcache) None
      (\<lambda>d raw m. (Ok (), m @ [raw])) [] = (Ok (), [[0x31]])"
proof -
  obtain res where res: "seg_Build list_roaring id_zstd list_vellum [example_acc] (ds_AddAll id_zstd example_ds 0 [[0x31]]) 1 = Ok res"
    "length (SegBytes res) < 2 ^ 63" "length (HotcacheBytes res) < 2 ^ 32"
    using example_build by blast
  let ?s = "\<lparr>ms_objects = [(''k'', SegBytes res)], ms_RangeLog = []\<rparr>"
  have obj: "mem_content ?s ''k'' = Some (SegBytes res)" by (simp add: mem_content_def)
  have w: "ds_NewWriter id_zstd = Ok example_ds"
    by (simp add: ds_NewWriter_def id_zstd_def example_ds_def)
  have "\<exists>rd hc. seg_NewReader mem_BlobStore ?s ''k'' = Ok rd \<and>
      DecodeHotcache list_vellum (HotcacheBytes res) [] = Ok hc \<and>
      IterateDocs list_roaring id_zstd mem_BlobStore ?s rd hc None (\<lambda>d raw m. (Ok (), m @ [raw])) [] =
        visit_docs (\<lambda>d raw m. (Ok (), m @ [raw])) (live_docs list_roaring None [[0x31]]) []"
    by (rule segment_docs_roundtrip [OF mem.blob_store_axioms list_roaring_ok list_vellum_ok id_zstd_ok _ _ w
        _ _ _ obj res(2,3), where docs = "[[0x31]]" and flds = "[example_acc]"])
      (use res(1) in \<open>simp_all add: example_acc_wf ds_max_doc_def del: ds_AddAll.simps\<close>)
  then show ?thesis by (auto simp: live_docs_def)
qed

end
