(* ===== verification/Memtable.thy ===== *)
theory Memtable
  imports Schema Analyze Seg_Writer
begin

text \<open>
  The in-memory table (\<open>src/pkg/index/memtable.go\<close>) that collects documents before a flush. The
  JSON parser \<open>fastjson\<close> is the parameter \<open>FJ\<close>: parsing a document, taking a member of an
  object, and the bytes of a string value (nothing for other values). The tokenizer is the
  argument \<open>tok\<close>, Go's interface value; \<open>U\<close> supplies \<open>strings.ToLower\<close>. The parser pool is
  left out.

  Result: after adding documents one by one, the accumulator of every text or keyword field holds,
  for every term and document, exactly the positions at which the term occurs in that document,
  and the document store holds the documents; a document that does not parse changes nothing.
\<close>

section \<open>Operations\<close>

record 'v fastjson =
  fj_ParseBytes :: "bytes \<Rightarrow> 'v result"
  fj_Get :: "'v \<Rightarrow> string \<Rightarrow> 'v option"
  fj_GetStringBytes :: "'v \<Rightarrow> bytes option"

record 'b Memtable =
  mt_schema :: Schema
  mt_fields :: "(string \<times> 'b FieldAccumulator) list"
  mt_ds :: ds_Writer
  mt_docCount :: u32
  mt_rawBytes :: int

definition indexed_field :: "Field \<Rightarrow> bool" where
  "indexed_field f \<longleftrightarrow> fd_Type f = FieldTypeText \<or> fd_Type f = FieldTypeKeyword"

definition new_fields :: "(string \<times> 'b FieldAccumulator) list \<Rightarrow> Field \<Rightarrow> (string \<times> 'b FieldAccumulator) list" where
  "new_fields flds f =
     (if indexed_field f then AList.update (fd_Name f) (NewFieldAccumulator (fd_Name f)) flds else flds)"

definition NewMemtable :: "zstd \<Rightarrow> Schema \<Rightarrow> 'b Memtable result" where
  "NewMemtable Z sc =
     res_bind (ds_NewWriter Z) (\<lambda>ds.
     Ok \<lparr>mt_schema = sc, mt_fields = foldl new_fields [] (sc_Fields sc), mt_ds = ds,
         mt_docCount = 0, mt_rawBytes = 0\<rparr>)"

definition add_tokens :: "'b roaring \<Rightarrow> u32 \<Rightarrow> (string \<times> u32) list \<Rightarrow> 'b FieldAccumulator \<Rightarrow> 'b FieldAccumulator" where
  "add_tokens R docID tks fa = foldl (\<lambda>fa (term, pos). AddToken R fa docID term pos) fa tks"

definition mt_add_field ::
  "'b roaring \<Rightarrow> 'v fastjson \<Rightarrow> unicode \<Rightarrow> (string \<Rightarrow> Token list) \<Rightarrow> u32 \<Rightarrow> 'v
     \<Rightarrow> (string \<times> 'b FieldAccumulator) list \<Rightarrow> Field \<Rightarrow> (string \<times> 'b FieldAccumulator) list" where
  "mt_add_field R FJ U tok docID v flds f =
     (case fj_Get FJ v (fd_Name f) of
        None \<Rightarrow> flds
      | Some fv \<Rightarrow>
          if fd_Type f = FieldTypeText then
            (case (fj_GetStringBytes FJ fv, map_of flds (fd_Name f)) of
               (Some sb, Some fa) \<Rightarrow>
                 (let tokens = tok (string_of sb);
                      fa = add_tokens R docID (map (\<lambda>t. (tk_Term t, tk_Position t)) tokens) fa;
                      fa = SetDoclen fa docID (word_of_nat (length tokens))
                  in AList.update (fd_Name f) fa flds)
             | _ \<Rightarrow> flds)
          else if fd_Type f = FieldTypeKeyword then
            (case (fj_GetStringBytes FJ fv, map_of flds (fd_Name f)) of
               (Some sb, Some fa) \<Rightarrow>
                 (let fa = AddToken R fa docID (uc_ToLower U (string_of sb)) 0;
                      fa = SetDoclen fa docID 1
                  in AList.update (fd_Name f) fa flds)
             | _ \<Rightarrow> flds)
          else flds)"

definition mt_Add ::
  "'b roaring \<Rightarrow> zstd \<Rightarrow> 'v fastjson \<Rightarrow> unicode \<Rightarrow> (string \<Rightarrow> Token list) \<Rightarrow> 'b Memtable \<Rightarrow> bytes
     \<Rightarrow> unit result \<times> 'b Memtable" where
  "mt_Add R Z FJ U tok m rawJSON =
     (case fj_ParseBytes FJ rawJSON of
        Panic \<Rightarrow> (Panic, m)
      | Err e \<Rightarrow> (Err (ErrWrap ''memtable: invalid JSON'' e), m)
      | Ok v \<Rightarrow>
          (let docID = mt_docCount m;
               flds = foldl (mt_add_field R FJ U tok docID v) (mt_fields m) (sc_Fields (mt_schema m))
           in (Ok (), m\<lparr>mt_fields := flds, mt_ds := ds_Add Z (mt_ds m) docID rawJSON,
                 mt_docCount := mt_docCount m + 1, mt_rawBytes := mt_rawBytes m + int (length rawJSON)\<rparr>)))"

definition mt_fieldSlice :: "'b Memtable \<Rightarrow> 'b FieldAccumulator list" where
  "mt_fieldSlice m = List.map_filter (\<lambda>f. map_of (mt_fields m) (fd_Name f)) (sc_Fields (mt_schema m))"

definition mt_Build :: "'b roaring \<Rightarrow> zstd \<Rightarrow> ('w, 'f) vellum \<Rightarrow> 'b Memtable \<Rightarrow> Result result" where
  "mt_Build R Z V m = seg_Build R Z V (mt_fieldSlice m) (mt_ds m) (mt_docCount m)"

definition mt_DocCount :: "'b Memtable \<Rightarrow> u32" where "mt_DocCount m = mt_docCount m"

definition mt_EstimatedBytes :: "'b Memtable \<Rightarrow> int" where "mt_EstimatedBytes m = mt_rawBytes m"

section \<open>What a document contributes\<close>

text \<open>
  The terms of a field of a document with their positions; \<open>None\<close> when the document has no string
  there.
\<close>

definition field_tokens ::
  "'v fastjson \<Rightarrow> unicode \<Rightarrow> (string \<Rightarrow> Token list) \<Rightarrow> Field \<Rightarrow> 'v \<Rightarrow> (string \<times> u32) list option" where
  "field_tokens FJ U tok f v =
     (case fj_Get FJ v (fd_Name f) of
        None \<Rightarrow> None
      | Some fv \<Rightarrow>
          (case fj_GetStringBytes FJ fv of
             None \<Rightarrow> None
           | Some sb \<Rightarrow>
               if fd_Type f = FieldTypeText
               then Some (map (\<lambda>t. (tk_Term t, tk_Position t)) (tok (string_of sb)))
               else Some [(uc_ToLower U (string_of sb), 0)]))"

definition doc_tokens ::
  "'v fastjson \<Rightarrow> unicode \<Rightarrow> (string \<Rightarrow> Token list) \<Rightarrow> Field \<Rightarrow> bytes \<Rightarrow> (string \<times> u32) list" where
  "doc_tokens FJ U tok f raw =
     (case fj_ParseBytes FJ raw of
        Ok v \<Rightarrow> (case field_tokens FJ U tok f v of None \<Rightarrow> [] | Some ts \<Rightarrow> ts)
      | _ \<Rightarrow> [])"

definition term_positions :: "string \<Rightarrow> (string \<times> u32) list \<Rightarrow> u32 list" where
  "term_positions t ts = map snd (filter (\<lambda>x. fst x = t) ts)"

lemma add_tokens_pos:
  "fa_pos (add_tokens R d ts fa) t' d' =
     (if d' = d then fa_pos fa t' d @ term_positions t' ts else fa_pos fa t' d')"
  unfolding add_tokens_def
  by (induction ts arbitrary: fa) (auto simp: AddToken_pos term_positions_def)

lemma add_tokens_wf:
  "roaring_ok R \<Longrightarrow> fa_wf R fa \<Longrightarrow> fa_wf R (add_tokens R d ts fa) \<and> fa_Name (add_tokens R d ts fa) = fa_Name fa"
  unfolding add_tokens_def by (induction ts arbitrary: fa) (auto simp: AddToken_wf)

text \<open>\<open>mt_add_field\<close> in one equation.\<close>

lemma mt_add_field_tokens:
  "mt_add_field R FJ U tok d v flds f =
     (if indexed_field f then
        (case (field_tokens FJ U tok f v, map_of flds (fd_Name f)) of
           (Some ts, Some fa) \<Rightarrow>
             AList.update (fd_Name f) (SetDoclen (add_tokens R d ts fa) d (word_of_nat (length ts))) flds
         | _ \<Rightarrow> flds)
      else flds)"
  by (auto simp: mt_add_field_def field_tokens_def indexed_field_def add_tokens_def Let_def split: option.splits)

section \<open>The invariant\<close>

definition fa_doclen :: "'b FieldAccumulator \<Rightarrow> nat \<Rightarrow> u32" where
  "fa_doclen fa i = (if i < length (fa_Doclens fa) then fa_Doclens fa ! i else 0)"

lemma SetDoclen_doclen:
  "fa_doclen (SetDoclen fa d n) i = (if i = unat d then n else fa_doclen fa i)"
  by (auto simp: fa_doclen_def SetDoclen_def Let_def nth_list_update nth_append)

lemma add_tokens_Doclens [simp]: "fa_Doclens (add_tokens R d ts fa) = fa_Doclens fa"
  unfolding add_tokens_def by (induction ts arbitrary: fa) auto

definition field_holds ::
  "'b roaring \<Rightarrow> 'v fastjson \<Rightarrow> unicode \<Rightarrow> (string \<Rightarrow> Token list) \<Rightarrow> Field \<Rightarrow> bytes list \<Rightarrow> 'b FieldAccumulator \<Rightarrow> bool" where
  "field_holds R FJ U tok f docs fa \<longleftrightarrow> fa_Name fa = fd_Name f \<and> fa_wf R fa \<and>
     length (fa_Doclens fa) \<le> length docs \<and>
     (\<forall>i < length docs. fa_doclen fa i = word_of_nat (length (doc_tokens FJ U tok f (docs ! i)))) \<and>
     (\<forall>t d. fa_pos fa t d =
        (if unat d < length docs then term_positions t (doc_tokens FJ U tok f (docs ! unat d)) else []))"

definition mt_holds ::
  "'b roaring \<Rightarrow> zstd \<Rightarrow> 'v fastjson \<Rightarrow> unicode \<Rightarrow> (string \<Rightarrow> Token list) \<Rightarrow> ds_Writer \<Rightarrow> bytes list \<Rightarrow> 'b Memtable \<Rightarrow> bool" where
  "mt_holds R Z FJ U tok w docs m \<longleftrightarrow>
     mt_docCount m = word_of_nat (length docs) \<and> mt_ds m = ds_AddAll Z w 0 docs \<and>
     mt_rawBytes m = int (length (concat docs)) \<and>
     (\<forall>f \<in> set (sc_Fields (mt_schema m)). indexed_field f \<longrightarrow>
       (\<exists>fa. map_of (mt_fields m) (fd_Name f) = Some fa \<and> field_holds R FJ U tok f docs fa)) \<and>
     (\<forall>k. map_of (mt_fields m) k \<noteq> None \<longrightarrow>
       (\<exists>f \<in> set (sc_Fields (mt_schema m)). indexed_field f \<and> fd_Name f = k))"

lemma new_fields_keys:
  "map_of (foldl new_fields flds fs) k =
     (if \<exists>f \<in> set fs. indexed_field f \<and> fd_Name f = k then Some (NewFieldAccumulator k) else map_of flds k)"
  by (induction fs arbitrary: flds) (auto simp: new_fields_def update_conv')

lemma NewMemtable_holds:
  assumes "NewMemtable Z sc = Ok m"
  shows "\<exists>w. ds_NewWriter Z = Ok w \<and> mt_holds R Z FJ U tok w [] m \<and> mt_schema m = sc"
  using assms
  by (auto simp: NewMemtable_def res_bind_eq_Ok mt_holds_def new_fields_keys field_holds_def fa_wf_New
    split: if_splits) (auto simp: NewFieldAccumulator_def fa_pos_def fa_docpos_def)

lemma ds_AddAll_snoc:
  "ds_AddAll Z w k (ds @ [d]) = ds_Add Z (ds_AddAll Z w k ds) (k + word_of_nat (length ds)) d"
  by (induction ds arbitrary: w k) (simp_all add: algebra_simps)

lemma field_holds_extend:
  assumes R: "roaring_ok R" and h: "field_holds R FJ U tok f docs fa" and len: "length docs < 2 ^ 32"
    and v: "fj_ParseBytes FJ raw = Ok v" and d: "d = word_of_nat (length docs)"
  shows "case field_tokens FJ U tok f v of
      None \<Rightarrow> field_holds R FJ U tok f (docs @ [raw]) fa
    | Some ts \<Rightarrow> field_holds R FJ U tok f (docs @ [raw]) (SetDoclen (add_tokens R d ts fa) d (word_of_nat (length ts)))"
proof -
  have eq: "d' = d \<longleftrightarrow> unat d' = length docs" for d'
    using len d unat_u32_of_nat by (metis word_eq_of_natI)
  have u: "unat d = length docs" using eq by blast
  show ?thesis
  proof (cases "field_tokens FJ U tok f v")
    case None
    then have "doc_tokens FJ U tok f raw = []" using v by (simp add: doc_tokens_def)
    moreover have "fa_doclen fa (length docs) = 0" using h by (simp add: field_holds_def fa_doclen_def)
    ultimately show ?thesis using None h
      by (auto simp: field_holds_def nth_append less_Suc_eq term_positions_def)
  next
    case (Some ts)
    then have ts: "doc_tokens FJ U tok f raw = ts" using v by (simp add: doc_tokens_def)
    have "fa_pos fa t d = []" for t using h u by (simp add: field_holds_def)
    then have "fa_pos (add_tokens R d ts fa) t d' =
        (if unat d' < length (docs @ [raw]) then term_positions t (doc_tokens FJ U tok f ((docs @ [raw]) ! unat d')) else [])" for t d'
      using h ts eq [of d'] u by (auto simp: field_holds_def add_tokens_pos nth_append less_Suc_eq)
    moreover have "fa_doclen (add_tokens R d ts fa) i = fa_doclen fa i" for i by (simp add: fa_doclen_def)
    ultimately show ?thesis
      using Some h add_tokens_wf [OF R, of fa d ts] u ts
      by (auto simp: field_holds_def SetDoclen_doclen SetDoclen_nth(2) nth_append less_Suc_eq)
  qed
qed

lemma add_fields_other:
  "k \<notin> fd_Name ` set fs \<Longrightarrow> map_of (foldl (mt_add_field R FJ U tok d v) flds fs) k = map_of flds k"
  by (induction fs arbitrary: flds) (auto simp: mt_add_field_tokens update_conv' split: option.splits)

lemma mt_add_field_keys: "map_of (mt_add_field R FJ U tok d v flds f) k = None \<longleftrightarrow> map_of flds k = None"
  by (auto simp: mt_add_field_tokens update_conv' split: option.splits)

lemma add_fields_keys: "map_of (foldl (mt_add_field R FJ U tok d v) flds fs) k = None \<longleftrightarrow> map_of flds k = None"
  by (induction fs arbitrary: flds) (simp_all add: mt_add_field_keys)

lemma add_fields_at:
  assumes "distinct (map fd_Name fs)" and "f \<in> set fs" and "indexed_field f"
    and "map_of flds (fd_Name f) = Some fa"
  shows "map_of (foldl (mt_add_field R FJ U tok d v) flds fs) (fd_Name f) =
    Some (case field_tokens FJ U tok f v of None \<Rightarrow> fa
      | Some ts \<Rightarrow> SetDoclen (add_tokens R d ts fa) d (word_of_nat (length ts)))"
  using assms
proof (induction fs arbitrary: flds)
  case (Cons g fs)
  show ?case
  proof (cases "g = f")
    case True
    then have "fd_Name f \<notin> fd_Name ` set fs" using Cons.prems(1) by auto
    then show ?thesis
      using True Cons.prems by (simp add: add_fields_other)
        (auto simp: mt_add_field_tokens update_conv' split: option.splits)
  next
    case False
    then have f: "f \<in> set fs" using Cons.prems(2) by simp
    then have "fd_Name g \<noteq> fd_Name f" using Cons.prems(1) by auto
    then have "map_of (mt_add_field R FJ U tok d v flds g) (fd_Name f) = Some fa"
      using Cons.prems(4) by (auto simp: mt_add_field_tokens update_conv' split: option.splits)
    then show ?thesis using Cons.IH [OF _ f] Cons.prems by simp
  qed
qed simp

lemma mt_Add_holds:
  assumes R: "roaring_ok R" and m: "mt_holds R Z FJ U tok w docs m" and sc: "schema_ok (mt_schema m)"
    and len: "length docs < 2 ^ 32" and v: "fj_ParseBytes FJ raw = Ok v"
  shows "\<exists>m'. mt_Add R Z FJ U tok m raw = (Ok (), m') \<and> mt_holds R Z FJ U tok w (docs @ [raw]) m' \<and>
    mt_schema m' = mt_schema m"
proof -
  let ?d = "mt_docCount m" and ?fs = "sc_Fields (mt_schema m)"
  let ?flds = "foldl (mt_add_field R FJ U tok ?d v) (mt_fields m) ?fs"
  have d: "?d = word_of_nat (length docs)" using m by (simp add: mt_holds_def)
  have "\<exists>fa. map_of ?flds (fd_Name f) = Some fa \<and> field_holds R FJ U tok f (docs @ [raw]) fa"
    if f: "f \<in> set ?fs" "indexed_field f" for f
  proof -
    obtain fa where fa: "map_of (mt_fields m) (fd_Name f) = Some fa" "field_holds R FJ U tok f docs fa"
      using m f by (auto simp: mt_holds_def)
    have "distinct (map fd_Name ?fs)" using sc by (simp add: schema_ok_def)
    note at = add_fields_at [OF this f fa(1), where R=R and FJ=FJ and U=U and tok=tok and d="?d" and v=v]
    show ?thesis
      using field_holds_extend [OF R fa(2) len v d] unfolding at by (cases "field_tokens FJ U tok f v") auto
  qed
  moreover have "ds_AddAll Z w 0 (docs @ [raw]) = ds_Add Z (mt_ds m) ?d raw"
    using m by (simp add: ds_AddAll_snoc mt_holds_def)
  moreover have "\<exists>f \<in> set ?fs. indexed_field f \<and> fd_Name f = k" if "map_of ?flds k \<noteq> None" for k
    using that m unfolding add_fields_keys mt_holds_def by blast
  ultimately show ?thesis
    using m v by (simp add: mt_Add_def mt_holds_def Let_def)
qed

lemma mt_Add_invalid:
  "fj_ParseBytes FJ raw = Err e \<Longrightarrow>
    mt_Add R Z FJ U tok m raw = (Err (ErrWrap ''memtable: invalid JSON'' e), m)"
  by (simp add: mt_Add_def)

section \<open>Adding many documents\<close>

fun mt_AddAll ::
  "'b roaring \<Rightarrow> zstd \<Rightarrow> 'v fastjson \<Rightarrow> unicode \<Rightarrow> (string \<Rightarrow> Token list) \<Rightarrow> 'b Memtable \<Rightarrow> bytes list
     \<Rightarrow> unit result \<times> 'b Memtable" where
  "mt_AddAll R Z FJ U tok m [] = (Ok (), m)"
| "mt_AddAll R Z FJ U tok m (d # ds) =
     st_bind (mt_Add R Z FJ U tok m d) (\<lambda>_ m. mt_AddAll R Z FJ U tok m ds)"

definition parses :: "'v fastjson \<Rightarrow> bytes \<Rightarrow> bool" where
  "parses FJ raw \<longleftrightarrow> (\<exists>v. fj_ParseBytes FJ raw = Ok v)"

lemma mt_AddAll_holds:
  assumes R: "roaring_ok R"
  shows "mt_holds R Z FJ U tok w docs m \<Longrightarrow> schema_ok (mt_schema m) \<Longrightarrow> length docs + length ds \<le> 2 ^ 32 \<Longrightarrow>
    \<forall>d \<in> set ds. parses FJ d \<Longrightarrow>
    \<exists>m'. mt_AddAll R Z FJ U tok m ds = (Ok (), m') \<and> mt_holds R Z FJ U tok w (docs @ ds) m' \<and> mt_schema m' = mt_schema m"
proof (induction ds arbitrary: docs m)
  case (Cons d ds)
  then obtain v where v: "fj_ParseBytes FJ d = Ok v" by (auto simp: parses_def)
  have "length docs < 2 ^ 32" using Cons.prems(3) by simp
  then obtain m1 where "mt_Add R Z FJ U tok m d = (Ok (), m1)" "mt_holds R Z FJ U tok w (docs @ [d]) m1"
    "mt_schema m1 = mt_schema m"
    using mt_Add_holds [OF R Cons.prems(1,2) _ v] by blast
  then show ?case using Cons.IH [of "docs @ [d]" m1] Cons.prems by auto
qed auto

lemma mt_fieldSlice_ok:
  assumes m: "mt_holds R Z FJ U tok w docs m" and sc: "schema_ok (mt_schema m)"
  shows "distinct (map fa_Name (mt_fieldSlice m))"
    and "fa \<in> set (mt_fieldSlice m) \<Longrightarrow> \<exists>f \<in> set (sc_Fields (mt_schema m)). indexed_field f \<and> field_holds R FJ U tok f docs fa"
    and "f \<in> set (sc_Fields (mt_schema m)) \<Longrightarrow> indexed_field f \<Longrightarrow>
      \<exists>fa \<in> set (mt_fieldSlice m). field_holds R FJ U tok f docs fa"
proof -
  let ?fs = "sc_Fields (mt_schema m)"
  have dist: "distinct (map fd_Name ?fs)" using sc by (simp add: schema_ok_def)
  have some: "indexed_field f \<and> field_holds R FJ U tok f docs fa"
    if f: "f \<in> set ?fs" "map_of (mt_fields m) (fd_Name f) = Some fa" for f fa
  proof -
    obtain g where g: "g \<in> set ?fs" "indexed_field g" "fd_Name g = fd_Name f"
      using m f unfolding mt_holds_def by (metis option.distinct(1))
    then have "g = f" using dist f by (metis (no_types, lifting) distinct_map inj_onD)
    then show ?thesis using m f g by (auto simp: mt_holds_def)
  qed
  show "fa \<in> set (mt_fieldSlice m) \<Longrightarrow> \<exists>f \<in> set ?fs. indexed_field f \<and> field_holds R FJ U tok f docs fa"
    using some by (fastforce simp: mt_fieldSlice_def List.map_filter_def)
  show "f \<in> set ?fs \<Longrightarrow> indexed_field f \<Longrightarrow> \<exists>fa \<in> set (mt_fieldSlice m). field_holds R FJ U tok f docs fa"
    using m by (fastforce simp: mt_fieldSlice_def List.map_filter_def image_iff mt_holds_def)
  have "map fa_Name (List.map_filter (\<lambda>f. map_of (mt_fields m) (fd_Name f)) fs) =
      map fd_Name (filter (\<lambda>f. map_of (mt_fields m) (fd_Name f) \<noteq> None) fs)" if "set fs \<subseteq> set ?fs" for fs
    using that
  proof (induction fs)
    case (Cons f fs)
    then show ?case
      using some [of f] by (auto simp: List.map_filter_def field_holds_def)
  qed (simp add: List.map_filter_def)
  from this [of ?fs] show "distinct (map fa_Name (mt_fieldSlice m))"
    using dist by (simp add: mt_fieldSlice_def distinct_map_filter)
qed

section \<open>Properties\<close>

text \<open>C20: Adding parseable documents to a new memtable succeeds, counts them, and leaves for every
  text or keyword field an accumulator in which the positions of every term in every document are
  exactly those of the document's tokens (for a keyword, the lower-cased value at position 0), a
  document being listed for a term exactly when the term occurs in it; the document store received
  exactly these documents in order.\<close>

theorem memtable_indexes_documents:
  assumes R: "roaring_ok R" and new: "NewMemtable Z sc = Ok m" and sc: "schema_ok sc"
    and len: "length ds \<le> 2 ^ 32" and parse: "\<forall>d \<in> set ds. parses FJ d"
  shows "\<exists>m' w. mt_AddAll R Z FJ U tok m ds = (Ok (), m') \<and> mt_DocCount m' = word_of_nat (length ds) \<and>
    mt_EstimatedBytes m' = int (length (concat ds)) \<and>
    ds_NewWriter Z = Ok w \<and> mt_ds m' = ds_AddAll Z w 0 ds \<and>
    (\<forall>f \<in> set (sc_Fields sc). indexed_field f \<longrightarrow>
      (\<exists>fa \<in> set (mt_fieldSlice m'). fa_Name fa = fd_Name f \<and>
        (\<forall>t d. fa_pos fa t d = (if unat d < length ds then term_positions t (doc_tokens FJ U tok f (ds ! unat d)) else [])) \<and>
        (\<forall>t d. d \<in> fa_docs R fa t \<longleftrightarrow> fa_pos fa t d \<noteq> [])))"
proof -
  obtain w where w: "ds_NewWriter Z = Ok w" "mt_holds R Z FJ U tok w [] m" "mt_schema m = sc"
    using NewMemtable_holds [OF new] by blast
  then obtain m' where m': "mt_AddAll R Z FJ U tok m ds = (Ok (), m')" "mt_holds R Z FJ U tok w ds m'"
    "mt_schema m' = sc"
    using mt_AddAll_holds [OF R w(2), of ds] sc len parse by auto
  have "\<exists>fa \<in> set (mt_fieldSlice m'). fa_Name fa = fd_Name f \<and>
      (\<forall>t d. fa_pos fa t d = (if unat d < length ds then term_positions t (doc_tokens FJ U tok f (ds ! unat d)) else [])) \<and>
      (\<forall>t d. d \<in> fa_docs R fa t \<longleftrightarrow> fa_pos fa t d \<noteq> [])"
    if "f \<in> set (sc_Fields sc)" "indexed_field f" for f
    using mt_fieldSlice_ok(3) [OF m'(2)] m'(3) sc that by (fastforce simp: field_holds_def fa_wf_def)
  then show ?thesis
    using m' w(1) by (intro exI [of _ m'] exI [of _ w]) (auto simp: mt_holds_def mt_DocCount_def mt_EstimatedBytes_def)
qed

text \<open>A parser that treats every input as an object whose members all are the input itself.\<close>

definition echo_json :: "bytes fastjson" where
  "echo_json = \<lparr>fj_ParseBytes = Ok, fj_Get = (\<lambda>v k. Some v), fj_GetStringBytes = Some\<rparr>"

definition ascii :: unicode where
  "ascii = \<lparr>uc_IsLetter = (\<lambda>r. 0x61 \<le> r \<and> r \<le> 0x7a), uc_IsDigit = (\<lambda>r. 0x30 \<le> r \<and> r \<le> 0x39),
     uc_ToLower = (\<lambda>s. s), uc_transform = Ok\<rparr>"

definition example_schema :: Schema where
  "example_schema = \<lparr>sc_Fields = [\<lparr>fd_Name = ''body'', fd_Type = FieldTypeText, fd_Store = True\<rparr>], sc_IDField = ''body''\<rparr>"

lemma example_schema_ok: "schema_ok example_schema"
  by (simp add: schema_ok_def example_schema_def)

theorem memtable_indexes_documents_witness:
  "\<exists>m m'. NewMemtable id_zstd example_schema = Ok m \<and>
    mt_AddAll list_roaring id_zstd echo_json ascii (Tokenize ascii) m [bytes_of ''a b a''] = (Ok (), m') \<and>
    mt_DocCount m' = 1"
proof -
  obtain m :: "u32 list Memtable" where m: "NewMemtable id_zstd example_schema = Ok m"
    by (simp add: NewMemtable_def ds_NewWriter_def id_zstd_def)
  from memtable_indexes_documents [OF list_roaring_ok m example_schema_ok, of "[bytes_of ''a b a'']" echo_json
      ascii "Tokenize ascii"] m
  show ?thesis by (auto simp: parses_def echo_json_def)
qed

end
