(* ===== verification/Query_Node.thy ===== *)
theory Query_Node
  imports Prelude
begin

text \<open>
  Query trees (\<open>Node\<close> of \<open>src/pkg/query/dsl.go\<close>) and what it means for a document to match one.
  A document is seen through its index: \<open>names\<close> are the indexed fields and \<open>occ f t\<close> is the list
  of positions at which the term \<open>t\<close> occurs in its field \<open>f\<close>. \<open>doc_matches\<close> is the
  specification that \<open>Query_Exec\<close> refines to bitmaps.
\<close>

section \<open>Query trees\<close>

definition MaxSearchSize :: int where "MaxSearchSize = 10000"

type_synonym NodeType = string
type_synonym i64 = "64 word"

definition NodeTerm :: NodeType where "NodeTerm = ''term''"
definition NodeMatch :: NodeType where "NodeMatch = ''match''"
definition NodeBool :: NodeType where "NodeBool = ''bool''"
definition NodeRange :: NodeType where "NodeRange = ''range''"
definition NodePhrase :: NodeType where "NodePhrase = ''phrase''"
definition NodePrefix :: NodeType where "NodePrefix = ''prefix''"
definition NodeKeyword :: NodeType where "NodeKeyword = ''keyword''"

lemmas node_type_defs = NodeTerm_def NodeMatch_def NodeBool_def NodeRange_def NodePhrase_def
  NodePrefix_def NodeKeyword_def

lemma node_types_distinct:
  "distinct [NodeTerm, NodeMatch, NodeBool, NodeRange, NodePhrase, NodePrefix, NodeKeyword]"
  "distinct [NodeKeyword, NodePrefix, NodePhrase, NodeRange, NodeBool, NodeMatch, NodeTerm]"
  by (simp_all add: node_type_defs)

lemmas node_types_neq [simp] = node_types_distinct [simplified]

text \<open>The empty interface values of a range are an \<open>int64\<close> or nil.\<close>

datatype Node = Node
  (nd_Type: NodeType) (nd_Field: string) (nd_Value: string)
  (nd_GTE: "i64 option") (nd_LTE: "i64 option") (nd_GT: "i64 option") (nd_LT: "i64 option")
  (nd_Must: "Node list") (nd_Should: "Node list") (nd_MustNot: "Node list") (nd_Filter: "Node list")
  (nd_Terms: "string list")

definition MatchAll :: Node where
  "MatchAll = Node NodeBool '''' '''' None None None None [] [] [] [] []"

definition value_node :: "NodeType \<Rightarrow> string \<Rightarrow> string \<Rightarrow> Node" where
  "value_node ty fld v = Node ty fld v None None None None [] [] [] [] []"

definition phrase_node :: "string \<Rightarrow> string list \<Rightarrow> Node" where
  "phrase_node fld ts = Node NodePhrase fld '''' None None None None [] [] [] [] ts"

definition bool_node :: "Node list \<Rightarrow> Node list \<Rightarrow> Node list \<Rightarrow> Node list \<Rightarrow> Node" where
  "bool_node must should mustNot flt = Node NodeBool '''' '''' None None None None must should mustNot flt []"

definition nd_children :: "Node \<Rightarrow> Node list" where
  "nd_children q = nd_Must q @ nd_Filter q @ nd_Should q @ nd_MustNot q"

lemma size_nd_children: "c \<in> set (nd_children q) \<Longrightarrow> size c < size q"
  by (cases q) (auto simp: nd_children_def dest: size_list_estimation' [OF _ order_refl, where f = size])

lemma size_nd_lists [termination_simp]:
  "c \<in> set (nd_Must q) \<Longrightarrow> size c < size q" "c \<in> set (nd_Filter q) \<Longrightarrow> size c < size q"
  "c \<in> set (nd_Should q) \<Longrightarrow> size c < size q" "c \<in> set (nd_MustNot q) \<Longrightarrow> size c < size q"
  using size_nd_children [of c q] by (auto simp: nd_children_def)

text \<open>Every node has a type the executor knows.\<close>

definition known_type :: "NodeType \<Rightarrow> bool" where
  "known_type ty \<longleftrightarrow> ty \<in> {NodeTerm, NodeMatch, NodeBool, NodeRange, NodePhrase, NodePrefix, NodeKeyword}"

fun node_ok :: "Node \<Rightarrow> bool" where
  "node_ok (Node ty fld v gte lte gt lt must should mustNot flt ts) \<longleftrightarrow>
     known_type ty \<and>
     (ty = NodeBool \<longrightarrow> list_all node_ok must \<and> list_all node_ok flt \<and> list_all node_ok should \<and> list_all node_ok mustNot)"

lemma node_ok_children: "node_ok q \<Longrightarrow> nd_Type q = NodeBool \<Longrightarrow> c \<in> set (nd_children q) \<Longrightarrow> node_ok c"
  by (cases q) (auto simp: nd_children_def list_all_iff)

lemma node_ok_iff:
  "node_ok q \<longleftrightarrow> known_type (nd_Type q) \<and> (nd_Type q = NodeBool \<longrightarrow> (\<forall>c \<in> set (nd_children q). node_ok c))"
  by (cases q) (auto simp: nd_children_def list_all_iff)

section \<open>Matching\<close>

definition term_in :: "string list \<Rightarrow> (string \<Rightarrow> string \<Rightarrow> u32 list) \<Rightarrow> string \<Rightarrow> string \<Rightarrow> bool" where
  "term_in names occ fld t \<longleftrightarrow>
     (if fld = ''_all'' then \<exists>f \<in> set names. occ f t \<noteq> [] else occ fld t \<noteq> [])"

definition phrase_at :: "(string \<Rightarrow> u32 list) \<Rightarrow> string list \<Rightarrow> u32 \<Rightarrow> bool" where
  "phrase_at occ ts start \<longleftrightarrow> (\<forall>i < length ts. start + word_of_nat i \<in> set (occ (ts ! i)))"

fun doc_matches ::
  "string list \<Rightarrow> (string \<Rightarrow> string \<Rightarrow> u32 list) \<Rightarrow> (string \<Rightarrow> string list) \<Rightarrow> Node \<Rightarrow> bool" where
  "doc_matches names occ tok (Node ty fld v gte lte gt lt must should mustNot flt ts) \<longleftrightarrow>
     (if ty = NodeMatch then tok v \<noteq> [] \<and> (\<forall>t \<in> set (tok v). term_in names occ fld t)
      else if ty = NodeTerm \<or> ty = NodeKeyword then term_in names occ fld v
      else if ty = NodePrefix then \<exists>t. HasPrefix t v \<and> occ fld t \<noteq> []
      else if ty = NodePhrase then ts \<noteq> [] \<and> (\<exists>start. phrase_at (occ fld) ts start)
      else if ty = NodeBool then
        list_all (doc_matches names occ tok) must \<and> list_all (doc_matches names occ tok) flt \<and>
        (must = [] \<and> flt = [] \<longrightarrow> should = [] \<or> list_ex (doc_matches names occ tok) should) \<and>
        \<not> list_ex (doc_matches names occ tok) mustNot
      else False)"

end
