(* ===== verification/BM25.thy ===== *)
theory BM25
  imports Go_Float
begin

text \<open>
  The scoring function (\<open>src/pkg/query/bm25.go\<close>) over the reals. Go's quotient by a zero average
  length is infinite for a positive document length, which makes the normalisation factor zero;
  that case is written out, because HOL's quotient by zero is zero.
\<close>

type_synonym f64 = real

definition BM25K1 :: f64 where "BM25K1 = 12 / 10"
definition BM25B :: f64 where "BM25B = 75 / 100"

definition BM25Score :: "f64 \<Rightarrow> f64 \<Rightarrow> f64 \<Rightarrow> u64 \<Rightarrow> u64 \<Rightarrow> f64" where
  "BM25Score tf docLen avgDocLen df N =
     (if df = 0 \<or> N = 0 then 0
      else let idf = ln (1 + (real (unat N) - real (unat df) + 1 / 2) / (real (unat df) + 1 / 2));
               norm = (if avgDocLen = 0 then 0
                 else tf * (BM25K1 + 1) / (tf + BM25K1 * (1 - BM25B + BM25B * docLen / avgDocLen)))
           in idf * norm)"

definition bm25_idf :: "nat \<Rightarrow> nat \<Rightarrow> real" where
  "bm25_idf df N = ln (1 + (real N - real df + 1 / 2) / (real df + 1 / 2))"

definition bm25_norm :: "real \<Rightarrow> real \<Rightarrow> real" where
  "bm25_norm tf ratio = tf * (BM25K1 + 1) / (tf + BM25K1 * (1 - BM25B + BM25B * ratio))"

lemma BM25Score_split:
  "df \<noteq> 0 \<Longrightarrow> N \<noteq> 0 \<Longrightarrow> avg \<noteq> 0 \<Longrightarrow>
    BM25Score tf len avg df N = bm25_idf (unat df) (unat N) * bm25_norm tf (len / avg)"
  by (simp add: BM25Score_def bm25_idf_def bm25_norm_def Let_def)

lemma bm25_idf_arg: "bm25_idf df N = ln ((real N + 1) / (real df + 1 / 2))"
  by (simp add: bm25_idf_def field_simps)

lemma bm25_idf_pos: "df \<le> N \<Longrightarrow> 0 < bm25_idf df N"
  unfolding bm25_idf_arg by (simp add: field_simps)

lemma bm25_idf_rarer: "df < df' \<Longrightarrow> bm25_idf df' N < bm25_idf df N"
proof -
  assume "df < df'"
  then have "(real N + 1) / (real df' + 1 / 2) < (real N + 1) / (real df + 1 / 2)"
    by (intro divide_strict_left_mono mult_pos_pos) auto
  then show ?thesis unfolding bm25_idf_arg by (intro ln_less_cancel_iff [THEN iffD2]) auto
qed

lemma bm25_norm_bounds:
  assumes "0 < tf" and "0 \<le> r"
  shows "0 < bm25_norm tf r \<and> bm25_norm tf r < BM25K1 + 1"
  using assms by (simp add: bm25_norm_def BM25K1_def BM25B_def field_simps)

lemma bm25_norm_tf:
  assumes "0 < tf" and "tf < tf'" and "0 \<le> r"
  shows "bm25_norm tf r < bm25_norm tf' r"
proof -
  define k where "k = BM25K1 * (1 - BM25B + BM25B * r)"
  have k: "0 < k" using assms(3) by (simp add: k_def BM25K1_def BM25B_def)
  have "tf / (tf + k) < tf' / (tf' + k)"
    using assms k by (simp add: divide_less_eq less_divide_eq field_simps)
  then have "(BM25K1 + 1) * (tf / (tf + k)) < (BM25K1 + 1) * (tf' / (tf' + k))"
    by (rule mult_strict_left_mono) (simp add: BM25K1_def)
  then show ?thesis by (simp add: bm25_norm_def k_def mult.commute)
qed

lemma bm25_norm_length:
  assumes "0 < tf" and "0 \<le> r" and "r < r'"
  shows "bm25_norm tf r' < bm25_norm tf r"
proof -
  define k k' where "k = BM25K1 * (1 - BM25B + BM25B * r)" and "k' = BM25K1 * (1 - BM25B + BM25B * r')"
  have "k < k'" and "0 \<le> k"
    using assms by (simp_all add: k_def k'_def BM25K1_def BM25B_def)
  then have "tf * (BM25K1 + 1) / (tf + k') < tf * (BM25K1 + 1) / (tf + k)"
    using assms(1) by (intro divide_strict_left_mono mult_pos_pos) (simp_all add: BM25K1_def)
  then show ?thesis by (simp add: bm25_norm_def k_def k'_def)
qed



end
