(* ===== verification/Query_Parser.thy ===== *)
theory Query_Parser
  imports Query_Node Analyze
begin

text \<open>
  The query string parser (\<open>src/pkg/query/parser.go\<close>). The parser's state is the unread rest of
  the input, \<open>p.input[p.pos:]\<close>; \<open>p.pos < len(p.input)\<close> is \<open>s \<noteq> []\<close>. Whitespace and identifier
  characters are tested on single bytes, as the code does with \<open>rune(p.input[p.pos])\<close>.
  \<open>strings.ToUpper\<close> is used only to recognise AND, OR and NOT; no rune outside ASCII has an upper
  case among their letters, so the ASCII letters are enough. The recursive descent takes fuel;
  \<open>5 * len + 5\<close> is always enough, and more changes nothing.

  Results: the parser returns for every input and yields trees the executor knows, and a query
  written with explicit parentheses means what it says.
\<close>

section \<open>Package strings and unicode\<close>

definition isSpaceByte :: "char \<Rightarrow> bool" where
  "isSpaceByte c \<longleftrightarrow> (let n = of_char c :: nat in (9 \<le> n \<and> n \<le> 13) \<or> n = 32 \<or> n = 0x85 \<or> n = 0xA0)"

definition IsSpace :: "rune \<Rightarrow> bool" where
  "IsSpace r \<longleftrightarrow> (9 \<le> r \<and> r \<le> 13) \<or> (0x2000 \<le> r \<and> r \<le> 0x200a) \<or>
     r \<in> {32, 0x85, 0xA0, 0x1680, 0x2028, 0x2029, 0x202f, 0x205f, 0x3000}"

definition isIdentChar :: "char \<Rightarrow> bool" where
  "isIdentChar c \<longleftrightarrow> (let n = of_char c :: nat in
     (0x41 \<le> n \<and> n \<le> 0x5a) \<or> (0x61 \<le> n \<and> n \<le> 0x7a) \<or> (0x30 \<le> n \<and> n \<le> 0x39) \<or> n = 0x5f \<or>
     n = 0xaa \<or> n = 0xb5 \<or> n = 0xba \<or> (0xc0 \<le> n \<and> n \<noteq> 0xd7 \<and> n \<noteq> 0xf7))"

definition upper_char :: "char \<Rightarrow> char" where
  "upper_char c = (let n = of_char c :: nat in if 0x61 \<le> n \<and> n \<le> 0x7a then char_of (n - 32) else c)"

definition ToUpper :: "string \<Rightarrow> string" where "ToUpper = map upper_char"

text \<open>The maximal runs of runes that are not space.\<close>

definition space_runs :: "string \<Rightarrow> (nat \<times> nat) list" where
  "space_runs s = word_runs (\<lambda>r. \<not> IsSpace r) (length s) (runes_from 0 (bytes_of s))"

definition TrimSpace :: "string \<Rightarrow> string" where
  "TrimSpace s = (case space_runs s of [] \<Rightarrow> '''' | run # runs \<Rightarrow> substr s (fst run) (snd (last (run # runs))))"

definition Fields :: "string \<Rightarrow> string list" where
  "Fields s = map (\<lambda>(i, j). substr s i j) (space_runs s)"

section \<open>Tokens\<close>

definition skipWS :: "string \<Rightarrow> string" where "skipWS s = dropWhile isSpaceByte s"

definition starts_op :: "string \<Rightarrow> string \<Rightarrow> bool" where
  "starts_op rest op \<longleftrightarrow> HasPrefix (ToUpper rest) op \<and>
     (length rest = length op \<or> \<not> isIdentChar (rest ! length op))"

definition peek :: "string \<Rightarrow> string \<times> string" where
  "peek s =
     (let rest = skipWS s in
      (if starts_op rest ''AND'' then ''AND''
       else if starts_op rest ''OR'' then ''OR''
       else if starts_op rest ''NOT'' then ''NOT''
       else '''', rest))"

definition consume :: "string \<Rightarrow> string \<Rightarrow> string" where
  "consume op s = drop (length op) (skipWS s)"

definition isStop :: "char \<Rightarrow> bool" where
  "isStop c \<longleftrightarrow> c = CHR '' '' \<or> c = CHR 0x09 \<or> c = CHR ''('' \<or> c = CHR '')''"

definition readToken :: "string \<Rightarrow> string \<times> string" where
  "readToken s =
     (let s = skipWS s in
      if s = [] then ('''', s)
      else if hd s = CHR 0x22 then
        (let tok = takeWhile (\<lambda>c. c \<noteq> CHR 0x22) (tl s);
             r = drop (length tok) (tl s)
         in (tok, if r \<noteq> [] then tl r else r))
      else
        (let tok = takeWhile (\<lambda>c. \<not> isStop c) s;
             upper = ToUpper tok
         in if upper = ''AND'' \<or> upper = ''OR'' \<or> upper = ''NOT'' then ('''', s)
            else (tok, drop (length tok) s)))"

definition hasMore :: "string \<Rightarrow> bool" where "hasMore s \<longleftrightarrow> skipWS s \<noteq> []"

definition termNode :: "string \<Rightarrow> string \<Rightarrow> Node" where
  "termNode fld v =
     (if CHR '' '' \<in> set v then phrase_node fld (Fields v)
      else if HasSuffix v ''*'' then value_node NodePrefix fld (TrimSuffix v ''*'')
      else value_node NodeMatch fld v)"

definition parseTerm :: "string \<Rightarrow> (Node \<times> string) result" where
  "parseTerm s =
     (let s = skipWS s; (tok, s) = readToken s in
      if tok = '''' then Err (ErrMsg ''expected term'')
      else case IndexByte tok (CHR '':'') of
          Some idx \<Rightarrow>
            if 0 < idx then
              (let fld = take idx tok; v = drop (idx + 1) tok in
               if v = '''' then Err (ErrMsg ''empty value for field'')
               else Ok (termNode fld v, s))
            else Ok (termNode ''_all'' tok, s)
        | None \<Rightarrow> Ok (termNode ''_all'' tok, s))"

section \<open>The recursive descent\<close>

definition fuel_bind :: "'a result option \<Rightarrow> ('a \<Rightarrow> 'b result option) \<Rightarrow> 'b result option" where
  "fuel_bind r f = (case r of None \<Rightarrow> None
     | Some (Ok x) \<Rightarrow> f x | Some (Err e) \<Rightarrow> Some (Err e) | Some Panic \<Rightarrow> Some Panic)"

definition and_node :: "Node \<Rightarrow> Node \<Rightarrow> Node" where
  "and_node left right =
     (if nd_Type left = NodeBool \<and> nd_Should left = [] \<and> nd_MustNot left = []
      then (case left of Node ty fld v gte lte gt lt must should mustNot flt ts \<Rightarrow>
        Node ty fld v gte lte gt lt (must @ [right]) should mustNot flt ts)
      else bool_node [left, right] [] [] [])"

text \<open>
  The head of the loop of \<open>parseAnd\<close>: the rest to read the next operand from, or \<open>None\<close> to leave
  the loop. The second component is the rest after the calls of \<open>peek\<close>.
\<close>

definition and_continue :: "string \<Rightarrow> string option \<times> string" where
  "and_continue s =
     (let (op, s) = peek s in
      if op = ''AND'' then (Some (consume ''AND'' s), s)
      else if op = '''' \<and> hasMore s \<and> fst (peek s) \<noteq> ''OR'' \<and> fst (peek s) \<noteq> '')'' then
        (let s = skipWS s in
         if s \<noteq> [] \<and> hd s = CHR '')'' then (None, s)
         else if fst (peek s) = ''OR'' \<or> fst (peek s) = ''NOT'' then (None, s)
         else (Some s, s))
      else (None, s))"

function (sequential) parseOr :: "nat \<Rightarrow> string \<Rightarrow> (Node \<times> string) result option"
  and orLoop :: "nat \<Rightarrow> Node \<Rightarrow> string \<Rightarrow> (Node \<times> string) result option"
  and parseAnd :: "nat \<Rightarrow> string \<Rightarrow> (Node \<times> string) result option"
  and andLoop :: "nat \<Rightarrow> Node \<Rightarrow> string \<Rightarrow> (Node \<times> string) result option"
  and parseNot :: "nat \<Rightarrow> string \<Rightarrow> (Node \<times> string) result option"
  and parsePrimary :: "nat \<Rightarrow> string \<Rightarrow> (Node \<times> string) result option" where
  "parseOr 0 s = None"
| "parseOr (Suc n) s = fuel_bind (parseAnd n s) (\<lambda>(left, s). orLoop n left s)"
| "orLoop 0 left s = None"
| "orLoop (Suc n) left s =
     (let (op, s) = peek s in
      if op = ''OR'' then
        fuel_bind (parseAnd n (consume ''OR'' s)) (\<lambda>(right, s).
        orLoop n (bool_node [] [left, right] [] []) s)
      else Some (Ok (left, s)))"
| "parseAnd 0 s = None"
| "parseAnd (Suc n) s = fuel_bind (parseNot n s) (\<lambda>(left, s). andLoop n left s)"
| "andLoop 0 left s = None"
| "andLoop (Suc n) left s =
     (case and_continue s of
        (Some r, _) \<Rightarrow> fuel_bind (parseNot n r) (\<lambda>(right, s). andLoop n (and_node left right) s)
      | (None, s) \<Rightarrow> Some (Ok (left, s)))"
| "parseNot 0 s = None"
| "parseNot (Suc n) s =
     (let (op, s) = peek s in
      if op = ''NOT'' then
        fuel_bind (parsePrimary n (consume ''NOT'' s)) (\<lambda>(child, s). Some (Ok (bool_node [] [] [child] [], s)))
      else parsePrimary n s)"
| "parsePrimary 0 s = None"
| "parsePrimary (Suc n) s =
     (let s = skipWS s in
      if s = [] then Some (Err (ErrMsg ''unexpected end of query''))
      else if hd s = CHR ''('' then
        fuel_bind (parseOr n (tl s)) (\<lambda>(node, s).
        let s = skipWS s in
        if s = [] \<or> hd s \<noteq> CHR '')'' then Some (Err (ErrMsg ''missing closing )''))
        else Some (Ok (node, tl s)))
      else Some (parseTerm s))"

  by pat_completeness auto
termination
  by (relation "measure (\<lambda>x. case x of Inl (Inl a) \<Rightarrow> fst a | Inl (Inr (Inl a)) \<Rightarrow> fst a
      | Inl (Inr (Inr a)) \<Rightarrow> fst a | Inr (Inl a) \<Rightarrow> fst a | Inr (Inr (Inl a)) \<Rightarrow> fst a | Inr (Inr (Inr a)) \<Rightarrow> fst a)") auto

definition parse_fuel :: "string \<Rightarrow> nat" where "parse_fuel s = 5 * length s + 5"

definition ParseQueryString :: "string \<Rightarrow> Node result" where
  "ParseQueryString input =
     (let s = TrimSpace input in
      case parseOr (parse_fuel s) s of
        Some r \<Rightarrow> res_bind r (\<lambda>(node, _). Ok node)
      | None \<Rightarrow> Panic)"

section \<open>Termination\<close>

lemma length_skipWS: "length (skipWS s) \<le> length s"
  by (simp add: skipWS_def length_dropWhile_le)

lemma skipWS_idem [simp]: "skipWS (skipWS s) = skipWS s"
  by (simp add: skipWS_def dropWhile_idem)

lemma starts_op_length: "starts_op s op \<Longrightarrow> length op \<le> length s"
  by (auto simp: starts_op_def HasPrefix_iff ToUpper_def dest!: arg_cong [of _ _ length])

lemma snd_peek: "snd (peek s) = skipWS s"
  by (simp add: peek_def Let_def)

lemma peek_op:
  assumes "peek s = (op, r)" and "op \<noteq> ''''"
  shows "r = skipWS s \<and> length (consume op r) < length s"
proof -
  have r: "r = skipWS s" using assms(1) snd_peek [of s] by simp
  have "starts_op r op" using assms r by (auto simp: peek_def Let_def split: if_splits)
  then have "length op \<le> length r" by (rule starts_op_length)
  moreover have "0 < length op" using assms(2) by simp
  ultimately show ?thesis using r length_skipWS [of s] unfolding consume_def length_drop by (simp del: length_greater_0_conv)
qed

lemma and_continue_length:
  assumes "and_continue s = (x, r)"
  shows "length r \<le> length s \<and> (\<forall>t. x = Some t \<longrightarrow> length t \<le> length s)"
  using assms length_skipWS [of s] peek_op [of s "''AND''"] snd_peek [of s]
  by (auto simp: and_continue_def Let_def split: prod.splits if_splits)

lemma readToken_progress: "readToken s = (tok, r) \<Longrightarrow> tok \<noteq> '''' \<Longrightarrow> length r < length s"
proof -
  assume tok: "readToken s = (tok, r)" "tok \<noteq> ''''"
  have "length (takeWhile P t) \<le> length t" for P and t :: string by (rule length_takeWhile_le)
  then show ?thesis
    using tok length_skipWS [of s]
    by (auto simp: readToken_def Let_def length_Cons split: if_splits) (auto simp: neq_Nil_conv)
qed

lemma node_ok_built:
  "node_ok (value_node NodeMatch f v)" "node_ok (value_node NodePrefix f v)" "node_ok (phrase_node f ts)"
  "node_ok (bool_node m sh mn fl) \<longleftrightarrow> list_all node_ok (m @ fl @ sh @ mn)"
  by (auto simp: value_node_def phrase_node_def bool_node_def known_type_def)

lemma node_ok_termNode: "node_ok (termNode f v)"
  by (simp add: termNode_def node_ok_built)

lemma node_ok_and: "node_ok l \<Longrightarrow> node_ok r \<Longrightarrow> node_ok (and_node l r)"
  by (cases l) (auto simp: and_node_def node_ok_built)

text \<open>A call that returns, and on success leaves less input and a tree of known nodes.\<close>

definition parsed :: "nat \<Rightarrow> (Node \<times> string) result \<Rightarrow> bool" where
  "parsed k r \<longleftrightarrow> r \<noteq> Panic \<and> (\<forall>node s'. r = Ok (node, s') \<longrightarrow> length s' < k \<and> node_ok node)"

definition returns :: "nat \<Rightarrow> (Node \<times> string) result option \<Rightarrow> bool" where
  "returns k r \<longleftrightarrow> (\<exists>x. r = Some x \<and> parsed k x)"

lemma returns_Some [simp]:
  "returns k (Some (Ok (node, s))) \<longleftrightarrow> length s < k \<and> node_ok node" "returns k (Some (Err e))"
  by (simp_all add: returns_def parsed_def)

lemma returns_mono: "returns k r \<Longrightarrow> k \<le> k' \<Longrightarrow> returns k' r"
  unfolding returns_def parsed_def using less_le_trans by blast

lemma returns_bind:
  assumes "returns k r" and "\<And>node s'. length s' < k \<Longrightarrow> node_ok node \<Longrightarrow> returns k' (f (node, s'))"
  shows "returns k' (fuel_bind r f)"
proof -
  obtain x where x: "r = Some x" "parsed k x" using assms(1) by (auto simp: returns_def)
  then show ?thesis using assms(2) by (cases x) (auto simp: fuel_bind_def parsed_def returns_def)
qed

lemma parseTerm_parsed: "parsed (length s) (parseTerm s)"
proof -
  obtain tok r where tr: "readToken (skipWS s) = (tok, r)" by fastforce
  have "length r < length s" if "tok \<noteq> ''''"
    using readToken_progress [OF tr that] length_skipWS [of s] by simp
  then show ?thesis
    using tr by (auto simp: parseTerm_def Let_def parsed_def node_ok_termNode split: option.splits if_splits)
qed

lemma parse_returns:
  "(\<forall>s. 5 * length s + 4 \<le> n \<longrightarrow> returns (length s) (parseOr n s)) \<and>
   (\<forall>l s. node_ok l \<longrightarrow> 5 * length s + 1 \<le> n \<longrightarrow> returns (Suc (length s)) (orLoop n l s)) \<and>
   (\<forall>s. 5 * length s + 3 \<le> n \<longrightarrow> returns (length s) (parseAnd n s)) \<and>
   (\<forall>l s. node_ok l \<longrightarrow> 5 * length s + 3 \<le> n \<longrightarrow> returns (Suc (length s)) (andLoop n l s)) \<and>
   (\<forall>s. 5 * length s + 2 \<le> n \<longrightarrow> returns (length s) (parseNot n s)) \<and>
   (\<forall>s. 5 * length s + 1 \<le> n \<longrightarrow> returns (length s) (parsePrimary n s))"
proof (induction n)
  case (Suc n)
  have Or: "returns (length s) (parseOr n s)" if "5 * length s + 4 \<le> n" for s using Suc.IH that by blast
  have OrL: "returns (Suc (length s)) (orLoop n l s)" if "node_ok l" "5 * length s + 1 \<le> n" for l s using Suc.IH that by blast
  have And: "returns (length s) (parseAnd n s)" if "5 * length s + 3 \<le> n" for s using Suc.IH that by blast
  have AndL: "returns (Suc (length s)) (andLoop n l s)" if "node_ok l" "5 * length s + 3 \<le> n" for l s using Suc.IH that by blast
  have Not: "returns (length s) (parseNot n s)" if "5 * length s + 2 \<le> n" for s using Suc.IH that by blast
  have Prim: "returns (length s) (parsePrimary n s)" if "5 * length s + 1 \<le> n" for s using Suc.IH that by blast
  note loop = returns_mono [OF OrL] returns_mono [OF AndL]
  have "returns (length s) (parseOr (Suc n) s)" if "5 * length s + 4 \<le> Suc n" for s
    using that And [of s] by (auto intro!: returns_bind [of "length s"] loop)
  moreover have "returns (length s) (parseAnd (Suc n) s)" if "5 * length s + 3 \<le> Suc n" for s
    using that Not [of s] by (auto intro!: returns_bind [of "length s"] loop)
  moreover have "returns (Suc (length s)) (orLoop (Suc n) l s)" if l: "node_ok l" "5 * length s + 1 \<le> Suc n" for l s
  proof -
    obtain op r where p: "peek s = (op, r)" by fastforce
    show ?thesis
    proof (cases "op = ''OR''")
      case True
      let ?c = "consume ''OR'' r"
      have c: "length ?c < length s" using peek_op [OF p] True by blast
      have "returns (length ?c) (parseAnd n ?c)" using c l(2) by (intro And) simp
      then show ?thesis
        using p True l c by (auto intro!: returns_bind [of "length ?c"] loop simp: node_ok_built)
    next
      case False
      have "length r \<le> length s" using snd_peek [of s] p length_skipWS [of s] by simp
      then show ?thesis using p False l by (simp add: returns_def parsed_def)
    qed
  qed
  moreover have "returns (Suc (length s)) (andLoop (Suc n) l s)" if l: "node_ok l" "5 * length s + 3 \<le> Suc n" for l s
  proof -
    obtain x r where c: "and_continue s = (x, r)" by fastforce
    show ?thesis
    proof (cases x)
      case (Some t)
      have t: "length t \<le> length s" using and_continue_length [OF c] Some by simp
      have "returns (length t) (parseNot n t)" using t l(2) by (intro Not) simp
      then show ?thesis
        using c Some l t by (auto intro!: returns_bind [of "length t"] loop simp: node_ok_and)
    next
      case None
      then show ?thesis using c and_continue_length [OF c] l by (simp add: returns_def parsed_def)
    qed
  qed
  moreover have "returns (length s) (parseNot (Suc n) s)" if s: "5 * length s + 2 \<le> Suc n" for s
  proof -
    obtain op r where p: "peek s = (op, r)" by fastforce
    have r: "length r \<le> length s" using snd_peek [of s] p length_skipWS [of s] by simp
    show ?thesis
    proof (cases "op = ''NOT''")
      case True
      let ?c = "consume ''NOT'' r"
      have c: "length ?c < length s" using peek_op [OF p] True by blast
      have "returns (length ?c) (parsePrimary n ?c)" using c s by (intro Prim) simp
      then show ?thesis
        using p True c by (auto intro!: returns_bind [of "length ?c"] simp: node_ok_built)
    next
      case False
      then show ?thesis using p r s returns_mono [OF Prim [of r]] by simp
    qed
  qed
  moreover have "returns (length s) (parsePrimary (Suc n) s)" if s: "5 * length s + 1 \<le> Suc n" for s
  proof -
    have sk: "length (skipWS s) \<le> length s" by (rule length_skipWS)
    show ?thesis
    proof (cases "skipWS s \<noteq> [] \<and> hd (skipWS s) = CHR ''(''")
      case True
      then obtain t where t: "skipWS s = CHR ''('' # t" by (cases "skipWS s") auto
      then have "length t < length s" using sk by simp
      moreover have "returns (length t) (parseOr n t)" using s calculation by (intro Or) simp
      moreover have "length (tl (skipWS s')) < length s" if "length s' < length t" for s'
        using that \<open>length t < length s\<close> length_skipWS [of s'] by (simp add: less_imp_diff_less)
      ultimately show ?thesis
        using t by (auto intro!: returns_bind [of "length t"] simp: Let_def)
    next
      case False
      have "parsed (length s) (parseTerm (skipWS s))"
        using parseTerm_parsed [of "skipWS s"] sk unfolding parsed_def by (meson less_le_trans)
      then show ?thesis using False by (auto simp: Let_def returns_def parsed_def)
    qed
  qed
  ultimately show ?case by blast
qed simp

lemma fuel_bind_mono:
  "fuel_bind r f = Some x \<Longrightarrow> (\<And>y. r = Some y \<Longrightarrow> r' = Some y) \<Longrightarrow> (\<And>z x. f z = Some x \<Longrightarrow> f' z = Some x) \<Longrightarrow>
    fuel_bind r' f' = Some x"
  by (cases r) (auto simp: fuel_bind_def split: result.splits)

text \<open>More fuel does not change a result.\<close>

lemma parse_more_fuel:
  "(\<forall>s x. parseOr n s = Some x \<longrightarrow> parseOr (Suc n) s = Some x) \<and>
   (\<forall>l s x. orLoop n l s = Some x \<longrightarrow> orLoop (Suc n) l s = Some x) \<and>
   (\<forall>s x. parseAnd n s = Some x \<longrightarrow> parseAnd (Suc n) s = Some x) \<and>
   (\<forall>l s x. andLoop n l s = Some x \<longrightarrow> andLoop (Suc n) l s = Some x) \<and>
   (\<forall>s x. parseNot n s = Some x \<longrightarrow> parseNot (Suc n) s = Some x) \<and>
   (\<forall>s x. parsePrimary n s = Some x \<longrightarrow> parsePrimary (Suc n) s = Some x)"
proof (induction n)
  case (Suc n)
  have Or: "parseOr n s = Some x \<Longrightarrow> parseOr (Suc n) s = Some x" for s x using Suc.IH by blast
  have OrL: "orLoop n l s = Some x \<Longrightarrow> orLoop (Suc n) l s = Some x" for l s x using Suc.IH by blast
  have And: "parseAnd n s = Some x \<Longrightarrow> parseAnd (Suc n) s = Some x" for s x using Suc.IH by blast
  have AndL: "andLoop n l s = Some x \<Longrightarrow> andLoop (Suc n) l s = Some x" for l s x using Suc.IH by blast
  have Not: "parseNot n s = Some x \<Longrightarrow> parseNot (Suc n) s = Some x" for s x using Suc.IH by blast
  have Prim: "parsePrimary n s = Some x \<Longrightarrow> parsePrimary (Suc n) s = Some x" for s x using Suc.IH by blast
  have "parseOr (Suc (Suc n)) s = Some x" if "parseOr (Suc n) s = Some x" for s x
    using that unfolding parseOr.simps by (rule fuel_bind_mono) (auto dest: And OrL)
  moreover have "parseAnd (Suc (Suc n)) s = Some x" if "parseAnd (Suc n) s = Some x" for s x
    using that unfolding parseAnd.simps by (rule fuel_bind_mono) (auto dest: Not AndL)
  moreover have "orLoop (Suc (Suc n)) l s = Some x" if "orLoop (Suc n) l s = Some x" for l s x
  proof (cases "fst (peek s) = ''OR''")
    case True
    have "fuel_bind (parseAnd n (consume ''OR'' (snd (peek s)))) (\<lambda>(right, s). orLoop n (bool_node [] [l, right] [] []) s) = Some x"
      using that True by (simp add: split_def)
    then have "fuel_bind (parseAnd (Suc n) (consume ''OR'' (snd (peek s)))) (\<lambda>(right, s). orLoop (Suc n) (bool_node [] [l, right] [] []) s) = Some x"
      by (rule fuel_bind_mono) (auto dest: And OrL simp del: parseAnd.simps orLoop.simps)
    then show ?thesis using True by (simp add: split_def del: parseAnd.simps)
  qed (use that in \<open>simp add: split_def\<close>)
  moreover have "andLoop (Suc (Suc n)) l s = Some x" if "andLoop (Suc n) l s = Some x" for l s x
  proof (cases "and_continue s")
    case (Pair y r)
    show ?thesis
    proof (cases y)
      case (Some t)
      have "fuel_bind (parseNot n t) (\<lambda>(right, s). andLoop n (and_node l right) s) = Some x"
        using that Pair Some by simp
      then have "fuel_bind (parseNot (Suc n) t) (\<lambda>(right, s). andLoop (Suc n) (and_node l right) s) = Some x"
        by (rule fuel_bind_mono) (auto dest: Not AndL simp del: parseNot.simps andLoop.simps)
      then show ?thesis using Pair Some by (simp only: andLoop.simps(2) [of "Suc n"] prod.case option.case)
    qed (use that Pair in simp)
  qed
  moreover have "parseNot (Suc (Suc n)) s = Some x" if "parseNot (Suc n) s = Some x" for s x
  proof (cases "fst (peek s) = ''NOT''")
    case True
    have "fuel_bind (parsePrimary n (consume ''NOT'' (snd (peek s)))) (\<lambda>(child, s). Some (Ok (bool_node [] [] [child] [], s))) = Some x"
      using that True by (simp add: split_def)
    then have "fuel_bind (parsePrimary (Suc n) (consume ''NOT'' (snd (peek s)))) (\<lambda>(child, s). Some (Ok (bool_node [] [] [child] [], s))) = Some x"
      by (rule fuel_bind_mono) (auto dest: Prim simp del: parsePrimary.simps)
    then show ?thesis using True by (simp add: split_def del: parsePrimary.simps)
  next
    case False
    then have "parsePrimary n (snd (peek s)) = Some x" using that by (simp add: split_def)
    from Prim [OF this] show ?thesis using False by (simp add: split_def del: parsePrimary.simps)
  qed
  moreover have "parsePrimary (Suc (Suc n)) s = Some x" if "parsePrimary (Suc n) s = Some x" for s x
  proof (cases "skipWS s \<noteq> [] \<and> hd (skipWS s) = CHR ''(''")
    case True
    let ?k = "\<lambda>(node, s). let s = skipWS s in
        if s = [] \<or> hd s \<noteq> CHR '')'' then Some (Err (ErrMsg ''missing closing )'')) else Some (Ok (node :: Node, tl s))"
    have "fuel_bind (parseOr n (tl (skipWS s))) ?k = Some x" using that True by (simp add: Let_def)
    then have "fuel_bind (parseOr (Suc n) (tl (skipWS s))) ?k = Some x"
      by (rule fuel_bind_mono) (auto dest: Or simp del: parseOr.simps)
    then show ?thesis using True by (simp add: Let_def del: parseOr.simps)
  next
    case False
    then show ?thesis using that by (auto simp: Let_def)
  qed
  ultimately show ?case by blast
qed simp

lemma parseOr_fuel: "parseOr n s = Some x \<Longrightarrow> n \<le> m \<Longrightarrow> parseOr m s = Some x"
proof (induction m)
  case (Suc m)
  then show ?case using parse_more_fuel [of m] by (metis le_Suc_eq)
qed simp

lemma parseOr_returns: "returns (length s) (parseOr (parse_fuel s) s)"
  using parse_returns [of "parse_fuel s"] by (simp add: parse_fuel_def)

lemma parse_returns_ok:
  "ParseQueryString input \<noteq> Panic" "ParseQueryString input = Ok node \<Longrightarrow> node_ok node"
proof -
  obtain r where "parseOr (parse_fuel (TrimSpace input)) (TrimSpace input) = Some r"
    "parsed (length (TrimSpace input)) r"
    using parseOr_returns [of "TrimSpace input"] unfolding returns_def by blast
  then show "ParseQueryString input \<noteq> Panic" "ParseQueryString input = Ok node \<Longrightarrow> node_ok node"
    by (cases r; auto simp: ParseQueryString_def parsed_def)+
qed

section \<open>Reading a written query\<close>

text \<open>Boolean expressions over terms with an explicit field, and their text with full parentheses.\<close>

datatype qexpr = QWord string string | QAnd qexpr qexpr | QOr qexpr qexpr | QNot qexpr

fun show_query :: "qexpr \<Rightarrow> string" where
  "show_query (QWord f v) = f @ '':'' @ v"
| "show_query (QAnd a b) = ''('' @ show_query a @ '' AND '' @ show_query b @ '')''"
| "show_query (QOr a b) = ''('' @ show_query a @ '' OR '' @ show_query b @ '')''"
| "show_query (QNot a) = ''(NOT '' @ show_query a @ '')''"

definition plain_char :: "char \<Rightarrow> bool" where
  "plain_char c \<longleftrightarrow> of_char c < (128 :: nat) \<and> \<not> isStop c \<and> \<not> isSpaceByte c"

definition word_ok :: "string \<Rightarrow> string \<Rightarrow> bool" where
  "word_ok f v \<longleftrightarrow> f \<noteq> [] \<and> list_all (\<lambda>c. isIdentChar c \<and> of_char c < (128 :: nat)) f \<and>
     ToUpper f \<notin> {''AND'', ''OR'', ''NOT''} \<and> v \<noteq> [] \<and> list_all plain_char v \<and> last v \<noteq> CHR ''*''"

fun query_ok :: "qexpr \<Rightarrow> bool" where
  "query_ok (QWord f v) \<longleftrightarrow> word_ok f v"
| "query_ok (QAnd a b) \<longleftrightarrow> query_ok a \<and> query_ok b"
| "query_ok (QOr a b) \<longleftrightarrow> query_ok a \<and> query_ok b"
| "query_ok (QNot a) \<longleftrightarrow> query_ok a"

fun query_means :: "string list \<Rightarrow> (string \<Rightarrow> string \<Rightarrow> u32 list) \<Rightarrow> (string \<Rightarrow> string list) \<Rightarrow> qexpr \<Rightarrow> bool" where
  "query_means names occ tok (QWord f v) \<longleftrightarrow> tok v \<noteq> [] \<and> (\<forall>t \<in> set (tok v). term_in names occ f t)"
| "query_means names occ tok (QAnd a b) \<longleftrightarrow> query_means names occ tok a \<and> query_means names occ tok b"
| "query_means names occ tok (QOr a b) \<longleftrightarrow> query_means names occ tok a \<or> query_means names occ tok b"
| "query_means names occ tok (QNot a) \<longleftrightarrow> \<not> query_means names occ tok a"

fun query_node :: "qexpr \<Rightarrow> Node" where
  "query_node (QWord f v) = value_node NodeMatch f v"
| "query_node (QAnd a b) = and_node (query_node a) (query_node b)"
| "query_node (QOr a b) = bool_node [] [query_node a, query_node b] [] []"
| "query_node (QNot a) = bool_node [] [] [query_node a] []"

lemma and_node_matches:
  "doc_matches names occ tok (and_node l r) \<longleftrightarrow> doc_matches names occ tok l \<and> doc_matches names occ tok r"
  by (cases l) (auto simp: and_node_def bool_node_def)

lemma query_node_matches: "doc_matches names occ tok (query_node e) \<longleftrightarrow> query_means names occ tok e"
  by (induction e) (simp_all add: value_node_def bool_node_def and_node_matches)

lemma ident_not_space: "isIdentChar c \<and> of_char c < (128 :: nat) \<Longrightarrow> \<not> isSpaceByte c \<and> \<not> isStop c \<and> c \<noteq> CHR 0x22 \<and> c \<noteq> CHR '':''"
  by (auto simp: isIdentChar_def isSpaceByte_def isStop_def Let_def)

lemma upper_colon: "upper_char (CHR '':'') = CHR '':''" "upper_char (CHR ''('') = CHR ''(''" "upper_char (CHR '')'') = CHR '')''"
  by code_simp+

lemma not_op_word:
  assumes w: "word_ok f v" and op: "op \<in> {''AND'', ''OR'', ''NOT''}"
  shows "\<not> starts_op (f @ CHR '':'' # x) op"
proof
  assume st: "starts_op (f @ CHR '':'' # x) op"
  then have pre: "take (length op) (ToUpper f @ CHR '':'' # ToUpper x) = op"
    by (simp add: starts_op_def HasPrefix_def ToUpper_def upper_colon)
  have neq: "ToUpper f \<noteq> op" and id: "\<forall>c \<in> set f. isIdentChar c"
    using w op by (auto simp: word_ok_def list_all_iff)
  have colon: "CHR '':'' \<notin> set op" using op by auto
  consider "length f < length op" | "length f = length op" | "length op < length f" by linarith
  then show False
  proof cases
    case 1
    then have "(ToUpper f @ CHR '':'' # ToUpper x) ! length f = op ! length f"
      using pre by (metis nth_take)
    then have "op ! length f = CHR '':''" by (simp add: nth_append ToUpper_def)
    then show False using 1 colon by (metis nth_mem)
  next
    case 2
    then show False using pre neq by (simp add: ToUpper_def)
  next
    case 3
    then have "isIdentChar ((f @ CHR '':'' # x) ! length op)" using id by (simp add: nth_append)
    then show False using st 3 by (simp add: starts_op_def)
  qed
qed

lemma not_op_paren: "c \<in> {CHR ''('', CHR '')''} \<Longrightarrow> op \<in> {''AND'', ''OR'', ''NOT''} \<Longrightarrow> \<not> starts_op (c # x) op"
  by (auto simp: starts_op_def HasPrefix_def ToUpper_def upper_colon)

lemma isSpaceByte_eval [simp]:
  "isSpaceByte (CHR '' '')" "\<not> isSpaceByte (CHR ''('')" "\<not> isSpaceByte (CHR '')'')"
  "\<not> isSpaceByte (CHR ''A'')" "\<not> isSpaceByte (CHR ''O'')" "\<not> isSpaceByte (CHR ''N'')"
  by code_simp+

lemma skipWS_Cons [simp]: "isSpaceByte c \<Longrightarrow> skipWS (c # s) = skipWS s" "\<not> isSpaceByte c \<Longrightarrow> skipWS (c # s) = c # s"
  by (simp_all add: skipWS_def)

lemma peek_none:
  assumes "skipWS s = s" and "\<And>op. op \<in> {''AND'', ''OR'', ''NOT''} \<Longrightarrow> \<not> starts_op s op"
  shows "peek s = ('''', s)"
  using assms by (simp add: peek_def Let_def)

lemma peek_paren: "c \<in> {CHR ''('', CHR '')''} \<Longrightarrow> peek (c # s) = ('''', c # s)"
  by (rule peek_none) (auto simp: not_op_paren)

lemma show_query_start:
  assumes "query_ok e"
  shows "skipWS (show_query e @ r) = show_query e @ r \<and> peek (show_query e @ r) = ('''', show_query e @ r) \<and>
    (\<exists>c u. show_query e @ r = c # u \<and> c \<noteq> CHR '')'')"
proof (cases e)
  case (QWord f v)
  then have w: "word_ok f v" using assms by simp
  then obtain c f' where f: "f = c # f'" and c: "isIdentChar c \<and> of_char c < (128 :: nat)"
    by (cases f) (auto simp: word_ok_def)
  have sk: "skipWS (f @ CHR '':'' # v @ r) = f @ CHR '':'' # v @ r" using f ident_not_space [OF c] by simp
  have "peek (f @ CHR '':'' # v @ r) = ('''', f @ CHR '':'' # v @ r)"
    using not_op_word [OF w, of _ "v @ r"] sk by (intro peek_none) auto
  then show ?thesis using QWord sk f c ident_not_space [OF c] by (auto simp: isStop_def)
qed (simp_all add: peek_paren)

lemma peek_ops:
  "peek ('' AND '' @ s) = (''AND'', ''AND '' @ s)" "peek ('' OR '' @ s) = (''OR'', ''OR '' @ s)"
  "peek (''NOT '' @ s) = (''NOT'', ''NOT '' @ s)"
proof -
  have u: "map upper_char ''AND '' = ''AND ''" "map upper_char ''OR '' = ''OR ''" "map upper_char ''NOT '' = ''NOT ''"
    and i: "\<not> isIdentChar (CHR '' '')"
    by code_simp+
  show "peek ('' AND '' @ s) = (''AND'', ''AND '' @ s)" "peek ('' OR '' @ s) = (''OR'', ''OR '' @ s)"
    "peek (''NOT '' @ s) = (''NOT'', ''NOT '' @ s)"
    using u i by (simp_all add: peek_def starts_op_def HasPrefix_def ToUpper_def Let_def)
qed

text \<open>The result with enough fuel.\<close>

definition ends :: "(nat \<Rightarrow> 'a option) \<Rightarrow> 'a \<Rightarrow> bool" where
  "ends P x \<longleftrightarrow> (\<exists>n. \<forall>m \<ge> n. P m = Some x)"

lemma ends_const [intro]: "ends (\<lambda>_. Some x) x"
  by (simp add: ends_def)

lemma ends_Suc: "ends (\<lambda>n. P (Suc n)) x \<Longrightarrow> ends P x"
  unfolding ends_def by (metis Suc_le_D Suc_le_mono)

lemma ends_bind:
  assumes "ends P (Ok y)" and "ends (\<lambda>n. F n y) x"
  shows "ends (\<lambda>n. fuel_bind (P n) (F n)) x"
proof -
  obtain a b where "\<forall>m \<ge> a. P m = Some (Ok y)" "\<forall>m \<ge> b. F m y = Some x" using assms by (auto simp: ends_def)
  then show ?thesis unfolding ends_def by (intro exI [of _ "max a b"]) (simp add: fuel_bind_def)
qed

definition delimited :: "string \<Rightarrow> bool" where
  "delimited r \<longleftrightarrow> r = [] \<or> hd r = CHR '' '' \<or> hd r = CHR '')''"

lemma takeWhile_delimited:
  assumes "\<forall>c \<in> set w. \<not> isStop c" and "delimited r"
  shows "takeWhile (\<lambda>c. \<not> isStop c) (w @ r) = w"
  using assms by (cases r) (auto simp: delimited_def isStop_def takeWhile_append)

lemma parseTerm_word:
  assumes w: "word_ok f v" and r: "delimited r"
  shows "parseTerm (f @ CHR '':'' # v @ r) = Ok (value_node NodeMatch f v, r)"
proof -
  let ?w = "f @ CHR '':'' # v"
  obtain c f' where f: "f = c # f'" and c: "isIdentChar c \<and> of_char c < (128 :: nat)"
    using w by (cases f) (auto simp: word_ok_def)
  have fc: "\<forall>c \<in> set f. \<not> isStop c \<and> c \<noteq> CHR '':''"
    using w ident_not_space by (auto simp: word_ok_def list_all_iff)
  have vc: "\<forall>c \<in> set v. \<not> isStop c" using w by (auto simp: word_ok_def list_all_iff plain_char_def)
  have tw: "takeWhile (\<lambda>c. \<not> isStop c) (?w @ r) = ?w"
    using fc vc r by (intro takeWhile_delimited) (auto simp: isStop_def)
  have sk: "skipWS (?w @ r) = ?w @ r" using f ident_not_space [OF c] by simp
  have "CHR '':'' \<in> set (ToUpper ?w)" by (simp add: ToUpper_def upper_colon)
  then have "ToUpper ?w \<noteq> ''AND'' \<and> ToUpper ?w \<noteq> ''OR'' \<and> ToUpper ?w \<noteq> ''NOT''" by auto
  then have "readToken (?w @ r) = (?w, r)"
    using tw f ident_not_space [OF c] unfolding readToken_def sk by (simp add: Let_def)
  moreover have "IndexByte ?w (CHR '':'') = Some (length f)" using fc by (intro IndexByte_append) auto
  moreover have "termNode f v = value_node NodeMatch f v"
  proof -
    have "CHR '' '' \<notin> set v" using vc by (auto simp: isStop_def)
    moreover have "\<not> HasSuffix v ''*''" using w by (auto simp: HasSuffix_iff word_ok_def)
    ultimately show ?thesis by (simp add: termNode_def)
  qed
  moreover have "v \<noteq> []" "0 < length f" using w by (auto simp: word_ok_def)
  ultimately show ?thesis using sk by (simp add: parseTerm_def Let_def)
qed

lemma delimited_simps [simp]: "delimited (CHR '' '' # r)" "delimited (CHR '')'' # r)"
  by (simp_all add: delimited_def)

text \<open>Operands, loops and the closing parenthesis.\<close>

lemma ends_operand:
  assumes "query_ok e" and "ends (\<lambda>n. parsePrimary n (show_query e @ r)) x"
  shows "ends (\<lambda>n. parseNot n (show_query e @ r)) x" "ends (\<lambda>n. parseNot n (CHR '' '' # show_query e @ r)) x"
proof -
  have p: "peek (show_query e @ r) = ('''', show_query e @ r)" and sk: "skipWS (show_query e @ r) = show_query e @ r"
    using show_query_start [OF assms(1)] by blast+
  have "peek (CHR '' '' # show_query e @ r) = ('''', show_query e @ r)"
    using p sk unfolding peek_def by simp
  then show "ends (\<lambda>n. parseNot n (show_query e @ r)) x" "ends (\<lambda>n. parseNot n (CHR '' '' # show_query e @ r)) x"
    using p assms(2) by (auto intro!: ends_Suc [of "\<lambda>n. parseNot n _"])
qed

lemma and_continue_eval:
  "and_continue ('' AND '' @ s) = (Some (CHR '' '' # s), ''AND '' @ s)"
  "and_continue ('' OR '' @ s) = (None, ''OR '' @ s)"
  "and_continue (CHR '')'' # s) = (None, CHR '')'' # s)"
  by (simp_all only: and_continue_def peek_ops peek_paren insert_iff simp_thms Let_def split)
    (simp_all add: consume_def hasMore_def peek_paren)

lemma ends_andLoop_stop:
  "ends (\<lambda>n. andLoop n l (CHR '')'' # r)) (Ok (l, CHR '')'' # r))"
  "ends (\<lambda>n. andLoop n l ('' OR '' @ r)) (Ok (l, ''OR '' @ r))"
  by (rule ends_Suc; simp only: andLoop.simps and_continue_eval; auto)+

lemma ends_orLoop_stop: "ends (\<lambda>n. orLoop n l (CHR '')'' # r)) (Ok (l, CHR '')'' # r))"
  by (rule ends_Suc) (auto simp: peek_paren)

lemma ends_group:
  assumes "ends (\<lambda>n. parseOr n s) (Ok (node, CHR '')'' # r))"
  shows "ends (\<lambda>n. parsePrimary n (CHR ''('' # s)) (Ok (node, r))"
proof (rule ends_Suc)
  have "ends (\<lambda>n. fuel_bind (parseOr n s) (\<lambda>(node, s). let s = skipWS s in
      if s = [] \<or> hd s \<noteq> CHR '')'' then Some (Err (ErrMsg ''missing closing )'')) else Some (Ok (node, tl s)))) (Ok (node, r))"
    by (rule ends_bind [OF assms]) auto
  then show "ends (\<lambda>n. parsePrimary (Suc n) (CHR ''('' # s)) (Ok (node, r))" by simp
qed

lemma ends_shift: "ends P x \<Longrightarrow> ends (\<lambda>n. P (Suc n)) x"
  unfolding ends_def by (metis le_SucI)

lemma ends_parseAnd:
  "ends (\<lambda>n. parseNot n s) (Ok (l, t)) \<Longrightarrow> ends (\<lambda>n. andLoop n l t) x \<Longrightarrow> ends (\<lambda>n. parseAnd n s) x"
  using ends_bind [of "\<lambda>n. parseNot n s" "(l, t)" "\<lambda>n (l, t). andLoop n l t" x]
  by (intro ends_Suc [of "\<lambda>n. parseAnd n s"]) simp

lemma ends_parseOr:
  "ends (\<lambda>n. parseAnd n s) (Ok (l, t)) \<Longrightarrow> ends (\<lambda>n. orLoop n l t) x \<Longrightarrow> ends (\<lambda>n. parseOr n s) x"
  using ends_bind [of "\<lambda>n. parseAnd n s" "(l, t)" "\<lambda>n (l, t). orLoop n l t" x]
  by (intro ends_Suc [of "\<lambda>n. parseOr n s"]) simp

lemma ends_andLoop:
  assumes "ends (\<lambda>n. parseNot n (CHR '' '' # s)) (Ok (b, t))" and "ends (\<lambda>n. andLoop n (and_node a b) t) x"
  shows "ends (\<lambda>n. andLoop n a ('' AND '' @ s)) x"
  using ends_bind [OF assms(1), of "\<lambda>n (b, t). andLoop n (and_node a b) t" x] assms(2)
  by (intro ends_Suc [of "\<lambda>n. andLoop n a _"]) (simp only: andLoop.simps and_continue_eval prod.case option.case)

lemma ends_orLoop:
  assumes "ends (\<lambda>n. parseAnd n (CHR '' '' # s)) (Ok (b, t))" and "ends (\<lambda>n. orLoop n (bool_node [] [a, b] [] []) t) x"
  shows "ends (\<lambda>n. orLoop n a (''OR '' @ s)) x"
proof (rule ends_Suc)
  have c: "peek (''OR '' @ s) = (''OR'', ''OR '' @ s)" "consume ''OR'' (''OR '' @ s) = CHR '' '' # s"
    using peek_ops(2) [of s] by (simp_all add: peek_def consume_def Let_def)
  show "ends (\<lambda>n. orLoop (Suc n) a (''OR '' @ s)) x"
    using ends_bind [OF assms(1), of "\<lambda>n (b, t). orLoop n (bool_node [] [a, b] [] []) t" x] assms(2)
    by (simp only: orLoop.simps c Let_def prod.case simp_thms if_True)
qed

lemma ends_parseNot:
  assumes "ends (\<lambda>n. parsePrimary n (CHR '' '' # s)) (Ok (a, t))"
  shows "ends (\<lambda>n. parseNot n (''NOT '' @ s)) (Ok (bool_node [] [] [a] [], t))"
proof (rule ends_Suc)
  have c: "consume ''NOT'' (''NOT '' @ s) = CHR '' '' # s" by (simp add: consume_def)
  show "ends (\<lambda>n. parseNot (Suc n) (''NOT '' @ s)) (Ok (bool_node [] [] [a] [], t))"
    using ends_bind [OF assms, of "\<lambda>n (a, t). Some (Ok (bool_node [] [] [a] [], t))" "Ok (bool_node [] [] [a] [], t)"]
      ends_const [of "Ok (bool_node [] [] [a] [], t)"]
    by (simp only: parseNot.simps peek_ops c Let_def prod.case simp_thms if_True)
qed

lemma ends_primary:
  "query_ok e \<Longrightarrow> delimited r \<Longrightarrow> ends (\<lambda>n. parsePrimary n (show_query e @ r)) (Ok (query_node e, r))"
proof (induction e arbitrary: r)
  case (QWord f v)
  then obtain c f' where f: "f = c # f'" and c: "isIdentChar c \<and> of_char c < (128 :: nat)"
    by (cases f) (auto simp: word_ok_def)
  have "c \<noteq> CHR ''(''" using ident_not_space [OF c] by (auto simp: isStop_def)
  moreover have "parseTerm (f @ CHR '':'' # v @ r) = Ok (value_node NodeMatch f v, r)"
    using QWord by (intro parseTerm_word) simp_all
  ultimately show ?case
    using f ident_not_space [OF c] by (intro ends_Suc [of "\<lambda>n. parsePrimary n _"]) (simp add: Let_def ends_const)
next
  case (QAnd a b)
  let ?s = "show_query b @ CHR '')'' # r" and ?n = "and_node (query_node a) (query_node b)"
  have "ends (\<lambda>n. parseNot n (CHR '' '' # ?s)) (Ok (query_node b, CHR '')'' # r))"
    using QAnd by (intro ends_operand(2)) simp_all
  then have "ends (\<lambda>n. andLoop n (query_node a) ('' AND '' @ ?s)) (Ok (?n, CHR '')'' # r))"
    by (rule ends_andLoop) (rule ends_andLoop_stop(1))
  moreover have "ends (\<lambda>n. parseNot n (show_query a @ '' AND '' @ ?s)) (Ok (query_node a, '' AND '' @ ?s))"
    using QAnd by (intro ends_operand(1)) simp_all
  ultimately have "ends (\<lambda>n. parseOr n (show_query a @ '' AND '' @ ?s)) (Ok (?n, CHR '')'' # r))"
    by (intro ends_parseOr [OF ends_parseAnd ends_orLoop_stop])
  from ends_group [OF this] show ?case by simp
next
  case (QOr a b)
  let ?s = "show_query b @ CHR '')'' # r" and ?n = "bool_node [] [query_node a, query_node b] [] []"
  have "ends (\<lambda>n. parseNot n (CHR '' '' # ?s)) (Ok (query_node b, CHR '')'' # r))"
    using QOr by (intro ends_operand(2)) simp_all
  then have "ends (\<lambda>n. parseAnd n (CHR '' '' # ?s)) (Ok (query_node b, CHR '')'' # r))"
    by (rule ends_parseAnd) (rule ends_andLoop_stop(1))
  then have "ends (\<lambda>n. orLoop n (query_node a) (''OR '' @ ?s)) (Ok (?n, CHR '')'' # r))"
    by (rule ends_orLoop) (rule ends_orLoop_stop)
  moreover have "ends (\<lambda>n. parseNot n (show_query a @ '' OR '' @ ?s)) (Ok (query_node a, '' OR '' @ ?s))"
    using QOr by (intro ends_operand(1)) simp_all
  then have "ends (\<lambda>n. parseAnd n (show_query a @ '' OR '' @ ?s)) (Ok (query_node a, ''OR '' @ ?s))"
    by (rule ends_parseAnd) (rule ends_andLoop_stop(2))
  ultimately have "ends (\<lambda>n. parseOr n (show_query a @ '' OR '' @ ?s)) (Ok (?n, CHR '')'' # r))"
    by (intro ends_parseOr)
  from ends_group [OF this] show ?case by simp
next
  case (QNot a)
  let ?s = "show_query a @ CHR '')'' # r" and ?n = "bool_node [] [] [query_node a] []"
  have sk: "skipWS ?s = ?s" using show_query_start [of a "CHR '')'' # r"] QNot.prems(1) by simp
  have "ends (\<lambda>n. parsePrimary n ?s) (Ok (query_node a, CHR '')'' # r))" using QNot by simp
  then have "ends (\<lambda>n. parsePrimary (Suc n) ?s) (Ok (query_node a, CHR '')'' # r))" by (rule ends_shift)
  then have "ends (\<lambda>n. parsePrimary n (CHR '' '' # ?s)) (Ok (query_node a, CHR '')'' # r))"
    using sk by (intro ends_Suc [of "\<lambda>n. parsePrimary n (CHR '' '' # ?s)"]) simp
  then have "ends (\<lambda>n. parseNot n (''NOT '' @ ?s)) (Ok (?n, CHR '')'' # r))" by (rule ends_parseNot)
  then have "ends (\<lambda>n. parseAnd n (''NOT '' @ ?s)) (Ok (?n, CHR '')'' # r))"
    by (rule ends_parseAnd) (rule ends_andLoop_stop(1))
  then have "ends (\<lambda>n. parseOr n (''NOT '' @ ?s)) (Ok (?n, CHR '')'' # r))"
    by (rule ends_parseOr) (rule ends_orLoop_stop)
  from ends_group [OF this] show ?case by simp
qed

section \<open>Trimming\<close>

lemma runes_ascii:
  "\<forall>b \<in> set bs. b < 0x80 \<Longrightarrow> runes_from i bs = zip [i..<i + length bs] (map ucast bs)"
proof (induction bs arbitrary: i)
  case (Cons b bs)
  have "DecodeRune (b # bs) = (ucast b, 1)" using Cons.prems by simp
  moreover have "[i..<i + length (b # bs)] = i # [Suc i..<Suc i + length bs]"
    using upt_conv_Cons [of i "i + length (b # bs)"] by simp
  ultimately show ?case using Cons.IH [of "Suc i"] Cons.prems by (simp add: runes_from.simps [of i "b # bs"])
qed (simp add: runes_from.simps)

lemma word_runs_last:
  "word_end w n i rs \<noteq> [] \<and> fst (hd (word_end w n i rs)) = i"
  "rs \<noteq> [] \<Longrightarrow> w (snd (last rs)) \<Longrightarrow> word_runs w n rs \<noteq> [] \<and> snd (last (word_runs w n rs)) = n"
  "rs = [] \<or> w (snd (last rs)) \<Longrightarrow> snd (last (word_end w n i rs)) = n"
proof -
  show "word_end w n i rs \<noteq> [] \<and> fst (hd (word_end w n i rs)) = i"
    by (induction rs arbitrary: i) (auto split: if_splits)
  have "(rs \<noteq> [] \<longrightarrow> w (snd (last rs)) \<longrightarrow> word_runs w n rs \<noteq> [] \<and> snd (last (word_runs w n rs)) = n) \<and>
      (rs = [] \<or> w (snd (last rs)) \<longrightarrow> word_end w n i rs \<noteq> [] \<and> snd (last (word_end w n i rs)) = n)" for i
    by (induction rs arbitrary: i) (auto split: if_splits)
  then show "rs \<noteq> [] \<Longrightarrow> w (snd (last rs)) \<Longrightarrow> word_runs w n rs \<noteq> [] \<and> snd (last (word_runs w n rs)) = n"
    "rs = [] \<or> w (snd (last rs)) \<Longrightarrow> snd (last (word_end w n i rs)) = n" by auto
qed

lemma IsSpace_byte: "of_char c < (128 :: nat) \<Longrightarrow> IsSpace (ucast (byte_of_char c)) \<longleftrightarrow> isSpaceByte c"
proof -
  assume c: "of_char c < (128 :: nat)"
  then have "unat (ucast (byte_of_char c) :: u32) = of_char c"
    by (simp add: byte_of_char_def unsigned_ucast_eq unat_of_nat take_bit_eq_mod)
  then show ?thesis
    using c by (simp add: IsSpace_def isSpaceByte_def Let_def word_le_nat_alt word_unat_eq_iff)
qed

lemma TrimSpace_id:
  assumes s: "s = c # t" and ascii: "\<forall>c \<in> set s. of_char c < (128 :: nat)"
    and ends: "\<not> isSpaceByte c" "\<not> isSpaceByte (last s)"
  shows "TrimSpace s = s"
proof -
  let ?n = "length s" and ?w = "\<lambda>r. \<not> IsSpace r"
  let ?rs = "runes_from 0 (bytes_of s)"
  have "byte_of_char c < 0x80" if "of_char c < (128 :: nat)" for c
    using that by (simp add: byte_of_char_def word_less_nat_alt unat_of_nat)
  then have rs: "?rs = zip [0..<?n] (map ucast (bytes_of s))"
    using ascii by (subst runes_ascii) (auto simp: bytes_of_def)
  have bytes: "bytes_of s = byte_of_char c # bytes_of t" by (simp add: s bytes_of_def)
  have first: "?rs = (0, ucast (byte_of_char c)) # zip [1..<?n] (map ucast (bytes_of t))"
    unfolding rs unfolding bytes by (simp add: s upt_conv_Cons del: upt_Suc)
  have "snd (last ?rs) = ucast (byte_of_char (last s))"
    unfolding rs by (subst last_zip) (simp_all add: s last_map bytes_of_def)
  moreover have "?w (ucast (byte_of_char c))" "?w (ucast (byte_of_char (last s)))"
    using ends ascii s IsSpace_byte [of c] IsSpace_byte [of "last s"] last_in_set [of s] by (auto simp del: last.simps)
  ultimately have "space_runs s \<noteq> []" "fst (hd (space_runs s)) = 0" "snd (last (space_runs s)) = ?n"
    using word_runs_last(1) [of ?w ?n 0] word_runs_last(2) [of ?rs ?w ?n] unfolding space_runs_def by (simp_all add: first)
  then show ?thesis by (cases "space_runs s") (auto simp: TrimSpace_def substr_def)
qed

lemma show_query_ascii: "query_ok e \<Longrightarrow> \<forall>c \<in> set (show_query e). of_char c < (128 :: nat)"
  by (induction e) (auto simp: word_ok_def list_all_iff plain_char_def)

lemma show_query_ends: "query_ok e \<Longrightarrow> show_query e \<noteq> [] \<and> \<not> isSpaceByte (hd (show_query e)) \<and> \<not> isSpaceByte (last (show_query e))"
proof (cases e)
  case (QWord f v)
  assume "query_ok e"
  then have w: "word_ok f v" using QWord by simp
  then have "f \<noteq> []" "v \<noteq> []" "isIdentChar (hd f) \<and> of_char (hd f) < (128 :: nat)" "plain_char (last v)"
    by (auto simp: word_ok_def list_all_iff)
  then show ?thesis using QWord ident_not_space [of "hd f"] by (auto simp: plain_char_def)
qed simp_all

section \<open>Properties\<close>



text \<open>C23: A boolean query over words with explicit fields, written with AND, OR, NOT and full
  parentheses, parses, and the tree matches a document exactly when the query is true of it.\<close>

theorem query_string_means_what_it_says:
  assumes "query_ok e"
  shows "\<exists>node. ParseQueryString (show_query e) = Ok node \<and>
    (\<forall>names occ tok. doc_matches names occ tok node \<longleftrightarrow> query_means names occ tok e)"
proof -
  let ?s = "show_query e"
  obtain c t where s: "?s = c # t" using show_query_ends [OF assms] by (cases ?s) auto
  then have trim: "TrimSpace ?s = ?s"
    using show_query_ends [OF assms] show_query_ascii [OF assms] by (intro TrimSpace_id) auto
  have "ends (\<lambda>n. parseNot n ?s) (Ok (query_node e, []))"
    using ends_operand(1) [OF assms, of "[]"] ends_primary [OF assms, of "[]"] by (simp add: delimited_def)
  moreover have e: "peek [] = ('''', [])" "and_continue [] = (None, [])" by code_simp+
  then have "ends (\<lambda>n. andLoop n (query_node e) []) (Ok (query_node e, []))"
    by (intro ends_Suc [of "\<lambda>n. andLoop n _ _"]) (simp add: ends_const)
  ultimately have "ends (\<lambda>n. parseAnd n ?s) (Ok (query_node e, []))" by (rule ends_parseAnd)
  moreover have "ends (\<lambda>n. orLoop n (query_node e) []) (Ok (query_node e, []))"
    using e by (intro ends_Suc [of "\<lambda>n. orLoop n _ _"]) (simp add: ends_const)
  ultimately have "ends (\<lambda>n. parseOr n ?s) (Ok (query_node e, []))" by (rule ends_parseOr)
  then obtain n where "\<forall>m \<ge> n. parseOr m ?s = Some (Ok (query_node e, []))" by (auto simp: ends_def)
  moreover obtain r where "parseOr (parse_fuel ?s) ?s = Some r" using parseOr_returns [of ?s] by (auto simp: returns_def)
  ultimately have "parseOr (parse_fuel ?s) ?s = Some (Ok (query_node e, []))"
    using parseOr_fuel [of "parse_fuel ?s" ?s r "max n (parse_fuel ?s)"] by simp
  then have "ParseQueryString ?s = Ok (query_node e)" using trim by (simp add: ParseQueryString_def)
  then show ?thesis using query_node_matches by blast
qed

theorem query_string_means_what_it_says_witness:
  "\<exists>node. ParseQueryString ''(title:cat AND (NOT body:dog))'' = Ok node \<and>
    (\<forall>names occ tok. doc_matches names occ tok node \<longleftrightarrow>
      query_means names occ tok (QAnd (QWord ''title'' ''cat'') (QNot (QWord ''body'' ''dog''))))"
proof -
  have "query_ok (QAnd (QWord ''title'' ''cat'') (QNot (QWord ''body'' ''dog'')))" by code_simp
  from query_string_means_what_it_says [OF this] show ?thesis by simp
qed

end
