(* ===== verification/Query_DSL.thy ===== *)
theory Query_DSL
  imports Query_Parser
begin

text \<open>
  Requests and the JSON query language (\<open>src/pkg/query/dsl.go\<close>). What \<open>json.Unmarshal\<close> makes of
  its input is the parameter \<open>J\<close>, one function for each Go type the code decodes into; an absent
  \<open>json.RawMessage\<close> is the empty byte list. \<open>query_json_ok\<close> states the one fact the code relies on:
  the raw messages inside an object are proper parts of its text. Nested nodes are parsed
  recursively with fuel; one unit per byte is enough.

  Go's \<open>int\<close> has 64 bits, so \<open>from+size\<close> wraps around: the check against deep pagination lets an
  offset near the largest integer pass.
\<close>

section \<open>Decoding\<close>

record rawNode =
  rn_Type :: string
  rn_Field :: string
  rn_Value :: string
  rn_GTE :: bytes
  rn_LTE :: bytes
  rn_GT :: bytes
  rn_LT :: bytes
  rn_Must :: "bytes list"
  rn_Should :: "bytes list"
  rn_MustNot :: "bytes list"
  rn_Filter :: "bytes list"
  rn_Terms :: "string list"

record rawRequest =
  rq_Query :: bytes
  rq_Size :: i64
  rq_From :: i64

record query_json =
  qj_node :: "bytes \<Rightarrow> rawNode result"
  qj_request :: "bytes \<Rightarrow> rawRequest result"
  qj_string :: "bytes \<Rightarrow> string result"
  qj_int64 :: "bytes \<Rightarrow> i64 result"

definition rn_children :: "rawNode \<Rightarrow> bytes list" where
  "rn_children raw = rn_Must raw @ rn_Should raw @ rn_MustNot raw @ rn_Filter raw"

definition query_json_ok :: "query_json \<Rightarrow> bool" where
  "query_json_ok J \<longleftrightarrow>
     (\<forall>data. qj_node J data \<noteq> Panic \<and> qj_string J data \<noteq> Panic \<and> qj_request J data \<noteq> Panic) \<and>
     (\<forall>data raw r. qj_node J data = Ok raw \<longrightarrow> r \<in> set (rn_children raw) \<longrightarrow> length r < length data)"

record SearchParams =
  sp_Query :: Node
  sp_Size :: i64
  sp_From :: i64

definition parseRangeVal :: "query_json \<Rightarrow> bytes \<Rightarrow> i64 option" where
  "parseRangeVal J raw =
     (if raw = [] then None else case qj_int64 J raw of Ok v \<Rightarrow> Some v | _ \<Rightarrow> None)"

section \<open>Nodes\<close>

function (sequential) ParseNode :: "query_json \<Rightarrow> nat \<Rightarrow> bytes \<Rightarrow> Node result option"
  and parse_nodes :: "query_json \<Rightarrow> nat \<Rightarrow> bytes list \<Rightarrow> Node list result option" where
  "ParseNode J 0 data = None"
| "ParseNode J (Suc n) data =
     (case qj_node J data of
        Panic \<Rightarrow> Some Panic
      | Err e \<Rightarrow> Some (Err e)
      | Ok raw \<Rightarrow>
        (let nt = rn_Type raw; fld = rn_Field raw; v = rn_Value raw; ts = rn_Terms raw in
         if nt \<in> {NodeTerm, NodeMatch, NodeKeyword, NodePrefix} then
           (if fld = '''' \<or> v = '''' then Some (Err (ErrMsg ''query: field and value required''))
            else Some (Ok (Node nt fld v None None None None [] [] [] [] ts)))
         else if nt = NodeRange then
           (if fld = '''' then Some (Err (ErrMsg ''query range: field required''))
            else Some (Ok (Node nt fld v (parseRangeVal J (rn_GTE raw)) (parseRangeVal J (rn_LTE raw))
              (parseRangeVal J (rn_GT raw)) (parseRangeVal J (rn_LT raw)) [] [] [] [] ts)))
         else if nt = NodeBool then
           fuel_bind (parse_nodes J n (rn_Must raw)) (\<lambda>must.
           fuel_bind (parse_nodes J n (rn_Should raw)) (\<lambda>should.
           fuel_bind (parse_nodes J n (rn_MustNot raw)) (\<lambda>mustNot.
           fuel_bind (parse_nodes J n (rn_Filter raw)) (\<lambda>flt.
             Some (Ok (Node nt fld v None None None None must should mustNot flt ts))))))
         else if nt = NodePhrase then
           (if fld = '''' \<or> ts = [] then Some (Err (ErrMsg ''query phrase: field and terms required''))
            else Some (Ok (Node nt fld v None None None None [] [] [] [] ts)))
         else Some (Err (ErrMsg ''unknown query type''))))"
| "parse_nodes J n [] = Some (Ok [])"
| "parse_nodes J n (r # rs) =
     fuel_bind (ParseNode J n r) (\<lambda>x. fuel_bind (parse_nodes J n rs) (\<lambda>xs. Some (Ok (x # xs))))"
  by pat_completeness auto
termination
  by (relation "inv_image (less_than <*lex*> less_than)
    (\<lambda>x. case x of Inl (J, n, d) \<Rightarrow> (n, 0) | Inr (J, n, rs) \<Rightarrow> (n, Suc (length rs)))") auto

section \<open>Requests\<close>

definition ParseRequest :: "query_json \<Rightarrow> bytes \<Rightarrow> SearchParams result" where
  "ParseRequest J data =
     res_bind (qj_request J data) (\<lambda>req.
     let size = (if sint (rq_Size req) \<le> 0 then 10 else rq_Size req);
         size = (if MaxSearchSize < sint size then word_of_int MaxSearchSize else size);
         from = (if sint (rq_From req) < 0 then 0 else rq_From req);
         (from, size) = (if MaxSearchSize < sint (from + size) then (0, word_of_int MaxSearchSize) else (from, size));
         q = rq_Query req in
     res_bind
       (if q = [] \<or> string_of q = ''null'' then Ok MatchAll
        else if hd q = 0x22 then res_bind (qj_string J q) (\<lambda>qs. ParseQueryString qs)
        else case ParseNode J (Suc (length q)) q of Some r \<Rightarrow> r | None \<Rightarrow> Panic)
       (\<lambda>node. Ok \<lparr>sp_Query = node, sp_Size = size, sp_From = from\<rparr>))"

section \<open>Termination and shape\<close>

lemma fuel_bind_Some:
  "fuel_bind r f = Some x \<longleftrightarrow>
     (\<exists>y. r = Some (Ok y) \<and> f y = Some x) \<or> (\<exists>e. r = Some (Err e) \<and> x = Err e) \<or> (r = Some Panic \<and> x = Panic)"
  by (cases r; simp add: fuel_bind_def; cases "the r"; auto)

definition node_result :: "('a \<Rightarrow> bool) \<Rightarrow> 'a result option \<Rightarrow> bool" where
  "node_result P r \<longleftrightarrow> (\<exists>x. r = Some x \<and> x \<noteq> Panic \<and> (\<forall>y. x = Ok y \<longrightarrow> P y))"

lemma node_result_simps [simp]:
  "node_result P (Some (Ok y)) \<longleftrightarrow> P y" "node_result P (Some (Err e))"
  by (simp_all add: node_result_def)

lemma node_result_bind:
  assumes "node_result P r" and "\<And>y. P y \<Longrightarrow> node_result Q (f y)"
  shows "node_result Q (fuel_bind r f)"
proof -
  obtain x where "r = Some x" "x \<noteq> Panic" "\<forall>y. x = Ok y \<longrightarrow> P y" using assms(1) by (auto simp: node_result_def)
  then show ?thesis using assms(2) by (cases x) (auto simp: fuel_bind_def)
qed

lemma ParseNode_returns:
  assumes J: "query_json_ok J"
  shows "(\<forall>data. length data < n \<longrightarrow> node_result node_ok (ParseNode J n data)) \<and>
    (\<forall>rs. (\<forall>r \<in> set rs. length r < n) \<longrightarrow> node_result (list_all node_ok) (parse_nodes J n rs))"
proof (induction n)
  case 0
  have "node_result (list_all node_ok) (parse_nodes J 0 rs)" if "\<forall>r \<in> set rs. length r < 0" for rs
    using that by (cases rs) auto
  then show ?case by simp
next
  case (Suc n)
  have one: "node_result node_ok (ParseNode J (Suc n) data)" if len: "length data < Suc n" for data
  proof (cases "qj_node J data")
    case (Ok raw)
    have "\<forall>r \<in> set (rn_children raw). length r < length data"
      using J Ok unfolding query_json_ok_def by blast
    then have short: "\<forall>r \<in> set (rn_children raw). length r < n" using len by auto
    have "node_result (list_all node_ok) (parse_nodes J n rs)" if "set rs \<subseteq> set (rn_children raw)" for rs
      using Suc.IH short that by blast
    then have lists: "node_result (list_all node_ok) (parse_nodes J n (rn_Must raw))"
      "node_result (list_all node_ok) (parse_nodes J n (rn_Should raw))"
      "node_result (list_all node_ok) (parse_nodes J n (rn_MustNot raw))"
      "node_result (list_all node_ok) (parse_nodes J n (rn_Filter raw))"
      by (auto simp: rn_children_def)
    show ?thesis
    proof (cases "rn_Type raw = NodeBool")
      case True
      show ?thesis using Ok True
        by (simp add: Let_def) (intro node_result_bind [OF lists(1)] node_result_bind [OF lists(2)]
          node_result_bind [OF lists(3)] node_result_bind [OF lists(4)], simp add: known_type_def)
    next
      case False
      then show ?thesis using Ok by (simp add: Let_def) (auto simp: known_type_def)
    qed
  next
    case Panic
    then show ?thesis using J by (simp add: query_json_ok_def)
  qed simp
  have "node_result (list_all node_ok) (parse_nodes J (Suc n) rs)" if "\<forall>r \<in> set rs. length r < Suc n" for rs
    using that
  proof (induction rs)
    case (Cons r rs)
    have "node_result node_ok (ParseNode J (Suc n) r)" using one Cons.prems by simp
    moreover have "node_result (list_all node_ok) (parse_nodes J (Suc n) rs)" using Cons by simp
    ultimately show ?case
      by (subst parse_nodes.simps) (intro node_result_bind [of node_ok] node_result_bind [of "list_all node_ok"]; simp)
  qed simp
  then show ?case using one by blast
qed

lemma ParseRequest_window:
  assumes J: "query_json_ok J"
  shows "(\<exists>e. ParseRequest J data = Err e) \<or>
    (\<exists>sp. ParseRequest J data = Ok sp \<and> node_ok (sp_Query sp) \<and>
      0 < sint (sp_Size sp) \<and> sint (sp_Size sp) \<le> MaxSearchSize \<and> 0 \<le> sint (sp_From sp) \<and>
      (sint (sp_From sp) + sint (sp_Size sp) \<le> MaxSearchSize \<or> 2 ^ 63 \<le> sint (sp_From sp) + sint (sp_Size sp)))"
proof (cases "qj_request J data")
  case (Ok req)
  define s1 where "s1 = (if sint (rq_Size req) \<le> 0 then 10 else rq_Size req)"
  define s2 where "s2 = (if MaxSearchSize < sint s1 then word_of_int MaxSearchSize else s1)"
  define f1 where "f1 = (if sint (rq_From req) < 0 then 0 else rq_From req)"
  define fs where "fs = (if MaxSearchSize < sint (f1 + s2) then (0, word_of_int MaxSearchSize) else (f1, s2))"
  have max: "sint (word_of_int MaxSearchSize :: i64) = 10000" by code_simp
  have "0 < sint s1" by (simp add: s1_def)
  then have s2: "0 < sint s2 \<and> sint s2 \<le> MaxSearchSize" using max by (auto simp: s2_def MaxSearchSize_def)
  have f1: "0 \<le> sint f1" by (simp add: f1_def)
  have sum: "sint (f1 + s2) = sint f1 + sint s2" if "sint f1 + sint s2 < 2 ^ 63"
    using that s2 f1 by (simp add: sint_word_add signed_take_bit_int_eq_self)
  have win: "0 < sint (snd fs) \<and> sint (snd fs) \<le> MaxSearchSize \<and> 0 \<le> sint (fst fs) \<and>
      (sint (fst fs) + sint (snd fs) \<le> MaxSearchSize \<or> 2 ^ 63 \<le> sint (fst fs) + sint (snd fs))"
  proof (cases "MaxSearchSize < sint (f1 + s2)")
    case True
    then show ?thesis using max by (simp add: fs_def MaxSearchSize_def)
  next
    case False
    then show ?thesis using s2 f1 sum unfolding fs_def by (cases "sint f1 + sint s2 < 2 ^ 63") auto
  qed
  let ?q = "rq_Query req"
  define qr where "qr = (if ?q = [] \<or> string_of ?q = ''null'' then Ok MatchAll
        else if hd ?q = 0x22 then res_bind (qj_string J ?q) (\<lambda>qs. ParseQueryString qs)
        else case ParseNode J (Suc (length ?q)) ?q of Some r \<Rightarrow> r | None \<Rightarrow> Panic)"
  have pr: "ParseRequest J data = res_bind qr (\<lambda>node. Ok \<lparr>sp_Query = node, sp_Size = snd fs, sp_From = fst fs\<rparr>)"
    unfolding ParseRequest_def Ok qr_def fs_def f1_def s2_def s1_def by (simp add: Let_def split_def)
  have all: "node_ok MatchAll" by (simp add: MatchAll_def known_type_def)
  have str: "r \<noteq> Panic \<and> (\<forall>y. r = Ok y \<longrightarrow> node_ok y)" if "r = res_bind (qj_string J ?q) ParseQueryString" for r
    using that J parse_returns_ok by (cases "qj_string J ?q") (auto simp: query_json_ok_def)
  have dsl: "\<exists>x. ParseNode J (Suc (length ?q)) ?q = Some x \<and> x \<noteq> Panic \<and> (\<forall>y. x = Ok y \<longrightarrow> node_ok y)"
    using ParseNode_returns [OF J, of "Suc (length ?q)"] by (auto simp: node_result_def)
  have "qr \<noteq> Panic \<and> (\<forall>y. qr = Ok y \<longrightarrow> node_ok y)"
    using all str dsl unfolding qr_def by auto
  then show ?thesis using pr win by (cases qr) auto
next
  case Panic
  then show ?thesis using J by (simp add: query_json_ok_def)
qed (simp add: ParseRequest_def)

section \<open>Properties\<close>

text \<open>C38: A request is parsed or rejected, never with a panic and always with enough fuel for its
  nested nodes. A parsed request has a query tree of known nodes, a page size between 1 and 10000
  and an offset that is not negative; the window ends within the first 10000 hits, except when
  offset plus size overflows 64 bits.\<close>

theorem parse_request_window:
  assumes J: "query_json_ok J"
  shows "(\<exists>e. ParseRequest J data = Err e) \<or>
    (\<exists>sp. ParseRequest J data = Ok sp \<and> node_ok (sp_Query sp) \<and>
      0 < sint (sp_Size sp) \<and> sint (sp_Size sp) \<le> MaxSearchSize \<and> 0 \<le> sint (sp_From sp) \<and>
      (sint (sp_From sp) + sint (sp_Size sp) \<le> MaxSearchSize \<or> 2 ^ 63 \<le> sint (sp_From sp) + sint (sp_Size sp)))"
  using J by (rule ParseRequest_window)

text \<open>A decoder that knows one request: everything, from offset 5, ten hits.\<close>

definition example_request_json :: query_json where
  "example_request_json = \<lparr>qj_node = (\<lambda>_. Err (ErrMsg ''syntax'')),
     qj_request = (\<lambda>_. Ok \<lparr>rq_Query = [], rq_Size = 0, rq_From = 5\<rparr>),
     qj_string = (\<lambda>_. Err (ErrMsg ''syntax'')), qj_int64 = (\<lambda>_. Err (ErrMsg ''syntax''))\<rparr>"

theorem parse_request_window_witness:
  "\<exists>sp. ParseRequest example_request_json [] = Ok sp \<and> sint (sp_From sp) + sint (sp_Size sp) \<le> MaxSearchSize"
proof -
  have "query_json_ok example_request_json" by (simp add: query_json_ok_def example_request_json_def)
  from parse_request_window [OF this, of "[]"] show ?thesis
    by (simp add: ParseRequest_def example_request_json_def MaxSearchSize_def)
qed

end
