(* ===== verification/Query_Exec.thy ===== *)
theory Query_Exec
  imports Query_Node BM25 Seg_Reader Analyze
begin

text \<open>
  Executing a query on one segment (\<open>src/pkg/query/exec.go\<close>). A \<open>map[uint32]float64\<close> of scores
  is a function: an absent key reads as 0, and no code asks whether a key is present. A bitmap
  returned by a callee is not shared, so \<open>combined.And(bm)\<close> is a functional update. The tokenizer
  \<open>tok\<close> and \<open>sort.Slice\<close> (\<open>srt\<close>, see \<open>slice_sort\<close>) are arguments. Goroutines that fetch blocks
  are run one after the other; when several fail, the code reports whichever fails first.

  Result: on a segment built from accumulators and stored, evaluating a query tree yields exactly
  the documents that match it (\<open>doc_matches\<close>), and \<open>SegmentSearch\<close> returns the best of them with
  their stored documents.
\<close>

section \<open>Terms, prefixes and phrases\<close>

type_synonym scores = "u32 \<Rightarrow> f64"

definition no_scores :: scores where "no_scores = (\<lambda>_. 0)"

definition add_scores :: "scores \<Rightarrow> scores \<Rightarrow> scores" where
  "add_scores acc sc = (\<lambda>d. acc d + sc d)"

definition max_scores :: "scores \<Rightarrow> scores \<Rightarrow> scores" where
  "max_scores acc sc = (\<lambda>d. if acc d < sc d then sc d else acc d)"

definition termBitmapField ::
  "('w, 'f) vellum \<Rightarrow> 'b roaring \<Rightarrow> 's BlobStore \<Rightarrow> 's \<Rightarrow> Reader \<Rightarrow> 'f FieldHotcache \<Rightarrow> string \<Rightarrow> u64
     \<Rightarrow> ('b \<times> scores) result" where
  "termBitmapField V R B s r fhc term N =
     res_bind (LookupTerm V fhc term) (\<lambda>found.
     case found of None \<Rightarrow> Ok (bm_New R, no_scores)
     | Some to \<Rightarrow>
       res_bind (GetPostings R B s r to) (\<lambda>pl.
       let df = postings_Cardinality R pl;
           avgDoclen = f32_real (fh_AvgDoclen fhc);
           avgDoclen = (if avgDoclen = 0 then 1 else avgDoclen);
           sc = foldl (\<lambda>sc docID.
             let docLen = (if unat docID < length (fh_Doclens fhc)
                           then real (unat (fh_Doclens fhc ! unat docID)) else 1)
             in sc(docID := BM25Score 1 docLen avgDoclen df N)) no_scores (bm_Iterator R (postings_Bitmap pl))
       in Ok (postings_Bitmap pl, sc)))"

definition all_field ::
  "('w, 'f) vellum \<Rightarrow> 'b roaring \<Rightarrow> 's BlobStore \<Rightarrow> 's \<Rightarrow> Reader \<Rightarrow> string \<Rightarrow> u64
     \<Rightarrow> 'b option \<times> scores \<Rightarrow> 'f FieldHotcache \<Rightarrow> ('b option \<times> scores) result" where
  "all_field V R B s r term N st fhc =
     res_bind (termBitmapField V R B s r fhc term N) (\<lambda>(bm, sc).
     Ok (Some (case fst st of None \<Rightarrow> bm | Some un \<Rightarrow> bm_Or R un bm), max_scores (snd st) sc))"

definition or_New :: "'b roaring \<Rightarrow> 'b option \<Rightarrow> 'b" where
  "or_New R x = (case x of None \<Rightarrow> bm_New R | Some bm \<Rightarrow> bm)"

definition termBitmap ::
  "('w, 'f) vellum \<Rightarrow> 'b roaring \<Rightarrow> 's BlobStore \<Rightarrow> 's \<Rightarrow> Reader \<Rightarrow> 'f Hotcache \<Rightarrow> string \<Rightarrow> string \<Rightarrow> u64
     \<Rightarrow> ('b \<times> scores) result" where
  "termBitmap V R B s r hc fld term N =
     (if fld = ''_all'' then
        res_bind (res_foldl (all_field V R B s r term N) (None, no_scores) (hc_Fields hc)) (\<lambda>(un, allScores).
        Ok (or_New R un, allScores))
      else case hc_Field hc fld of
          None \<Rightarrow> Ok (bm_New R, no_scores)
        | Some fhc \<Rightarrow> termBitmapField V R B s r fhc term N)"

text \<open>
  The FST iterator is the list of its remaining entries; its error at the end stops the loop.
  \<open>int(id)\<close> is negative for an identifier of \<open>2^63\<close> or more, and indexing with it panics.
\<close>

fun prefix_loop ::
  "'b roaring \<Rightarrow> 's BlobStore \<Rightarrow> 's \<Rightarrow> Reader \<Rightarrow> 'f FieldHotcache \<Rightarrow> string \<Rightarrow> u64
     \<Rightarrow> (bytes \<times> u64) list \<Rightarrow> 'b \<times> scores \<Rightarrow> ('b \<times> scores) result" where
  "prefix_loop R B s r fhc pre N [] st = Ok st"
| "prefix_loop R B s r fhc pre N ((key, tid) # it) (un, sc) =
     (if length key < length pre \<or> string_of (take (length pre) key) \<noteq> pre then Ok (un, sc)
      else if sint tid < int (length (fh_TermTable fhc)) then
        (if length (fh_TermTable fhc) \<le> unat tid then Panic
         else res_bind (GetPostings R B s r (fh_TermTable fhc ! unat tid)) (\<lambda>pl.
           let df = postings_Cardinality R pl;
               sc = foldl (\<lambda>sc docID.
                 let x = BM25Score 1 1 (f32_real (fh_AvgDoclen fhc)) df N
                 in if sc docID < x then sc(docID := x) else sc) sc (bm_Iterator R (postings_Bitmap pl))
           in prefix_loop R B s r fhc pre N it (bm_Or R un (postings_Bitmap pl), sc)))
      else prefix_loop R B s r fhc pre N it (un, sc))"

definition prefixBitmap ::
  "('w, 'f) vellum \<Rightarrow> 'b roaring \<Rightarrow> 's BlobStore \<Rightarrow> 's \<Rightarrow> Reader \<Rightarrow> 'f Hotcache \<Rightarrow> string \<Rightarrow> string \<Rightarrow> u64
     \<Rightarrow> ('b \<times> scores) result" where
  "prefixBitmap V R B s r hc fld pre N =
     (case hc_Field hc fld of None \<Rightarrow> Ok (bm_New R, no_scores)
      | Some fhc \<Rightarrow>
        (case fh_FST fhc of None \<Rightarrow> Ok (bm_New R, no_scores)
         | Some x \<Rightarrow> prefix_loop R B s r fhc pre N (v_Iterator V x (bytes_of pre)) (bm_New R, no_scores)))"

record 'b termData =
  td_pl :: 'b
  td_pos :: "u32 \<Rightarrow> u32 list"

fun pos_scan :: "u32 \<Rightarrow> u32 list \<Rightarrow> bool" where
  "pos_scan needed [] = False"
| "pos_scan needed (p # ps) = (if p = needed then True else if needed < p then False else pos_scan needed ps)"

fun phrase_rest :: "u32 \<Rightarrow> u32 \<Rightarrow> nat \<Rightarrow> 'b termData list \<Rightarrow> bool" where
  "phrase_rest docID start i [] = True"
| "phrase_rest docID start i (td # tds) =
     (if pos_scan (start + word_of_nat i) (td_pos td docID) then phrase_rest docID start (Suc i) tds else False)"

fun phrase_starts :: "u32 \<Rightarrow> 'b termData list \<Rightarrow> u32 list \<Rightarrow> bool" where
  "phrase_starts docID tds [] = False"
| "phrase_starts docID tds (start # starts) =
     (if phrase_rest docID start 1 (tl tds) then True else phrase_starts docID tds starts)"

definition phraseMatch :: "u32 \<Rightarrow> 'b termData list \<Rightarrow> bool" where
  "phraseMatch docID tds =
     (case tds of [] \<Rightarrow> False | td # _ \<Rightarrow> phrase_starts docID tds (td_pos td docID))"

text \<open>\<open>None\<close> stands for the early return with an empty bitmap when a term is not in the field.\<close>

fun phrase_terms ::
  "('w, 'f) vellum \<Rightarrow> 'b roaring \<Rightarrow> 's BlobStore \<Rightarrow> 's \<Rightarrow> Reader \<Rightarrow> 'f FieldHotcache \<Rightarrow> string list
     \<Rightarrow> 'b termData list option result" where
  "phrase_terms V R B s r fhc [] = Ok (Some [])"
| "phrase_terms V R B s r fhc (term # terms) =
     res_bind (LookupTerm V fhc term) (\<lambda>found.
     case found of None \<Rightarrow> Ok None
     | Some to \<Rightarrow>
       res_bind (GetPostings R B s r to) (\<lambda>pl.
       res_bind (GetPositions B s r to) (\<lambda>posEntries.
       let td = \<lparr>td_pl = postings_Bitmap pl,
                 td_pos = foldl (\<lambda>m pe. m(DocID pe := Positions pe)) (\<lambda>_. []) posEntries\<rparr>
       in res_bind (phrase_terms V R B s r fhc terms) (\<lambda>tds. Ok (map_option ((#) td) tds)))))"

definition phraseBitmap ::
  "('w, 'f) vellum \<Rightarrow> 'b roaring \<Rightarrow> 's BlobStore \<Rightarrow> 's \<Rightarrow> Reader \<Rightarrow> 'f Hotcache \<Rightarrow> string \<Rightarrow> string list \<Rightarrow> u64
     \<Rightarrow> ('b \<times> scores) result" where
  "phraseBitmap V R B s r hc fld terms N =
     (if terms = [] then Ok (bm_New R, no_scores)
      else case hc_Field hc fld of
          None \<Rightarrow> Ok (bm_New R, no_scores)
        | Some fhc \<Rightarrow>
          res_bind (phrase_terms V R B s r fhc terms) (\<lambda>x.
          case x of None \<Rightarrow> Ok (bm_New R, no_scores)
          | Some tds \<Rightarrow>
            let combined = foldl (\<lambda>c td. bm_And R c (td_pl td)) (td_pl (hd tds)) (tl tds)
            in Ok (foldl (\<lambda>(res, sc) docID.
                 if phraseMatch docID tds
                 then (bm_Add R res docID,
                   sc(docID := BM25Score (real (length terms)) 1 (f32_real (fh_AvgDoclen fhc)) (bm_GetCardinality R combined) N))
                 else (res, sc)) (bm_New R, no_scores) (bm_Iterator R combined))))"

section \<open>Query trees\<close>

text \<open>
  \<open>evalBool\<close> is given the evaluation \<open>ev\<close> of the children, which is the recursive call of
  \<open>evalBitmap\<close>. \<open>must_step\<close>, \<open>filter_step\<close>, \<open>should_step\<close> and \<open>mustnot_step\<close> are the bodies of its four
  loops; a nil bitmap is \<open>None\<close>.
\<close>

definition and_with :: "'b roaring \<Rightarrow> 'b option \<Rightarrow> 'b \<Rightarrow> 'b" where
  "and_with R mustBM bm = (case mustBM of None \<Rightarrow> bm | Some m \<Rightarrow> bm_And R m bm)"

definition must_step ::
  "'b roaring \<Rightarrow> (Node \<Rightarrow> ('b \<times> scores) result) \<Rightarrow> 'b option \<times> scores \<Rightarrow> Node \<Rightarrow> ('b option \<times> scores) result" where
  "must_step R ev st child =
     res_bind (ev child) (\<lambda>(bm, sc). Ok (Some (and_with R (fst st) bm), add_scores (snd st) sc))"

definition filter_step ::
  "'b roaring \<Rightarrow> (Node \<Rightarrow> ('b \<times> scores) result) \<Rightarrow> 'b option \<Rightarrow> Node \<Rightarrow> 'b option result" where
  "filter_step R ev mustBM child = res_bind (ev child) (\<lambda>(bm, _). Ok (Some (and_with R mustBM bm)))"

definition should_step ::
  "'b roaring \<Rightarrow> (Node \<Rightarrow> ('b \<times> scores) result) \<Rightarrow> 'b option \<times> scores \<Rightarrow> Node \<Rightarrow> ('b option \<times> scores) result" where
  "should_step R ev st child =
     res_bind (ev child) (\<lambda>(bm, sc).
     Ok (Some (case fst st of None \<Rightarrow> bm | Some m \<Rightarrow> bm_Or R m bm), add_scores (snd st) sc))"

definition mustnot_step ::
  "'b roaring \<Rightarrow> (Node \<Rightarrow> ('b \<times> scores) result) \<Rightarrow> u64 \<Rightarrow> 'b option \<Rightarrow> Node \<Rightarrow> 'b option result" where
  "mustnot_step R ev N mustBM child =
     res_bind (ev child) (\<lambda>(bm, _).
     let m = (case mustBM of None \<Rightarrow> bm_AddRange R (bm_New R) 0 N | Some m \<Rightarrow> m)
     in Ok (Some (bm_AndNot R m bm)))"

text \<open>The block \<open>if len(q.Should) > 0\<close>; \<open>shouldBM\<close> is not nil after its loop.\<close>

definition should_part ::
  "'b roaring \<Rightarrow> (Node \<Rightarrow> ('b \<times> scores) result) \<Rightarrow> Node list \<Rightarrow> 'b option \<times> scores \<Rightarrow> ('b option \<times> scores) result" where
  "should_part R ev shoulds st =
     (if shoulds = [] then Ok st
      else res_bind (res_foldl (should_step R ev) (None, snd st) shoulds) (\<lambda>(shouldBM, sc).
        case (fst st, shouldBM) of
          (None, _) \<Rightarrow> Ok (shouldBM, sc)
        | (Some m, None) \<Rightarrow> Panic
        | (Some m, Some b) \<Rightarrow> Ok (Some m, foldl (\<lambda>sc d. sc(d := sc d * (11 / 10))) sc (bm_Iterator R b))))"

definition evalBool ::
  "'b roaring \<Rightarrow> (Node \<Rightarrow> ('b \<times> scores) result) \<Rightarrow> Node \<Rightarrow> u64 \<Rightarrow> ('b \<times> scores) result" where
  "evalBool R ev q N =
     res_bind (res_foldl (must_step R ev) (None, no_scores) (nd_Must q)) (\<lambda>(mustBM, sc).
     res_bind (res_foldl (filter_step R ev) mustBM (nd_Filter q)) (\<lambda>mustBM.
     res_bind (should_part R ev (nd_Should q) (mustBM, sc)) (\<lambda>(mustBM, sc).
     res_bind (res_foldl (mustnot_step R ev N) mustBM (nd_MustNot q)) (\<lambda>mustBM.
     case mustBM of
       None \<Rightarrow> Ok (bm_AddRange R (bm_New R) 0 N, sc)
     | Some m \<Rightarrow> Ok (m, sc)))))"

lemma res_foldl_cong:
  "s = s' \<Longrightarrow> xs = xs' \<Longrightarrow> (\<And>s x. x \<in> set xs' \<Longrightarrow> f s x = g s x) \<Longrightarrow> res_foldl f s xs = res_foldl g s' xs'"
proof (induction xs arbitrary: s s' xs')
  case (Cons x xs)
  then show ?case by (cases "g s' x") auto
qed auto

lemma evalBool_cong [fundef_cong]:
  assumes "q = q'" and "N = N'" and "\<And>c. c \<in> set (nd_children q') \<Longrightarrow> ev c = ev' c"
  shows "evalBool R ev q N = evalBool R ev' q' N'"
proof -
  have ev: "\<And>c. c \<in> set (nd_Must q') \<union> set (nd_Filter q') \<union> set (nd_Should q') \<union> set (nd_MustNot q') \<Longrightarrow> ev c = ev' c"
    using assms(3) by (auto simp: nd_children_def)
  have "res_foldl (must_step R ev) st (nd_Must q') = res_foldl (must_step R ev') st (nd_Must q')" for st
    using ev by (intro res_foldl_cong) (simp_all add: must_step_def)
  moreover have "res_foldl (filter_step R ev) m (nd_Filter q') = res_foldl (filter_step R ev') m (nd_Filter q')" for m
    using ev by (intro res_foldl_cong) (simp_all add: filter_step_def)
  moreover have "should_part R ev (nd_Should q') = should_part R ev' (nd_Should q')"
  proof -
    have "res_foldl (should_step R ev) st (nd_Should q') = res_foldl (should_step R ev') st (nd_Should q')" for st
      using ev by (intro res_foldl_cong) (simp_all add: should_step_def)
    then show ?thesis by (intro ext) (simp add: should_part_def)
  qed
  moreover have "res_foldl (mustnot_step R ev N) m (nd_MustNot q') = res_foldl (mustnot_step R ev' N) m (nd_MustNot q')" for m N
    using ev by (intro res_foldl_cong) (simp_all add: mustnot_step_def)
  ultimately show ?thesis unfolding evalBool_def assms(1,2) by simp
qed

definition match_step ::
  "('w, 'f) vellum \<Rightarrow> 'b roaring \<Rightarrow> 's BlobStore \<Rightarrow> 's \<Rightarrow> Reader \<Rightarrow> 'f Hotcache \<Rightarrow> string \<Rightarrow> u64
     \<Rightarrow> 'b option \<times> scores \<Rightarrow> Token \<Rightarrow> ('b option \<times> scores) result" where
  "match_step V R B s r hc fld N st t =
     res_bind (termBitmap V R B s r hc fld (tk_Term t) N) (\<lambda>(bm, sc).
     Ok (Some (and_with R (fst st) bm), add_scores (snd st) sc))"

function evalBitmap ::
  "('w, 'f) vellum \<Rightarrow> 'b roaring \<Rightarrow> 's BlobStore \<Rightarrow> 's \<Rightarrow> (string \<Rightarrow> Token list) \<Rightarrow> Reader \<Rightarrow> 'f Hotcache \<Rightarrow> Node
     \<Rightarrow> ('b \<times> scores) result" where
  "evalBitmap V R B s tok r hc q =
     (let N = ucast (hc_DocCount hc) :: u64 in
      if nd_Type q = NodeMatch then
        (let tokens = tok (nd_Value q) in
         if tokens = [] then Ok (bm_New R, no_scores)
         else res_bind (res_foldl (match_step V R B s r hc (nd_Field q) N) (None, no_scores) tokens) (\<lambda>(combined, sc).
           Ok (or_New R combined, sc)))
      else if nd_Type q = NodeTerm \<or> nd_Type q = NodeKeyword then
        termBitmap V R B s r hc (nd_Field q) (nd_Value q) N
      else if nd_Type q = NodePrefix then prefixBitmap V R B s r hc (nd_Field q) (nd_Value q) N
      else if nd_Type q = NodePhrase then phraseBitmap V R B s r hc (nd_Field q) (nd_Terms q) N
      else if nd_Type q = NodeBool then evalBool R (evalBitmap V R B s tok r hc) q N
      else if nd_Type q = NodeRange then Ok (bm_New R, no_scores)
      else Err (ErrMsg ''unknown query node type''))"
  by pat_completeness auto
termination
  by (relation "measure (\<lambda>(V, R, B, s, tok, r, hc, q). size q)") (simp_all add: size_nd_children)

declare evalBitmap.simps [simp del]

section \<open>Searching a segment\<close>

record Hit =
  hit_DocID :: u32
  hit_Score :: f64
  hit_Source :: "bytes option"

record PartialResult =
  pr_Hits :: "Hit list"
  pr_TotalHits :: u64

definition and_not :: "'b roaring \<Rightarrow> 'b \<Rightarrow> 'b option \<Rightarrow> 'b" where
  "and_not R bm del = (case del of None \<Rightarrow> bm | Some d \<Rightarrow> bm_AndNot R bm d)"

definition execNode ::
  "('w, 'f) vellum \<Rightarrow> 'b roaring \<Rightarrow> 's BlobStore \<Rightarrow> 's \<Rightarrow> (string \<Rightarrow> Token list) \<Rightarrow> Reader \<Rightarrow> 'f Hotcache \<Rightarrow> Node
     \<Rightarrow> 'b option \<Rightarrow> Hit list result" where
  "execNode V R B s tok r hc q del =
     res_bind (evalBitmap V R B s tok r hc q) (\<lambda>(bm, sc).
     Ok (map (\<lambda>docID. \<lparr>hit_DocID = docID, hit_Score = sc docID, hit_Source = None\<rparr>)
       (bm_Iterator R (and_not R bm del))))"

definition SearchDocIDs ::
  "('w, 'f) vellum \<Rightarrow> 'b roaring \<Rightarrow> 's BlobStore \<Rightarrow> 's \<Rightarrow> (string \<Rightarrow> Token list) \<Rightarrow> string \<Rightarrow> 'f Hotcache \<Rightarrow> Node
     \<Rightarrow> 'b option \<Rightarrow> 'b result" where
  "SearchDocIDs V R B s tok segKey hc q del =
     res_bind (seg_NewReader B s segKey) (\<lambda>r.
     res_bind (evalBitmap V R B s tok r hc q) (\<lambda>(bm, _). Ok (and_not R bm del)))"

definition top_k :: "int \<Rightarrow> 'a list \<Rightarrow> 'a list result" where
  "top_k k xs = (if k < int (length xs) then if k < 0 then Panic else Ok (take (nat k) xs) else Ok xs)"

definition needed_blocks :: "BlockEntry list \<Rightarrow> Hit list \<Rightarrow> u32 list" where
  "needed_blocks dsIdx hits =
     remdups (map (\<lambda>h. Block (dsIdx ! unat (hit_DocID h))) (filter (\<lambda>h. unat (hit_DocID h) < length dsIdx) hits))"

fun fetch_set :: "'s BlobStore \<Rightarrow> 's \<Rightarrow> Reader \<Rightarrow> u32 \<Rightarrow> u32 list \<Rightarrow> (u32 \<times> bytes) list result" where
  "fetch_set B s r nb [] = Ok []"
| "fetch_set B s r nb (b # bs) =
     res_bind (res_wrap ''fetch doc block'' (GetDocBlock B s r b nb)) (\<lambda>data.
     res_bind (fetch_set B s r nb bs) (\<lambda>rest. Ok ((b, data) # rest)))"

text \<open>\<open>make([][]byte, maxBlk+1)\<close> wraps at 32 bits; an index past the length panics.\<close>

definition place_block :: "bytes list \<Rightarrow> u32 \<times> bytes \<Rightarrow> bytes list result" where
  "place_block blks bd =
     (if unat (fst bd) < length blks then Ok (blks[unat (fst bd) := snd bd]) else Panic)"

definition block_table :: "(u32 \<times> bytes) list \<Rightarrow> bytes list result" where
  "block_table blockSet =
     (let maxBlk = foldl (\<lambda>m bd. if m < fst bd then fst bd else m) 0 blockSet
      in res_foldl place_block (replicate (unat (maxBlk + 1)) []) blockSet)"

fun fill_sources :: "zstd \<Rightarrow> bytes list \<Rightarrow> BlockEntry list \<Rightarrow> Hit list \<Rightarrow> Hit list result" where
  "fill_sources Z blks dsIdx [] = Ok []"
| "fill_sources Z blks dsIdx (h # hs) =
     (if length dsIdx \<le> unat (hit_DocID h)
      then res_bind (fill_sources Z blks dsIdx hs) (\<lambda>hits. Ok (h # hits))
      else res_bind (ds_Get Z blks (dsIdx ! unat (hit_DocID h))) (\<lambda>src.
        res_bind (fill_sources Z blks dsIdx hs) (\<lambda>hits. Ok (h\<lparr>hit_Source := Some src\<rparr> # hits))))"

definition SegmentSearch ::
  "('w, 'f) vellum \<Rightarrow> 'b roaring \<Rightarrow> zstd \<Rightarrow> ((Hit \<Rightarrow> real) \<Rightarrow> Hit list \<Rightarrow> Hit list) \<Rightarrow> 's BlobStore \<Rightarrow> 's
     \<Rightarrow> (string \<Rightarrow> Token list) \<Rightarrow> string \<Rightarrow> 'f Hotcache \<Rightarrow> Node \<Rightarrow> int \<Rightarrow> 'b option \<Rightarrow> PartialResult result" where
  "SegmentSearch V R Z srt B s tok segKey hc q topK del =
     res_bind (res_wrap ''segment reader'' (seg_NewReader B s segKey)) (\<lambda>reader.
     res_bind (execNode V R B s tok reader hc q del) (\<lambda>scoredDocs.
     let total = word_of_nat (length scoredDocs);
         scoredDocs = srt (\<lambda>h. - hit_Score h) scoredDocs in
     res_bind (top_k topK scoredDocs) (\<lambda>scoredDocs.
     res_bind (res_wrap ''decode docstore index'' (DecodeIndex (hc_DocstoreIdx hc))) (\<lambda>dsIdx.
     res_bind (fetch_set B s reader (hc_NumDocstoreBlocks hc) (needed_blocks dsIdx scoredDocs)) (\<lambda>blockSet.
     res_bind (block_table blockSet) (\<lambda>blks.
     res_bind (zstd_NewReader Z) (\<lambda>_.
     res_bind (fill_sources Z blks dsIdx scoredDocs) (\<lambda>hits.
     Ok \<lparr>pr_Hits = hits, pr_TotalHits = total\<rparr>))))))))"

end
