(* ===== verification/Query_Correct.thy ===== *)
theory Query_Correct
  imports Query_Exec
begin

text \<open>
  Correctness of query execution: on a segment that serves its accumulators (as a built and stored
  segment does, see \<open>Seg_Reader\<close>), every query tree evaluates to the bitmap of the documents that
  match it in the sense of \<open>doc_matches\<close>, and \<open>SegmentSearch\<close> returns the best of them.
\<close>

section \<open>Segments that serve their accumulators\<close>

definition fst_served :: "('w, 'f) vellum \<Rightarrow> 'f FieldHotcache \<Rightarrow> 'b FieldAccumulator \<Rightarrow> bool" where
  "fst_served V fhc fa \<longleftrightarrow> length (fa_terms fa) < 2 ^ 32 \<and> length (fh_TermTable fhc) = length (fa_terms fa) \<and>
     (\<forall>i < length (fa_terms fa). LookupTerm V fhc (fa_terms fa ! i) = Ok (Some (fh_TermTable fhc ! i))) \<and>
     (\<exists>x. fh_FST fhc = Some x \<and>
       (\<forall>start. v_Iterator V x start = filter (\<lambda>(k, v). start \<le> k)
         (zip (map bytes_of (fa_terms fa)) (map word_of_nat [0..<length (fa_terms fa)]))))"

definition serves_segment ::
  "('w, 'f) vellum \<Rightarrow> 'b roaring \<Rightarrow> 's BlobStore \<Rightarrow> 's \<Rightarrow> Reader \<Rightarrow> 'f Hotcache \<Rightarrow> 'b FieldAccumulator list \<Rightarrow> bool" where
  "serves_segment V R B s rd hc flds \<longleftrightarrow> roaring_ok R \<and> distinct (map fa_Name flds) \<and>
     (\<forall>fa \<in> set flds. fa_wf R fa \<and> (\<forall>t. \<forall>d \<in> fa_docs R fa t. unat d < unat (hc_DocCount hc))) \<and>
     list_all2 (\<lambda>fhc fa. hc_Field hc (fa_Name fa) = Some fhc \<and> serves_field V R B s rd fhc fa \<and> fst_served V fhc fa)
       (hc_Fields hc) flds \<and>
     (\<forall>n. n \<notin> fa_Name ` set flds \<longrightarrow> hc_Field hc n = None)"

definition segment_occ :: "'b FieldAccumulator list \<Rightarrow> u32 \<Rightarrow> string \<Rightarrow> string \<Rightarrow> u32 list" where
  "segment_occ flds d f t = (case find (\<lambda>fa. fa_Name fa = f) flds of None \<Rightarrow> [] | Some fa \<Rightarrow> fa_pos fa t d)"

lemma segment_occ_field:
  assumes "distinct (map fa_Name flds)" and "fa \<in> set flds"
  shows "segment_occ flds d (fa_Name fa) t = fa_pos fa t d"
proof -
  have "find (\<lambda>g. fa_Name g = fa_Name fa) flds = Some fa"
    using assms by (induction flds) (auto simp: image_iff)
  then show ?thesis by (simp add: segment_occ_def)
qed

lemma segment_occ_none: "f \<notin> fa_Name ` set flds \<Longrightarrow> segment_occ flds d f t = []"
  by (auto simp: segment_occ_def find_Some_iff split: option.splits)

text \<open>A field by its name: not there, or served.\<close>

lemma serves_field_cases:
  assumes "serves_segment V R B s rd hc flds"
  obtains (none) "f \<notin> fa_Name ` set flds" "hc_Field hc f = None"
  | (some) fa fhc where "fa \<in> set flds" "f = fa_Name fa" "hc_Field hc f = Some fhc"
      "serves_field V R B s rd fhc fa" "fst_served V fhc fa" "fa_wf R fa"
proof (cases "f \<in> fa_Name ` set flds")
  case True
  then obtain fa where fa: "fa \<in> set flds" "f = fa_Name fa" by blast
  then obtain i where i: "i < length flds" "fa = flds ! i" by (auto simp: in_set_conv_nth)
  have "hc_Field hc (fa_Name fa) = Some (hc_Fields hc ! i) \<and> serves_field V R B s rd (hc_Fields hc ! i) fa \<and>
      fst_served V (hc_Fields hc ! i) fa"
    using assms i unfolding serves_segment_def by (simp add: list_all2_conv_all_nth)
  moreover have "fa_wf R fa" using assms fa(1) by (simp add: serves_segment_def)
  ultimately show thesis using some [OF fa] fa(2) by simp
next
  case False
  moreover have "hc_Field hc f = None" using assms False by (simp add: serves_segment_def)
  ultimately show thesis by (rule none)
qed

section \<open>Terms\<close>

text \<open>A call that returns a bitmap with the given documents.\<close>

definition yields :: "'b roaring \<Rightarrow> ('b \<times> scores) result \<Rightarrow> u32 set \<Rightarrow> bool" where
  "yields R r S \<longleftrightarrow> (\<exists>bm sc. r = Ok (bm, sc) \<and> bm_docs R bm = S)"

lemma yields_New: "roaring_ok R \<Longrightarrow> yields R (Ok (bm_New R, sc)) {}"
  by (simp add: yields_def roaring_New)

lemma termBitmapField_yields:
  assumes R: "roaring_ok R" and f: "serves_field V R B s rd fhc fa"
  shows "yields R (termBitmapField V R B s rd fhc t N) (fa_docs R fa t)"
proof (cases "fa_docs R fa t = {}")
  case True
  then have "LookupTerm V fhc t = Ok None" using f by (auto simp: serves_field_def dest!: spec [of _ t])
  then show ?thesis using True yields_New [OF R] by (simp add: termBitmapField_def)
next
  case False
  then obtain to l where "LookupTerm V fhc t = Ok (Some to)" "GetPostings R B s rd to = Ok l"
    "postings_docs R l = fa_docs R fa t"
    using f unfolding serves_field_def by meson
  then show ?thesis
    by (simp add: termBitmapField_def yields_def Let_def postings_Bitmap_def postings_docs_def)
qed

lemma all_fields_union:
  assumes R: "roaring_ok R" and "list_all2 (\<lambda>fhc fa. serves_field V R B s rd fhc fa) fhcs flds"
  shows "\<exists>b sc'. res_foldl (all_field V R B s rd t N) (a, sc) fhcs = Ok (b, sc') \<and>
    bm_docs R (or_New R b) = bm_docs R (or_New R a) \<union> (\<Union>fa \<in> set flds. fa_docs R fa t)"
  using assms(2)
proof (induction fhcs flds arbitrary: a sc rule: list_all2_induct)
  case (Cons fhc fhcs fa flds)
  obtain bm sc1 where bm: "termBitmapField V R B s rd fhc t N = Ok (bm, sc1)" "bm_docs R bm = fa_docs R fa t"
    using termBitmapField_yields [OF R Cons.hyps(1)] unfolding yields_def by blast
  let ?a = "Some (case a of None \<Rightarrow> bm | Some un \<Rightarrow> bm_Or R un bm)"
  have step: "all_field V R B s rd t N (a, sc) fhc = Ok (?a, max_scores sc sc1)"
    using bm(1) by (simp add: all_field_def)
  have "bm_docs R (or_New R ?a) = bm_docs R (or_New R a) \<union> fa_docs R fa t"
    using bm(2) R by (simp add: or_New_def roaring_set_simps split: option.split)
  then show ?case using Cons.IH [of ?a "max_scores sc sc1"] step by (auto simp: Un_assoc)
qed simp

lemma fa_docs_pos: "fa_wf R fa \<Longrightarrow> fa_docs R fa t = {d. fa_pos fa t d \<noteq> []}"
  by (auto simp: fa_wf_def)

lemma termBitmap_yields:
  assumes sv: "serves_segment V R B s rd hc flds"
  shows "yields R (termBitmap V R B s rd hc f t N)
    {d. term_in (map fa_Name flds) (segment_occ flds d) f t}"
proof -
  have R: "roaring_ok R" and dist: "distinct (map fa_Name flds)"
    and wf: "\<And>fa. fa \<in> set flds \<Longrightarrow> fa_wf R fa"
    using sv by (auto simp: serves_segment_def)
  show ?thesis
  proof (cases "f = ''_all''")
    case True
    have "list_all2 (\<lambda>fhc fa. serves_field V R B s rd fhc fa) (hc_Fields hc) flds"
      using sv unfolding serves_segment_def by (auto elim: list_all2_mono)
    from all_fields_union [OF R this, of t N None no_scores]
    obtain b sc where "res_foldl (all_field V R B s rd t N) (None, no_scores) (hc_Fields hc) = Ok (b, sc)"
      "bm_docs R (or_New R b) = (\<Union>fa \<in> set flds. fa_docs R fa t)"
      using R by (auto simp: or_New_def roaring_New)
    moreover have "(\<Union>fa \<in> set flds. fa_docs R fa t) = {d. \<exists>f \<in> fa_Name ` set flds. segment_occ flds d f t \<noteq> []}"
      using wf by (auto simp: fa_docs_pos segment_occ_field [OF dist])
    ultimately show ?thesis using True by (simp add: termBitmap_def yields_def term_in_def)
  next
    case False
    show ?thesis
    proof (rule serves_field_cases [OF sv, of f])
      assume "f \<notin> fa_Name ` set flds" "hc_Field hc f = None"
      then show ?thesis using False yields_New [OF R]
        by (simp add: termBitmap_def term_in_def segment_occ_none)
    next
      fix fa fhc
      assume fa: "fa \<in> set flds" "f = fa_Name fa" "hc_Field hc f = Some fhc" "serves_field V R B s rd fhc fa" "fa_wf R fa"
      then show ?thesis
        using False termBitmapField_yields [OF R fa(4), of t N] segment_occ_field [OF dist fa(1)]
        by (simp add: termBitmap_def term_in_def fa_docs_pos)
    qed
  qed
qed

section \<open>Prefixes\<close>

lemma le_append: "p \<le> p @ (r :: 'a::linorder list)"
  by (induction p) simp_all

lemma prefix_interval:
  fixes p :: "'a::linorder list"
  assumes "p \<le> k" and "k \<le> p @ r"
  shows "\<exists>r'. k = p @ r'"
  using assms
proof (induction p arbitrary: k)
  case (Cons a p)
  then obtain b k' where k: "k = b # k'" by (cases k) auto
  then have "b = a" using Cons.prems by (auto simp: Cons_le_Cons)
  then show ?case using Cons k by (auto simp: Cons_le_Cons)
qed simp

text \<open>In a sorted list of keys not below the prefix, the keys with the prefix come first.\<close>

lemma takeWhile_prefix:
  fixes p :: "'a::linorder list"
  assumes "sorted_wrt (<) (map fst kvs)"
  shows "takeWhile (\<lambda>(k, v). take (length p) k = p) (filter (\<lambda>(k, v). p \<le> k) kvs) =
    filter (\<lambda>(k, v). take (length p) k = p) kvs"
  using assms
proof (induction kvs)
  case (Cons kv kvs)
  obtain k v where kv: "kv = (k, v)" by fastforce
  show ?case
  proof (cases "take (length p) k = p \<or> \<not> p \<le> k")
    case True
    have "p \<le> k" if "take (length p) k = p"
      using that le_append [of p "drop (length p) k"] by (metis append_take_drop_id)
    then show ?thesis using Cons True kv by auto
  next
    case False
    have "take (length p) k' \<noteq> p" if "(k', v') \<in> set kvs" for k' v'
    proof
      assume "take (length p) k' = p"
      then have "k' = p @ drop (length p) k'" by (metis append_take_drop_id)
      moreover have "k < k'" using Cons.prems kv that by force
      ultimately obtain r' where "k = p @ r'" using prefix_interval [of p k] False by (metis less_imp_le)
      then show False using False by simp
    qed
    then have "filter (\<lambda>(k, v). take (length p) k = p) kvs = []" by (auto simp: filter_empty_conv)
    then show ?thesis using False kv by simp
  qed
qed simp

lemma key_has_prefix:
  "\<not> (length key < length pre \<or> string_of (take (length pre) key) \<noteq> pre) \<longleftrightarrow> take (length (bytes_of pre)) key = bytes_of pre"
  by (metis bytes_of_string_of length_bytes_of length_take min_less_iff_conj nat_neq_iff string_of_bytes_of)

lemma prefix_loop_union:
  assumes R: "roaring_ok R"
    and it: "\<And>k v. (k, v) \<in> set it \<Longrightarrow> sint v < int (length (fh_TermTable fhc)) \<and> unat v < length (fh_TermTable fhc) \<and>
      (\<exists>l. GetPostings R B s rd (fh_TermTable fhc ! unat v) = Ok l \<and> postings_docs R l = D k)"
  shows "\<exists>bm' sc'. prefix_loop R B s rd fhc pre N it (bm, sc) = Ok (bm', sc') \<and>
    bm_docs R bm' = bm_docs R bm \<union>
      (\<Union>(k, v) \<in> set (takeWhile (\<lambda>(k, v). take (length (bytes_of pre)) k = bytes_of pre) it). D k)"
  using it
proof (induction it arbitrary: bm sc)
  case (Cons kv it)
  obtain k v where kv: "kv = (k, v)" by fastforce
  show ?case
  proof (cases "take (length (bytes_of pre)) k = bytes_of pre")
    case False
    then have "prefix_loop R B s rd fhc pre N (kv # it) (bm, sc) = Ok (bm, sc)"
      using key_has_prefix [of k pre] by (simp add: kv)
    then show ?thesis using False kv by simp
  next
    case True
    obtain l where l: "sint v < int (length (fh_TermTable fhc))" "unat v < length (fh_TermTable fhc)"
      "GetPostings R B s rd (fh_TermTable fhc ! unat v) = Ok l" "postings_docs R l = D k"
      using Cons.prems [of k v] kv by auto
    have cond: "\<not> (length k < length pre \<or> string_of (take (length pre) k) \<noteq> pre)"
      using True key_has_prefix [of k pre] by blast
    obtain sc1 where step: "prefix_loop R B s rd fhc pre N (kv # it) (bm, sc) =
        prefix_loop R B s rd fhc pre N it (bm_Or R bm (postings_Bitmap l), sc1)"
      using cond l(1-3) unfolding kv prefix_loop.simps by (auto simp: Let_def)
    have docs: "bm_docs R (bm_Or R bm (postings_Bitmap l)) = bm_docs R bm \<union> D k"
      using R l(4) by (simp add: roaring_Or postings_Bitmap_def postings_docs_def)
    have "\<exists>bm' sc'. prefix_loop R B s rd fhc pre N it (bm_Or R bm (postings_Bitmap l), sc1) = Ok (bm', sc') \<and>
        bm_docs R bm' = bm_docs R (bm_Or R bm (postings_Bitmap l)) \<union>
          (\<Union>(k, v) \<in> set (takeWhile (\<lambda>(k, v). take (length (bytes_of pre)) k = bytes_of pre) it). D k)"
      by (rule Cons.IH) (use Cons.prems in auto)
    then show ?thesis using step True kv docs by (auto simp: Un_assoc)
  qed
qed simp

lemma fa_terms_sorted: "fa_wf R fa \<Longrightarrow> sorted_wrt (<) (map bytes_of (fa_terms fa))"
  by (rule fa_terms_strict(2))

lemma prefixBitmap_yields:
  assumes sv: "serves_segment V R B s rd hc flds"
  shows "yields R (prefixBitmap V R B s rd hc f pre N) {d. \<exists>t. HasPrefix t pre \<and> segment_occ flds d f t \<noteq> []}"
proof -
  have R: "roaring_ok R" and dist: "distinct (map fa_Name flds)" using sv by (auto simp: serves_segment_def)
  show ?thesis
  proof (rule serves_field_cases [OF sv, of f])
    assume "f \<notin> fa_Name ` set flds" "hc_Field hc f = None"
    then show ?thesis using yields_New [OF R] by (simp add: prefixBitmap_def segment_occ_none)
  next
    fix fa fhc
    assume fa: "fa \<in> set flds" "f = fa_Name fa" "hc_Field hc f = Some fhc" "serves_field V R B s rd fhc fa"
      "fst_served V fhc fa" "fa_wf R fa"
    let ?ts = "fa_terms fa" and ?P = "\<lambda>(k, v). take (length (bytes_of pre)) k = bytes_of pre"
    let ?kvs = "zip (map bytes_of ?ts) (map word_of_nat [0..<length ?ts]) :: (bytes \<times> u64) list"
    obtain x where x: "fh_FST fhc = Some x" "\<And>start. v_Iterator V x start = filter (\<lambda>(k, v). start \<le> k) ?kvs"
      using fa(5) by (auto simp: fst_served_def)
    have entry: "\<exists>i < length ?ts. k = bytes_of (?ts ! i) \<and> v = word_of_nat i" if "(k, v) \<in> set ?kvs" for k v
      using that by (auto simp: set_zip)
    have it: "sint v < int (length (fh_TermTable fhc)) \<and> unat v < length (fh_TermTable fhc) \<and>
        (\<exists>l. GetPostings R B s rd (fh_TermTable fhc ! unat v) = Ok l \<and> postings_docs R l = fa_docs R fa (string_of k))"
      if kv: "(k, v) \<in> set ?kvs" for k v
    proof -
      obtain i where i: "i < length ?ts" "k = bytes_of (?ts ! i)" "v = word_of_nat i" using entry [OF kv] by blast
      have "length ?ts < 2 ^ 32" and len: "length (fh_TermTable fhc) = length ?ts"
        and look: "LookupTerm V fhc (?ts ! i) = Ok (Some (fh_TermTable fhc ! i))"
        using fa(5) i(1) by (simp_all add: fst_served_def)
      then have v: "unat v = i" "sint v = int i"
        using i sint_of_nat_small [of i] unat_u64_of_nat [of i] by simp_all
      have "fa_docs R fa (?ts ! i) \<noteq> {}" using fa_terms_docs [OF fa(6)] i(1) nth_mem by blast
      then obtain to l where "LookupTerm V fhc (?ts ! i) = Ok (Some to)" "GetPostings R B s rd to = Ok l"
        "postings_docs R l = fa_docs R fa (?ts ! i)"
        using fa(4) unfolding serves_field_def by meson
      then show ?thesis using look v i len by simp
    qed
    have "yields R (prefixBitmap V R B s rd hc f pre N) (\<Union>(k, v) \<in> set (filter ?P ?kvs). fa_docs R fa (string_of k))"
    proof -
      have "sorted_wrt (<) (map fst ?kvs)" using fa_terms_sorted [OF fa(6)] by simp
      from takeWhile_prefix [OF this, of "bytes_of pre"]
      have tw: "takeWhile ?P (v_Iterator V x (bytes_of pre)) = filter ?P ?kvs" unfolding x(2) .
      have "\<exists>bm' sc'. prefix_loop R B s rd fhc pre N (v_Iterator V x (bytes_of pre)) (bm_New R, no_scores) = Ok (bm', sc') \<and>
          bm_docs R bm' = bm_docs R (bm_New R) \<union>
            (\<Union>(k, v) \<in> set (takeWhile ?P (v_Iterator V x (bytes_of pre))). fa_docs R fa (string_of k))"
        by (rule prefix_loop_union [OF R]) (use it in \<open>auto simp: x(2)\<close>)
      then show ?thesis using fa(3) x(1) roaring_New [OF R] unfolding tw by (auto simp: prefixBitmap_def yields_def)
    qed
    moreover have "(\<Union>(k, v) \<in> set (filter ?P ?kvs). fa_docs R fa (string_of k)) =
        {d. \<exists>t. HasPrefix t pre \<and> segment_occ flds d f t \<noteq> []}" (is "?L = ?Rt")
    proof -
      have pre: "take (length pre) (bytes_of t) = bytes_of pre \<longleftrightarrow> HasPrefix t pre" for t
        by (metis HasPrefix_def bytes_of_def string_of_bytes_of take_map)
      have "?L = (\<Union>t \<in> {t \<in> set ?ts. HasPrefix t pre}. fa_docs R fa t)"
        by (force simp: set_zip pre in_set_conv_nth)
      also have "\<dots> = (\<Union>t \<in> {t. HasPrefix t pre}. fa_docs R fa t)" using fa_terms_docs [OF fa(6)] by auto
      also have "\<dots> = ?Rt" using fa_docs_pos [OF fa(6)] segment_occ_field [OF dist fa(1)] fa(2) by auto
      finally show ?thesis .
    qed
    ultimately show ?thesis by simp
  qed
qed

section \<open>Phrases\<close>

lemma pos_scan_sorted: "sorted ps \<Longrightarrow> pos_scan n ps \<longleftrightarrow> n \<in> set ps"
  by (induction ps) (auto simp: not_less_iff_gr_or_eq)

lemma phrase_rest_iff:
  "(\<forall>td \<in> set tds. sorted (td_pos td d)) \<Longrightarrow>
    phrase_rest d start k tds \<longleftrightarrow> (\<forall>i < length tds. start + word_of_nat (k + i) \<in> set (td_pos (tds ! i) d))"
proof (induction tds arbitrary: k)
  case (Cons td tds)
  have "(\<forall>i < length (td # tds). start + word_of_nat (k + i) \<in> set (td_pos ((td # tds) ! i) d)) \<longleftrightarrow>
      start + word_of_nat k \<in> set (td_pos td d) \<and>
      (\<forall>i < length tds. start + word_of_nat (Suc k + i) \<in> set (td_pos (tds ! i) d))"
    by (simp add: All_less_Suc2 algebra_simps)
  then show ?case using Cons.IH [of "Suc k"] Cons.prems pos_scan_sorted by simp
qed simp

lemma phrase_starts_iff: "phrase_starts d tds starts \<longleftrightarrow> (\<exists>start \<in> set starts. phrase_rest d start 1 (tl tds))"
  by (induction starts) auto

lemma phraseMatch_iff:
  assumes "\<forall>td \<in> set tds. sorted (td_pos td d)" and "tds \<noteq> []"
  shows "phraseMatch d tds \<longleftrightarrow> (\<exists>start. \<forall>i < length tds. start + word_of_nat i \<in> set (td_pos (tds ! i) d))"
proof -
  obtain td tds' where tds: "tds = td # tds'" using assms(2) by (cases tds) auto
  have "phrase_rest d start 1 tds' \<longleftrightarrow> (\<forall>i < length tds'. start + word_of_nat (1 + i) \<in> set (td_pos (tds' ! i) d))" for start
    using assms(1) tds by (intro phrase_rest_iff) simp
  then show ?thesis
    by (auto simp: tds phraseMatch_def phrase_starts_iff All_less_Suc2)
qed

lemma pos_map_entries:
  "foldl (\<lambda>m pe. m(DocID pe := Positions pe)) (\<lambda>_. []) (pos_entries docPos) d =
     sort (case map_of docPos d of None \<Rightarrow> [] | Some ps \<Rightarrow> ps)"
proof -
  have "foldl (\<lambda>m pe. m(DocID pe := Positions pe)) m (map (\<lambda>k. \<lparr>DocID = k, Positions = g k\<rparr>) ks) d =
      (if d \<in> set ks then g d else m d)" for m g and ks :: "u32 list"
    by (induction ks arbitrary: m) auto
  then show ?thesis
    unfolding pos_entries_def
    by (auto split: option.splits simp: map_of_eq_None_iff) (metis domI dom_map_of_conv_image_fst)
qed

definition td_ok :: "'b roaring \<Rightarrow> 'b FieldAccumulator \<Rightarrow> string \<Rightarrow> 'b termData \<Rightarrow> bool" where
  "td_ok R fa t td \<longleftrightarrow> bm_docs R (td_pl td) = fa_docs R fa t \<and> (\<forall>d. td_pos td d = sort (fa_pos fa t d))"

lemma phrase_terms_found:
  assumes sf: "serves_field V R B s rd fhc fa" and ne: "\<forall>t \<in> set ts. fa_docs R fa t \<noteq> {}"
  shows "\<exists>tds. phrase_terms V R B s rd fhc ts = Ok (Some tds) \<and> list_all2 (td_ok R fa) ts tds"
  using ne
proof (induction ts)
  case (Cons t ts)
  then obtain to l where "LookupTerm V fhc t = Ok (Some to)" "GetPostings R B s rd to = Ok l"
    "postings_docs R l = fa_docs R fa t" "GetPositions B s rd to = Ok (pos_entries (fa_docpos fa t))"
    using sf unfolding serves_field_def by (meson list.set_intros(1))
  then show ?case
    using Cons by (auto simp: Let_def td_ok_def pos_map_entries fa_pos_def postings_docs_def postings_Bitmap_def)
qed simp

lemma phrase_terms_missing:
  assumes sf: "serves_field V R B s rd fhc fa" and ex: "\<exists>t \<in> set ts. fa_docs R fa t = {}"
  shows "phrase_terms V R B s rd fhc ts = Ok None"
  using ex
proof (induction ts)
  case (Cons t ts)
  show ?case
  proof (cases "fa_docs R fa t = {}")
    case True
    then have "LookupTerm V fhc t = Ok None" using sf by (auto simp: serves_field_def dest!: spec [of _ t])
    then show ?thesis by simp
  next
    case False
    then obtain to l where "LookupTerm V fhc t = Ok (Some to)" "GetPostings R B s rd to = Ok l"
      "GetPositions B s rd to = Ok (pos_entries (fa_docpos fa t))"
      using sf unfolding serves_field_def by meson
    then show ?thesis using Cons False by (auto simp: Let_def)
  qed
qed simp

lemma combined_docs:
  "roaring_ok R \<Longrightarrow> bm_docs R (foldl (\<lambda>c td. bm_And R c (td_pl td)) b tds) = bm_docs R b \<inter> (\<Inter>td \<in> set tds. bm_docs R (td_pl td))"
  by (induction tds arbitrary: b) (auto simp: roaring_And)

lemma phrase_fold_docs:
  "roaring_ok R \<Longrightarrow>
    \<exists>bm' sc'. foldl (\<lambda>(res, sc) docID. if P docID then (bm_Add R res docID, sc(docID := x)) else (res, sc)) (bm, sc) ds = (bm', sc') \<and>
      bm_docs R bm' = bm_docs R bm \<union> {d \<in> set ds. P d}"
proof (induction ds arbitrary: bm sc)
  case (Cons d ds)
  obtain bm1 sc1 where "(if P d then (bm_Add R bm d, sc(d := x)) else (bm, sc)) = (bm1, sc1)"
    "bm_docs R bm1 = bm_docs R bm \<union> {e. e = d \<and> P d}"
    using Cons.prems by (cases "P d") (auto simp: roaring_Add)
  then show ?case using Cons.IH [OF Cons.prems, of bm1 sc1] by (auto simp: Un_assoc)
qed simp

lemma phraseBitmap_yields:
  assumes sv: "serves_segment V R B s rd hc flds"
  shows "yields R (phraseBitmap V R B s rd hc f ts N) {d. ts \<noteq> [] \<and> (\<exists>start. phrase_at (segment_occ flds d f) ts start)}"
proof (cases "ts = []")
  case True
  then show ?thesis using sv yields_New [of R] by (simp add: phraseBitmap_def serves_segment_def)
next
  case ne: False
  have R: "roaring_ok R" and dist: "distinct (map fa_Name flds)" using sv by (auto simp: serves_segment_def)
  have empty: "\<not> phrase_at occ ts start" if t: "\<exists>t \<in> set ts. occ t = []" for occ start
  proof -
    obtain i where "i < length ts" "occ (ts ! i) = []" using t by (metis in_set_conv_nth)
    then show ?thesis by (auto simp: phrase_at_def)
  qed
  show ?thesis
  proof (rule serves_field_cases [OF sv, of f])
    assume f: "f \<notin> fa_Name ` set flds" "hc_Field hc f = None"
    have "\<not> phrase_at (segment_occ flds d f) ts start" for d start
      using ne f(1) by (intro empty) (cases ts; auto simp: segment_occ_none)
    then show ?thesis using yields_New [OF R] f(2) ne by (simp add: phraseBitmap_def)
  next
    fix fa fhc
    assume fa: "fa \<in> set flds" "f = fa_Name fa" "hc_Field hc f = Some fhc" "serves_field V R B s rd fhc fa" "fa_wf R fa"
    have occ: "segment_occ flds d f = (\<lambda>t. fa_pos fa t d)" for d
      using segment_occ_field [OF dist fa(1)] fa(2) by (auto simp: fun_eq_iff)
    show ?thesis
    proof (cases "\<exists>t \<in> set ts. fa_docs R fa t = {}")
      case True
      then have "\<not> phrase_at (\<lambda>t. fa_pos fa t d) ts start" for d start
        using fa_docs_pos [OF fa(5)] by (intro empty) auto
      then show ?thesis
        using ne fa(3) phrase_terms_missing [OF fa(4) True] yields_New [OF R] unfolding occ by (simp add: phraseBitmap_def)
    next
      case False
      then obtain tds where tds: "phrase_terms V R B s rd fhc ts = Ok (Some tds)" "list_all2 (td_ok R fa) ts tds"
        using phrase_terms_found [OF fa(4)] by blast
      have len: "length tds = length ts" using tds(2) by (simp add: list_all2_lengthD)
      have nth: "bm_docs R (td_pl (tds ! i)) = fa_docs R fa (ts ! i)" "td_pos (tds ! i) d = sort (fa_pos fa (ts ! i) d)"
        if "i < length ts" for i d
        using tds(2) that by (simp_all add: list_all2_conv_all_nth td_ok_def)
      let ?c = "foldl (\<lambda>c td. bm_And R c (td_pl td)) (td_pl (hd tds)) (tl tds)"
      have "tds \<noteq> []" using ne len by auto
      then have c: "bm_docs R ?c = (\<Inter>td \<in> set tds. bm_docs R (td_pl td))"
        by (cases tds) (simp_all add: combined_docs [OF R])
      have pm: "phraseMatch d tds \<longleftrightarrow> (\<exists>start. phrase_at (\<lambda>t. fa_pos fa t d) ts start)" for d
      proof -
        have "sorted (td_pos td d)" if "td \<in> set tds" for td
          using that nth(2) len by (auto simp: in_set_conv_nth)
        then have "phraseMatch d tds \<longleftrightarrow> (\<exists>start. \<forall>i < length tds. start + word_of_nat i \<in> set (td_pos (tds ! i) d))"
          using \<open>tds \<noteq> []\<close> by (intro phraseMatch_iff) auto
        then show ?thesis using nth(2) len by (simp add: phrase_at_def)
      qed
      have "d \<in> bm_docs R ?c" if "phraseMatch d tds" for d
        unfolding c using that nth(1) len fa_docs_pos [OF fa(5)] unfolding pm
        by (fastforce simp: phrase_at_def in_set_conv_nth)
      then have "{d \<in> set (bm_Iterator R ?c). phraseMatch d tds} = {d. ts \<noteq> [] \<and> (\<exists>start. phrase_at (\<lambda>t. fa_pos fa t d) ts start)}"
        using ne pm by (auto simp: bm_docs_def)
      moreover note phrase_fold_docs [OF R, of "\<lambda>d. phraseMatch d tds"
          "BM25Score (real (length ts)) 1 (f32_real (fh_AvgDoclen fhc)) (bm_GetCardinality R ?c) N" "bm_New R" no_scores "bm_Iterator R ?c"]
      ultimately show ?thesis
        using ne fa(3) tds(1) roaring_New [OF R] unfolding occ by (auto simp: phraseBitmap_def yields_def Let_def)
    qed
  qed
qed

section \<open>Boolean combinations\<close>

definition conj_docs :: "'b roaring \<Rightarrow> 'b option \<Rightarrow> u32 set" where
  "conj_docs R x = (case x of None \<Rightarrow> UNIV | Some b \<Rightarrow> bm_docs R b)"

lemma conj_docs_and: "roaring_ok R \<Longrightarrow> conj_docs R (Some (and_with R x bm)) = conj_docs R x \<inter> bm_docs R bm"
  by (simp add: conj_docs_def and_with_def roaring_And split: option.split)

text \<open>A loop that conjoins the bitmaps of its elements.\<close>

lemma must_loop:
  assumes R: "roaring_ok R" and ev: "\<And>c. c \<in> set cs \<Longrightarrow> yields R (ev c) (S c)"
  shows "\<exists>b sc'. res_foldl (\<lambda>st c. res_bind (ev c) (\<lambda>(bm, sc1). Ok (Some (and_with R (fst st) bm), add_scores (snd st) sc1)))
      (a, sc) cs = Ok (b, sc') \<and> conj_docs R b = conj_docs R a \<inter> (\<Inter>c \<in> set cs. S c) \<and> (b = None \<longleftrightarrow> a = None \<and> cs = [])"
  using ev
proof (induction cs arbitrary: a sc)
  case (Cons c cs)
  obtain bm sc1 where "ev c = Ok (bm, sc1)" "bm_docs R bm = S c"
    using Cons.prems [of c] by (auto simp: yields_def)
  moreover have "\<exists>b sc'. res_foldl (\<lambda>st c. res_bind (ev c) (\<lambda>(bm, sc1). Ok (Some (and_with R (fst st) bm), add_scores (snd st) sc1)))
      (Some (and_with R a bm), add_scores sc sc1) cs = Ok (b, sc') \<and>
      conj_docs R b = conj_docs R (Some (and_with R a bm)) \<inter> (\<Inter>c \<in> set cs. S c) \<and>
      (b = None \<longleftrightarrow> Some (and_with R a bm) = None \<and> cs = [])"
    by (rule Cons.IH) (simp add: Cons.prems)
  ultimately show ?case by (auto simp: conj_docs_and [OF R] Int_assoc)
qed simp

lemma filter_loop:
  assumes R: "roaring_ok R" and ev: "\<And>c. c \<in> set cs \<Longrightarrow> yields R (ev c) (S c)"
  shows "\<exists>b. res_foldl (filter_step R ev) a cs = Ok b \<and>
    conj_docs R b = conj_docs R a \<inter> (\<Inter>c \<in> set cs. S c) \<and> (b = None \<longleftrightarrow> a = None \<and> cs = [])"
  using ev
proof (induction cs arbitrary: a)
  case (Cons c cs)
  obtain bm sc where "ev c = Ok (bm, sc)" "bm_docs R bm = S c"
    using Cons.prems [of c] by (auto simp: yields_def)
  moreover have "\<exists>b. res_foldl (filter_step R ev) (Some (and_with R a bm)) cs = Ok b \<and>
      conj_docs R b = conj_docs R (Some (and_with R a bm)) \<inter> (\<Inter>c \<in> set cs. S c) \<and>
      (b = None \<longleftrightarrow> Some (and_with R a bm) = None \<and> cs = [])"
    by (rule Cons.IH) (simp add: Cons.prems)
  moreover from calculation have "filter_step R ev a c = Ok (Some (and_with R a bm))" by (simp add: filter_step_def)
  ultimately show ?case by (auto simp: conj_docs_and [OF R] Int_assoc)
qed simp

lemma should_loop:
  assumes R: "roaring_ok R" and ev: "\<And>c. c \<in> set cs \<Longrightarrow> yields R (ev c) (S c)"
  shows "\<exists>b sc'. res_foldl (should_step R ev) (a, sc) cs = Ok (b, sc') \<and>
    bm_docs R (or_New R b) = bm_docs R (or_New R a) \<union> (\<Union>c \<in> set cs. S c) \<and> (b = None \<longleftrightarrow> a = None \<and> cs = [])"
  using ev
proof (induction cs arbitrary: a sc)
  case (Cons c cs)
  obtain bm sc1 where bm: "ev c = Ok (bm, sc1)" "bm_docs R bm = S c"
    using Cons.prems [of c] by (auto simp: yields_def)
  let ?a = "Some (case a of None \<Rightarrow> bm | Some m \<Rightarrow> bm_Or R m bm)"
  have "bm_docs R (or_New R ?a) = bm_docs R (or_New R a) \<union> S c"
    using bm(2) R by (simp add: or_New_def roaring_set_simps split: option.split)
  moreover have "\<exists>b sc'. res_foldl (should_step R ev) (?a, add_scores sc sc1) cs = Ok (b, sc') \<and>
      bm_docs R (or_New R b) = bm_docs R (or_New R ?a) \<union> (\<Union>c \<in> set cs. S c) \<and> (b = None \<longleftrightarrow> ?a = None \<and> cs = [])"
    by (rule Cons.IH) (simp add: Cons.prems)
  moreover have "should_step R ev (a, sc) c = Ok (?a, add_scores sc sc1)" using bm(1) by (simp add: should_step_def)
  ultimately show ?case by (auto simp: Un_assoc)
qed simp

lemma mustnot_loop:
  assumes R: "roaring_ok R" and ev: "\<And>c. c \<in> set cs \<Longrightarrow> yields R (ev c) (S c)"
  shows "\<exists>b. res_foldl (mustnot_step R ev N) a cs = Ok b \<and> (b = None \<longleftrightarrow> a = None \<and> cs = []) \<and>
    bm_docs R (case b of None \<Rightarrow> bm_AddRange R (bm_New R) 0 N | Some m \<Rightarrow> m) =
      bm_docs R (case a of None \<Rightarrow> bm_AddRange R (bm_New R) 0 N | Some m \<Rightarrow> m) - (\<Union>c \<in> set cs. S c)"
  using ev
proof (induction cs arbitrary: a)
  case (Cons c cs)
  obtain bm sc where bm: "ev c = Ok (bm, sc)" "bm_docs R bm = S c"
    using Cons.prems [of c] by (auto simp: yields_def)
  let ?m = "case a of None \<Rightarrow> bm_AddRange R (bm_New R) 0 N | Some m \<Rightarrow> m"
  have "\<exists>b. res_foldl (mustnot_step R ev N) (Some (bm_AndNot R ?m bm)) cs = Ok b \<and>
      (b = None \<longleftrightarrow> Some (bm_AndNot R ?m bm) = None \<and> cs = []) \<and>
      bm_docs R (case b of None \<Rightarrow> bm_AddRange R (bm_New R) 0 N | Some m \<Rightarrow> m) =
      bm_docs R (case Some (bm_AndNot R ?m bm) of None \<Rightarrow> bm_AddRange R (bm_New R) 0 N | Some m \<Rightarrow> m) - (\<Union>c \<in> set cs. S c)"
    by (rule Cons.IH) (simp add: Cons.prems)
  moreover have "bm_docs R (bm_AndNot R ?m bm) = bm_docs R ?m - S c" using R bm(2) by (simp add: roaring_AndNot)
  moreover have "mustnot_step R ev N a c = Ok (Some (bm_AndNot R ?m bm))" using bm(1) by (simp add: mustnot_step_def)
  ultimately show ?case by (auto simp: Diff_eq Int_assoc)
qed simp

definition bool_docs :: "u32 set \<Rightarrow> Node \<Rightarrow> (Node \<Rightarrow> u32 set) \<Rightarrow> u32 set" where
  "bool_docs all q S =
     (if nd_Must q = [] \<and> nd_Filter q = [] then if nd_Should q = [] then all else (\<Union>c \<in> set (nd_Should q). S c)
      else (\<Inter>c \<in> set (nd_Must q). S c) \<inter> (\<Inter>c \<in> set (nd_Filter q). S c)) - (\<Union>c \<in> set (nd_MustNot q). S c)"

lemma evalBool_yields:
  assumes R: "roaring_ok R" and ev: "\<And>c. c \<in> set (nd_children q) \<Longrightarrow> yields R (ev c) (S c)"
  shows "yields R (evalBool R ev q N) (bool_docs {d. unat d < unat N} q S)"
proof -
  have ev': "yields R (ev c) (S c)" if "c \<in> set (nd_Must q) \<union> set (nd_Filter q) \<union> set (nd_Should q) \<union> set (nd_MustNot q)" for c
    using ev that by (auto simp: nd_children_def)
  obtain a sc where a: "res_foldl (must_step R ev) (None, no_scores) (nd_Must q) = Ok (a, sc)"
    "conj_docs R a = (\<Inter>c \<in> set (nd_Must q). S c)" "a = None \<longleftrightarrow> nd_Must q = []"
    using must_loop [OF R, of "nd_Must q" ev S None no_scores] ev'
    by (auto simp: must_step_def [abs_def] conj_docs_def split_def)
  obtain b where b: "res_foldl (filter_step R ev) a (nd_Filter q) = Ok b"
    "conj_docs R b = (\<Inter>c \<in> set (nd_Must q). S c) \<inter> (\<Inter>c \<in> set (nd_Filter q). S c)"
    "b = None \<longleftrightarrow> nd_Must q = [] \<and> nd_Filter q = []"
    using filter_loop [OF R, of "nd_Filter q" ev S a] ev' a by auto
  obtain h sc1 where h: "res_foldl (should_step R ev) (None, sc) (nd_Should q) = Ok (h, sc1)"
    "bm_docs R (or_New R h) = (\<Union>c \<in> set (nd_Should q). S c)" "h = None \<longleftrightarrow> nd_Should q = []"
    using should_loop [OF R, of "nd_Should q" ev S None sc] ev' roaring_New [OF R] by (auto simp: or_New_def)
  obtain m sc2 where m: "should_part R ev (nd_Should q) (b, sc) = Ok (m, sc2)"
    "m = (if b = None \<and> nd_Should q \<noteq> [] then h else b)"
    using h(1,3) by (cases b; cases h) (auto simp: should_part_def)
  let ?base = "case m of None \<Rightarrow> bm_AddRange R (bm_New R) 0 N | Some m \<Rightarrow> m"
  obtain n where n: "res_foldl (mustnot_step R ev N) m (nd_MustNot q) = Ok n"
    "bm_docs R (case n of None \<Rightarrow> bm_AddRange R (bm_New R) 0 N | Some m \<Rightarrow> m) = bm_docs R ?base - (\<Union>c \<in> set (nd_MustNot q). S c)"
    using mustnot_loop [OF R, of "nd_MustNot q" ev S N m] ev' by auto
  have "bm_docs R ?base =
      (if nd_Must q = [] \<and> nd_Filter q = [] then if nd_Should q = [] then {d. unat d < unat N} else (\<Union>c \<in> set (nd_Should q). S c)
       else (\<Inter>c \<in> set (nd_Must q). S c) \<inter> (\<Inter>c \<in> set (nd_Filter q). S c))"
    using m(2) b(2,3) h(2,3) R
    by (cases b; cases h) (auto simp: conj_docs_def or_New_def roaring_set_simps)
  then show ?thesis using a(1) b(1) m(1) n by (cases n) (simp_all add: evalBool_def yields_def bool_docs_def)
qed

section \<open>Query trees\<close>

definition term_strings :: "(string \<Rightarrow> Token list) \<Rightarrow> string \<Rightarrow> string list" where
  "term_strings tok v = map tk_Term (tok v)"

definition query_docs ::
  "'f Hotcache \<Rightarrow> 'b FieldAccumulator list \<Rightarrow> (string \<Rightarrow> Token list) \<Rightarrow> Node \<Rightarrow> u32 set" where
  "query_docs hc flds tok q = {d. unat d < unat (hc_DocCount hc) \<and>
     doc_matches (map fa_Name flds) (segment_occ flds d) (term_strings tok) q}"

lemma serves_occ_bound:
  assumes "serves_segment V R B s rd hc flds" and "segment_occ flds d f t \<noteq> []"
  shows "unat d < unat (hc_DocCount hc)"
proof -
  obtain fa where fa: "fa \<in> set flds" "fa_Name fa = f"
    using assms(2) segment_occ_none [of f flds d t] by blast
  have "distinct (map fa_Name flds)" and wf: "fa_wf R fa" and b: "\<forall>d \<in> fa_docs R fa t. unat d < unat (hc_DocCount hc)"
    using assms(1) fa(1) by (auto simp: serves_segment_def)
  then have "fa_pos fa t d \<noteq> []" using segment_occ_field fa assms(2) by metis
  then show ?thesis using b fa_docs_pos [OF wf] by blast
qed

lemma serves_term_bound:
  assumes "serves_segment V R B s rd hc flds" and "term_in names (segment_occ flds d) f t"
  shows "unat d < unat (hc_DocCount hc)"
  using assms(2) serves_occ_bound [OF assms(1)] by (auto simp: term_in_def split: if_splits)

lemma match_loop_yields:
  assumes sv: "serves_segment V R B s rd hc flds" and ne: "ts \<noteq> []"
  shows "\<exists>b sc. res_foldl (match_step V R B s rd hc f N) (None, no_scores) ts = Ok (b, sc) \<and>
    bm_docs R (or_New R b) = {d. \<forall>t \<in> set ts. term_in (map fa_Name flds) (segment_occ flds d) f (tk_Term t)}"
proof -
  have R: "roaring_ok R" using sv by (simp add: serves_segment_def)
  obtain b sc where "res_foldl (match_step V R B s rd hc f N) (None, no_scores) ts = Ok (b, sc)"
    "conj_docs R b = (\<Inter>t \<in> set ts. {d. term_in (map fa_Name flds) (segment_occ flds d) f (tk_Term t)})" "b \<noteq> None"
    using must_loop [OF R, of ts "\<lambda>t. termBitmap V R B s rd hc f (tk_Term t) N"
        "\<lambda>t. {d. term_in (map fa_Name flds) (segment_occ flds d) f (tk_Term t)}" None no_scores]
      termBitmap_yields [OF sv] ne
    by (auto simp: match_step_def [abs_def] conj_docs_def split_def)
  then show ?thesis by (auto simp: conj_docs_def or_New_def)
qed

lemma unat_ucast_u64: "unat (ucast (w :: u32) :: u64) = unat w"
proof -
  have "unat w < 2 ^ LENGTH(32)" by (rule unsigned_less)
  then show ?thesis by (simp only: unsigned_ucast_eq take_bit_eq_mod) simp
qed

lemma bool_docs_matches:
  assumes "nd_Type q = NodeBool"
  shows "bool_docs {d. unat d < unat (hc_DocCount hc)} q (query_docs hc flds tok) = query_docs hc flds tok q"
proof (rule set_eqI)
  fix d :: u32
  let ?S = "query_docs hc flds tok" and ?n = "unat d < unat (hc_DocCount hc)"
  have mem: "d \<in> ?S c \<longleftrightarrow> ?n \<and> doc_matches (map fa_Name flds) (segment_occ flds d) (term_strings tok) c" for c
    by (simp add: query_docs_def)
  have q: "doc_matches (map fa_Name flds) (segment_occ flds d) (term_strings tok) q \<longleftrightarrow>
      (\<forall>c \<in> set (nd_Must q) \<union> set (nd_Filter q). doc_matches (map fa_Name flds) (segment_occ flds d) (term_strings tok) c) \<and>
      (nd_Must q = [] \<and> nd_Filter q = [] \<longrightarrow> nd_Should q = [] \<or>
        (\<exists>c \<in> set (nd_Should q). doc_matches (map fa_Name flds) (segment_occ flds d) (term_strings tok) c)) \<and>
      \<not> (\<exists>c \<in> set (nd_MustNot q). doc_matches (map fa_Name flds) (segment_occ flds d) (term_strings tok) c)"
    using assms by (cases q) (auto simp: list_all_iff list_ex_iff)
  show "d \<in> bool_docs {d. unat d < unat (hc_DocCount hc)} q ?S \<longleftrightarrow> d \<in> ?S q"
  proof (cases "nd_Must q = [] \<and> nd_Filter q = []")
    case True
    then show ?thesis unfolding bool_docs_def mem q by (auto simp: mem)
  next
    case False
    then obtain c where "c \<in> set (nd_Must q) \<union> set (nd_Filter q)" by (metis UnI1 UnI2 list.set_intros(1) neq_Nil_conv)
    then show ?thesis unfolding bool_docs_def mem q using False by (auto simp: mem)
  qed
qed

lemma evalBitmap_yields:
  assumes sv: "serves_segment V R B s rd hc flds"
  shows "node_ok q \<Longrightarrow> yields R (evalBitmap V R B s tok rd hc q) (query_docs hc flds tok q)"
proof (induction q rule: measure_induct_rule [of size])
  case (less q)
  have R: "roaring_ok R" using sv by (simp add: serves_segment_def)
  let ?N = "ucast (hc_DocCount hc) :: u64"
  have N: "unat ?N = unat (hc_DocCount hc)" by (rule unat_ucast_u64)
  note term_bound = serves_term_bound [OF sv] and occ_bound = serves_occ_bound [OF sv]
  consider "nd_Type q = NodeMatch" | "nd_Type q = NodeTerm \<or> nd_Type q = NodeKeyword" | "nd_Type q = NodePrefix"
    | "nd_Type q = NodePhrase" | "nd_Type q = NodeBool" | "nd_Type q = NodeRange"
    using less.prems by (auto simp: node_ok_iff [of q] known_type_def)
  then show ?case
  proof cases
    case 1
    let ?ts = "tok (nd_Value q)"
    have docs: "query_docs hc flds tok q =
        {d. ?ts \<noteq> [] \<and> (\<forall>t \<in> set ?ts. term_in (map fa_Name flds) (segment_occ flds d) (nd_Field q) (tk_Term t))}"
      using 1 term_bound by (cases q) (auto simp: query_docs_def term_strings_def neq_Nil_conv; blast)
    show ?thesis
    proof (cases "?ts = []")
      case True
      then show ?thesis using 1 yields_New [OF R] docs by (simp add: evalBitmap.simps [of V R B s tok rd hc q] Let_def)
    next
      case False
      then show ?thesis
        using 1 match_loop_yields [OF sv False, of "nd_Field q" ?N] docs
        by (auto simp: evalBitmap.simps [of V R B s tok rd hc q] Let_def yields_def)
    qed
  next
    case 2
    have "query_docs hc flds tok q = {d. term_in (map fa_Name flds) (segment_occ flds d) (nd_Field q) (nd_Value q)}"
      using 2 term_bound by (cases q) (auto simp: query_docs_def)
    then show ?thesis
      using 2 termBitmap_yields [OF sv, of "nd_Field q" "nd_Value q" ?N] by (auto simp: evalBitmap.simps [of V R B s tok rd hc q])
  next
    case 3
    have "query_docs hc flds tok q = {d. \<exists>t. HasPrefix t (nd_Value q) \<and> segment_occ flds d (nd_Field q) t \<noteq> []}"
      using 3 occ_bound by (cases q) (auto simp: query_docs_def)
    then show ?thesis
      using 3 prefixBitmap_yields [OF sv, of "nd_Field q" "nd_Value q" ?N] by (simp add: evalBitmap.simps [of V R B s tok rd hc q])
  next
    case 4
    have "unat d < unat (hc_DocCount hc)" if "nd_Terms q \<noteq> []" "phrase_at (segment_occ flds d (nd_Field q)) (nd_Terms q) st" for d st
      using that occ_bound [of d "nd_Field q" "nd_Terms q ! 0"] by (fastforce simp: phrase_at_def)
    then have "query_docs hc flds tok q = {d. nd_Terms q \<noteq> [] \<and> (\<exists>st. phrase_at (segment_occ flds d (nd_Field q)) (nd_Terms q) st)}"
      using 4 by (cases q) (auto simp: query_docs_def)
    then show ?thesis
      using 4 phraseBitmap_yields [OF sv, of "nd_Field q" "nd_Terms q" ?N] by (simp add: evalBitmap.simps [of V R B s tok rd hc q])
  next
    case 5
    have "yields R (evalBitmap V R B s tok rd hc c) (query_docs hc flds tok c)" if "c \<in> set (nd_children q)" for c
      using less.IH [OF size_nd_children [OF that]] node_ok_children [OF less.prems 5 that] .
    then have "yields R (evalBool R (evalBitmap V R B s tok rd hc) q ?N)
        (bool_docs {d. unat d < unat ?N} q (query_docs hc flds tok))"
      by (rule evalBool_yields [OF R])
    then show ?thesis using 5 unfolding N bool_docs_matches [OF 5] by (simp add: evalBitmap.simps [of V R B s tok rd hc q])
  next
    case 6
    then have "query_docs hc flds tok q = {}" by (cases q) (simp add: query_docs_def)
    then show ?thesis using 6 yields_New [OF R] by (simp add: evalBitmap.simps [of V R B s tok rd hc q])
  qed
qed

end
