(* ===== verification/Query_Search.thy ===== *)
theory Query_Search
  imports Query_Correct Memtable
begin

text \<open>
  From built segments to search results: a stored segment serves its accumulators, so
  \<open>SearchDocIDs\<close> finds exactly the matching documents and \<open>SegmentSearch\<close> returns the best of
  them, with the bytes that were indexed.
\<close>

section \<open>Built segments serve their accumulators\<close>

lemma built_fst_served:
  assumes wf: "fa_wf R fa" and names: "distinct (map fa_Name flds)" and fa: "fa \<in> set flds"
    and bf: "built_field V R flds fa fhc"
  shows "fst_served V fhc fa"
proof -
  let ?offs = "fg_offsets (group_of (seg_groups R flds) (fa_Name fa))"
  have len: "length ?offs = length (fa_terms fa)"
    using field_group(2) [OF names fa refl] by (simp add: seg_groups_def)
  have "distinct (fa_terms fa)" using wf by (simp add: fa_terms_def fa_wf_def)
  then have "map_of (zip (fa_terms fa) ?offs) (fa_terms fa ! i) = Some (?offs ! i)" if "i < length (fa_terms fa)" for i
    using that len by (intro map_of_zip_nth) simp_all
  then show ?thesis using bf len unfolding fst_served_def built_field_def by auto
qed

lemma built_serves_segment:
  assumes store: "blob_store B objects" and R: "roaring_ok R" and V: "vellum_ok V"
    and fin: "ds_Finalize Z ds = (blks, idx)"
    and wf: "\<forall>fa \<in> set flds. fa_wf R fa" and size: "\<forall>fa \<in> set flds. \<forall>t d. length (fa_pos fa t d) \<le> max_u32_slice"
    and names: "distinct (map fa_Name flds)" and build: "seg_Build R Z V flds ds dc = Ok res"
    and obj: "objects s key = Some (SegBytes res)" "length (SegBytes res) < 2 ^ 63" "length (HotcacheBytes res) < 2 ^ 32"
    and bound: "\<forall>fa \<in> set flds. \<forall>t. \<forall>d \<in> fa_docs R fa t. unat d < unat dc"
  shows "stored_segment (objects s) key R flds blks dc \<and>
    seg_NewReader B s key = Ok (built_reader key R flds blks dc) \<and>
    (\<exists>hc. DecodeHotcache V (HotcacheBytes res) spare = Ok hc \<and> hc_DocstoreIdx hc = EncodeIndex idx \<and>
      hc_DocCount hc = dc \<and> hc_NumDocstoreBlocks hc = word_of_nat (length blks) \<and>
      serves_segment V R B s (built_reader key R flds blks dc) hc flds)"
proof -
  have "SegBytes res = seg_bytes R flds blks dc" using build unfolding seg_Build_Ok [OF R fin] by auto
  then have seg: "stored_segment (objects s) key R flds blks dc" using obj by (simp add: stored_segment_def)
  obtain hc where hc: "DecodeHotcache V (HotcacheBytes res) spare = Ok hc" "hc_DocstoreIdx hc = EncodeIndex idx"
      "hc_DocCount hc = dc" "hc_NumDocstoreBlocks hc = word_of_nat (length blks)"
    and hnames: "map fh_Name (hc_Fields hc) = map fa_Name flds"
    and none: "\<forall>n. n \<notin> fa_Name ` set flds \<longrightarrow> hc_Field hc n = None"
    and fields: "\<forall>fa \<in> set flds. \<exists>fhc. fhc \<in> set (hc_Fields hc) \<and> hc_Field hc (fa_Name fa) = Some fhc \<and>
      built_field V R flds fa fhc"
    using built_hotcache [OF R V fin wf names build obj(3), of spare] by blast
  have len: "length (hc_Fields hc) = length flds" using arg_cong [OF hnames, of length] by simp
  let ?P = "\<lambda>fhc fa. hc_Field hc (fa_Name fa) = Some fhc \<and>
      serves_field V R B s (built_reader key R flds blks dc) fhc fa \<and> fst_served V fhc fa"
  have "?P (hc_Fields hc ! i) (flds ! i)" if i: "i < length flds" for i
  proof -
    let ?fa = "flds ! i"
    have fa: "?fa \<in> set flds" using i by simp
    then obtain fhc where fhc: "fhc \<in> set (hc_Fields hc)" "hc_Field hc (fa_Name ?fa) = Some fhc" "built_field V R flds ?fa fhc"
      using fields by blast
    then obtain j where j: "j < length flds" "hc_Fields hc ! j = fhc" using len by (auto simp: in_set_conv_nth)
    then have "fa_Name (flds ! j) = fa_Name ?fa"
      using fhc(3) hnames len by (metis built_field_def nth_map)
    then have "j = i" using names i j(1) by (metis distinct_conv_nth length_map nth_map)
    moreover have "fa_wf R ?fa" "\<forall>t d. length (fa_pos ?fa t d) \<le> max_u32_slice" using wf size fa by blast+
    ultimately show ?thesis
      using fhc j(2) blob_store.built_field_serves [OF store seg R _ names fa] built_fst_served [OF _ names fa] by blast
  qed
  then have "list_all2 ?P (hc_Fields hc) flds" using len by (simp add: list_all2_conv_all_nth)
  then have "serves_segment V R B s (built_reader key R flds blks dc) hc flds"
    using R names wf bound none hc(3) unfolding serves_segment_def by simp
  then show ?thesis using seg hc blob_store.NewReader_built [OF store seg] by auto
qed

section \<open>Fetching the documents of the hits\<close>

context blob_store
begin

lemma fetch_set_built:
  assumes seg: "stored_segment (objects s) key R flds blks dc" and n: "Suc (length blks) < 2 ^ 29" and ne: "[] \<notin> set blks"
  shows "\<forall>b \<in> set bs. unat b < length blks \<Longrightarrow>
    fetch_set B s (built_reader key R flds blks dc) (word_of_nat (length blks)) bs = Ok (map (\<lambda>b. (b, blks ! unat b)) bs)"
proof (induction bs)
  case (Cons b bs)
  then show ?case using GetDocBlock_built [OF seg _ n ne, of "unat b"] by simp
qed simp

end

lemma place_blocks:
  "\<forall>b \<in> set bs. unat b < length T \<Longrightarrow>
    \<exists>T'. res_foldl place_block T (map (\<lambda>b. (b, g b)) bs) = Ok T' \<and> length T' = length T \<and>
      (\<forall>b. unat b < length T \<longrightarrow> T' ! unat b = (if b \<in> set bs then g b else T ! unat b))"
proof (induction bs arbitrary: T)
  case (Cons b bs)
  let ?T = "T[unat b := g b]"
  have "\<exists>T'. res_foldl place_block ?T (map (\<lambda>b. (b, g b)) bs) = Ok T' \<and> length T' = length ?T \<and>
      (\<forall>c. unat c < length ?T \<longrightarrow> T' ! unat c = (if c \<in> set bs then g c else ?T ! unat c))"
    by (rule Cons.IH) (simp add: Cons.prems)
  moreover have "place_block T (b, g b) = Ok ?T" using Cons.prems by (simp add: place_block_def)
  moreover have "?T ! unat c = (if c = b then g b else T ! unat c)" if "unat c < length T" for c
  proof (cases "c = b")
    case False
    then have "unat c \<noteq> unat b" using unsigned_word_eqI [of c b, where 'a = nat] by blast
    then show ?thesis using False by simp
  qed (use that in simp)
  ultimately show ?case by auto
qed simp

lemma max_block:
  fixes m :: u32
  assumes "\<forall>b \<in> set bs. unat b < n" and "unat m < n"
  shows "unat (foldl (\<lambda>m b. if m < b then b else m) m bs) < n \<and>
    (\<forall>b \<in> insert m (set bs). b \<le> foldl (\<lambda>m b. if m < b then b else m) m bs)"
  using assms
proof (induction bs arbitrary: m)
  case (Cons b bs)
  define m' where "m' = (if m < b then b else m)"
  have "unat m' < n" "m \<le> m'" "b \<le> m'" using Cons.prems by (auto simp: m'_def)
  moreover have "foldl (\<lambda>m b. if m < b then b else m) m (b # bs) = foldl (\<lambda>m b. if m < b then b else m) m' bs"
    by (simp add: m'_def)
  ultimately show ?case using Cons.IH [of m'] Cons.prems(1) by (auto intro: order_trans)
qed simp

lemma block_table_built:
  assumes bs: "\<forall>b \<in> set (bs :: u32 list). unat b < n" and n: "n < 2 ^ 29"
  shows "\<exists>T. block_table (map (\<lambda>b. (b, g b)) bs) = Ok T \<and> (\<forall>b \<in> set bs. unat b < length T \<and> T ! unat b = g b)"
proof -
  let ?m = "foldl (\<lambda>m bd. if m < fst bd then fst bd else m) (0 :: u32) (map (\<lambda>b. (b, g b)) bs)"
  have "?m = foldl (\<lambda>m b. if m < b then b else m) 0 bs" by (simp add: foldl_map cong: if_cong)
  then have m: "unat ?m < Suc n" "\<forall>b \<in> set bs. b \<le> ?m"
    using max_block [of bs "Suc n" 0] bs by (auto simp: less_Suc_eq)
  then have "unat (?m + 1) = Suc (unat ?m)" using n by (simp add: unat_word_ariths)
  then have in_range: "\<forall>b \<in> set bs. unat b < length (replicate (unat (?m + 1)) [])"
    using m(2) by (simp add: word_le_nat_alt less_Suc_eq_le)
  from place_blocks [OF in_range, of g] show ?thesis using in_range by (auto simp: block_table_def Let_def)
qed

lemma fill_sources_ok:
  "\<forall>h \<in> set hs. unat (hit_DocID h) < length idx \<and> ds_Get Z T (idx ! unat (hit_DocID h)) = Ok (src (hit_DocID h)) \<Longrightarrow>
    fill_sources Z T idx hs = Ok (map (\<lambda>h. h\<lparr>hit_Source := Some (src (hit_DocID h))\<rparr>) hs)"
  by (induction hs) auto

lemma ds_Get_block: "ds_Get Z blks e = Ok d \<Longrightarrow> unat (Block e) < length blks"
  by (auto simp: ds_Get_def split: if_splits)

lemma ds_Get_cong:
  "ds_Get Z blks e = Ok d \<Longrightarrow> unat (Block e) < length T \<Longrightarrow> T ! unat (Block e) = blks ! unat (Block e) \<Longrightarrow> ds_Get Z T e = Ok d"
  by (auto simp: ds_Get_def split: if_splits)

section \<open>Searching a served segment\<close>

definition del_docs :: "'b roaring \<Rightarrow> 'b option \<Rightarrow> u32 set" where
  "del_docs R del = (case del of None \<Rightarrow> {} | Some b \<Rightarrow> bm_docs R b)"

lemma and_not_docs: "roaring_ok R \<Longrightarrow> bm_docs R (and_not R bm del) = bm_docs R bm - del_docs R del"
  by (simp add: and_not_def del_docs_def roaring_AndNot split: option.split)

lemma SearchDocIDs_served:
  assumes sv: "serves_segment V R B s rd hc flds" and rd: "seg_NewReader B s key = Ok rd" and q: "node_ok q"
  shows "\<exists>bm. SearchDocIDs V R B s tok key hc q del = Ok bm \<and> bm_docs R bm = query_docs hc flds tok q - del_docs R del"
proof -
  have "roaring_ok R" using sv by (simp add: serves_segment_def)
  then show ?thesis
    using evalBitmap_yields [OF sv q, of tok] rd by (auto simp: SearchDocIDs_def yields_def and_not_docs)
qed

text \<open>
  The best \<open>k\<close> of a set of documents: as many as asked for, in descending order of score, and no
  document left out has a higher score than one that is returned.
\<close>

definition best_hits :: "int \<Rightarrow> u32 set \<Rightarrow> scores \<Rightarrow> (u32 \<Rightarrow> bytes) \<Rightarrow> Hit list \<Rightarrow> bool" where
  "best_hits k M sc src hits \<longleftrightarrow> length hits = min (nat k) (card M) \<and>
     distinct (map hit_DocID hits) \<and> set (map hit_DocID hits) \<subseteq> M \<and>
     sorted_wrt (\<lambda>a b. hit_Score b \<le> hit_Score a) hits \<and>
     (\<forall>h \<in> set hits. hit_Score h = sc (hit_DocID h) \<and> hit_Source h = Some (src (hit_DocID h)) \<and>
       (\<forall>d \<in> M - set (map hit_DocID hits). sc d \<le> hit_Score h))"

lemma execNode_served:
  assumes sv: "serves_segment V R B s rd hc flds" and q: "node_ok q"
  shows "\<exists>sc ds. execNode V R B s tok rd hc q del = Ok (map (\<lambda>d. \<lparr>hit_DocID = d, hit_Score = sc d, hit_Source = None\<rparr>) ds) \<and>
    distinct ds \<and> set ds = query_docs hc flds tok q - del_docs R del"
proof -
  have R: "roaring_ok R" using sv by (simp add: serves_segment_def)
  obtain bm sc where bm: "evalBitmap V R B s tok rd hc q = Ok (bm, sc)" "bm_docs R bm = query_docs hc flds tok q"
    using evalBitmap_yields [OF sv q, of tok] by (auto simp: yields_def)
  have "set (bm_Iterator R (and_not R bm del)) = query_docs hc flds tok q - del_docs R del"
    using and_not_docs [OF R, of bm del] bm(2) by (simp add: bm_docs_def [of R "and_not R bm del"])
  then show ?thesis using bm(1) roaring_distinct [OF R] by (auto simp: execNode_def)
qed

lemma top_best:
  assumes srt: "slice_sort srt" and k: "0 \<le> k" and ds: "distinct ds"
    and xs: "xs = map (\<lambda>d. \<lparr>hit_DocID = d, hit_Score = sc d, hit_Source = None\<rparr>) ds"
  shows "\<exists>top. top_k k (srt (\<lambda>h. - hit_Score h) xs) = Ok top \<and> set (map hit_DocID top) \<subseteq> set ds \<and>
    best_hits k (set ds) sc src (map (\<lambda>h. h\<lparr>hit_Source := Some (src (hit_DocID h))\<rparr>) top)"
proof -
  let ?ys = "srt (\<lambda>h. - hit_Score h) xs"
  have mset: "mset ?ys = mset xs" and sorted: "sorted (map (\<lambda>h. - hit_Score h) ?ys)"
    using srt by (simp_all add: slice_sort_def)
  have set: "set ?ys = set xs" using mset by (metis set_mset_mset)
  have len: "length ?ys = length ds" using mset xs by (metis length_map size_mset)
  have ids: "distinct (map hit_DocID ?ys)"
  proof -
    have "mset (map hit_DocID ?ys) = mset (map hit_DocID xs)" using mset by simp
    moreover have "map hit_DocID xs = ds" by (simp add: xs comp_def)
    ultimately show ?thesis using ds by (metis mset_eq_imp_distinct_iff)
  qed
  have sc: "hit_Score h = sc (hit_DocID h)" "hit_DocID h \<in> set ds" if "h \<in> set ?ys" for h
    using that set xs by auto
  have desc: "sorted_wrt (\<lambda>a b. hit_Score b \<le> hit_Score a) ?ys"
    using sorted by (simp add: sorted_map)
  define top where "top = take (nat k) ?ys"
  have top: "top_k k ?ys = Ok top" using k by (auto simp: top_k_def top_def)
  have left: "sc d \<le> hit_Score h" if h: "h \<in> set top" and d: "d \<in> set ds" "d \<notin> set (map hit_DocID top)" for h d
  proof -
    obtain g where g: "g \<in> set ?ys" "hit_DocID g = d"
    proof
      show "\<lparr>hit_DocID = d, hit_Score = sc d, hit_Source = None\<rparr> \<in> set ?ys" using d(1) set xs by auto
    qed simp
    have "?ys = top @ drop (nat k) ?ys" by (simp add: top_def)
    then have "g \<in> set (drop (nat k) ?ys)" using g d(2) by (metis Un_iff image_eqI set_append set_map)
    moreover have "sorted_wrt (\<lambda>a b. hit_Score b \<le> hit_Score a) (top @ drop (nat k) ?ys)"
      using desc by (simp add: top_def)
    ultimately have "hit_Score g \<le> hit_Score h" using h by (simp add: sorted_wrt_append)
    then show ?thesis using sc(1) [OF g(1)] g(2) by simp
  qed
  have sub: "set top \<subseteq> set ?ys" by (simp add: top_def set_take_subset)
  have "length top = min (nat k) (card (set ds))" using len ds by (simp add: top_def distinct_card min.commute)
  moreover have "distinct (map hit_DocID top)" using ids by (simp add: top_def take_map [symmetric] distinct_take)
  moreover have "sorted_wrt (\<lambda>a b. hit_Score b \<le> hit_Score a) top" using desc by (simp add: top_def sorted_wrt_take)
  moreover have "set (map hit_DocID top) \<subseteq> set ds" using sub sc(2) by auto
  ultimately have "best_hits k (set ds) sc src (map (\<lambda>h. h\<lparr>hit_Source := Some (src (hit_DocID h))\<rparr>) top)"
    using left sub sc(1) by (auto simp: best_hits_def comp_def sorted_wrt_map)
  then show ?thesis using top \<open>set (map hit_DocID top) \<subseteq> set ds\<close> by blast
qed

lemma SegmentSearch_built:
  assumes store: "blob_store B objects" and srt: "slice_sort srt" and Z: "zstd_ok Z"
    and seg: "stored_segment (objects s) key R flds blks dc"
    and rd: "seg_NewReader B s key = Ok (built_reader key R flds blks dc)"
    and sv: "serves_segment V R B s (built_reader key R flds blks dc) hc flds"
    and hc: "hc_DocstoreIdx hc = EncodeIndex idx" "hc_NumDocstoreBlocks hc = word_of_nat (length blks)"
      "hc_DocCount hc = word_of_nat (length docs)"
    and st: "length idx = length docs" "length blks \<le> length docs" "Suc (length docs) < 2 ^ 29"
      "\<forall>i < length docs. ds_Get Z blks (idx ! i) = Ok (docs ! i)"
    and q: "node_ok q" and k: "0 \<le> k" and ne: "[] \<notin> set blks"
  shows "\<exists>pr sc. SegmentSearch V R Z srt B s tok key hc q k del = Ok pr \<and>
    pr_TotalHits pr = word_of_nat (card (query_docs hc flds tok q - del_docs R del)) \<and>
    best_hits k (query_docs hc flds tok q - del_docs R del) sc (\<lambda>d. docs ! unat d) (pr_Hits pr)"
proof -
  let ?rd = "built_reader key R flds blks dc"
  obtain sc ds where ex: "execNode V R B s tok ?rd hc q del = Ok (map (\<lambda>d. \<lparr>hit_DocID = d, hit_Score = sc d, hit_Source = None\<rparr>) ds)"
    and ds: "distinct ds" "set ds = query_docs hc flds tok q - del_docs R del"
    using execNode_served [OF sv q, of tok del] by blast
  let ?xs = "map (\<lambda>d. \<lparr>hit_DocID = d, hit_Score = sc d, hit_Source = None\<rparr>) ds"
  obtain top where top: "top_k k (srt (\<lambda>h. - hit_Score h) ?xs) = Ok top" "set (map hit_DocID top) \<subseteq> set ds"
    "best_hits k (set ds) sc (\<lambda>d. docs ! unat d) (map (\<lambda>h. h\<lparr>hit_Source := Some (docs ! unat (hit_DocID h))\<rparr>) top)"
    using top_best [OF srt k ds(1) refl, of sc "\<lambda>d. docs ! unat d"] by blast
  have "unat (word_of_nat (length docs) :: u32) = length docs" using st(3) by (simp add: unat_u32_of_nat)
  then have ids: "unat (hit_DocID h) < length docs" if "h \<in> set top" for h
    using that top(2) ds(2) hc(3) by (auto simp: query_docs_def)
  let ?bs = "needed_blocks idx top"
  have blk: "Block (idx ! unat (hit_DocID h)) \<in> set ?bs" if "h \<in> set top" for h
    using that ids st(1) by (auto simp: needed_blocks_def)
  have bs: "\<forall>b \<in> set ?bs. unat b < length blks"
    using ids st(1,4) ds_Get_block by (fastforce simp: needed_blocks_def)
  have fetch: "fetch_set B s ?rd (word_of_nat (length blks)) ?bs = Ok (map (\<lambda>b. (b, blks ! unat b)) ?bs)"
    using blob_store.fetch_set_built [OF store seg _ ne bs] st(2,3) by simp
  obtain T where T: "block_table (map (\<lambda>b. (b, blks ! unat b)) ?bs) = Ok T"
    "\<forall>b \<in> set ?bs. unat b < length T \<and> T ! unat b = blks ! unat b"
    using block_table_built [OF bs] st(2,3) by fastforce
  have "fill_sources Z T idx top = Ok (map (\<lambda>h. h\<lparr>hit_Source := Some (docs ! unat (hit_DocID h))\<rparr>) top)"
  proof (rule fill_sources_ok, intro ballI conjI)
    fix h assume h: "h \<in> set top"
    then show "unat (hit_DocID h) < length idx" using ids st(1) by simp
    show "ds_Get Z T (idx ! unat (hit_DocID h)) = Ok (docs ! unat (hit_DocID h))"
      using ds_Get_cong [of Z blks] st(4) ids [OF h] T(2) blk [OF h] by blast
  qed
  moreover have "zstd_NewReader Z = Ok ()" using Z by (simp add: zstd_ok_def)
  moreover have "length ds = card (set ds)" using ds(1) by (simp add: distinct_card)
  ultimately show ?thesis
    using rd ex top hc(1,2) fetch T(1) ds(2)
    by (auto simp: SegmentSearch_def Let_def DecodeIndex_EncodeIndex)
qed

section \<open>From documents to answers\<close>

text \<open>What the index of a document says about it: the positions of a term in an indexed field.\<close>

definition doc_occ ::
  "'v fastjson \<Rightarrow> unicode \<Rightarrow> (string \<Rightarrow> Token list) \<Rightarrow> Schema \<Rightarrow> bytes \<Rightarrow> string \<Rightarrow> string \<Rightarrow> u32 list" where
  "doc_occ FJ U tok sc raw f t =
     (case find (\<lambda>fd. indexed_field fd \<and> fd_Name fd = f) (sc_Fields sc) of
        None \<Rightarrow> [] | Some fd \<Rightarrow> term_positions t (doc_tokens FJ U tok fd raw))"

definition indexed_names :: "Schema \<Rightarrow> string list" where
  "indexed_names sc = map fd_Name (filter indexed_field (sc_Fields sc))"

lemma mt_fieldSlice_names:
  assumes m: "mt_holds R Z FJ U tok w docs m" and sc: "schema_ok (mt_schema m)"
  shows "map fa_Name (mt_fieldSlice m) = indexed_names (mt_schema m)"
proof -
  let ?fs = "sc_Fields (mt_schema m)"
  have dist: "distinct (map fd_Name ?fs)" using sc by (simp add: schema_ok_def)
  have "map fa_Name (List.map_filter (\<lambda>f. map_of (mt_fields m) (fd_Name f)) fs) = map fd_Name (filter indexed_field fs)"
    if "set fs \<subseteq> set ?fs" for fs
    using that
  proof (induction fs)
    case (Cons f fs)
    have f: "f \<in> set ?fs" using Cons.prems by simp
    have "indexed_field f" if in_map: "map_of (mt_fields m) (fd_Name f) \<noteq> None"
    proof -
      obtain g where "g \<in> set ?fs" "indexed_field g" "fd_Name g = fd_Name f"
        using m in_map unfolding mt_holds_def by blast
      then show ?thesis using dist f by (metis (no_types, lifting) distinct_map inj_onD)
    qed
    moreover have "\<exists>fa. map_of (mt_fields m) (fd_Name f) = Some fa \<and> fa_Name fa = fd_Name f" if "indexed_field f"
      using m f that by (auto simp: mt_holds_def field_holds_def)
    ultimately show ?case
      using Cons by (cases "indexed_field f"; cases "map_of (mt_fields m) (fd_Name f)") (auto simp: List.map_filter_def)
  qed (simp add: List.map_filter_def)
  from this [of ?fs] show ?thesis by (simp add: mt_fieldSlice_def indexed_names_def)
qed

lemma segment_occ_doc:
  assumes m: "mt_holds R Z FJ U tok w docs m" and sc: "schema_ok (mt_schema m)" and d: "unat d < length docs"
  shows "segment_occ (mt_fieldSlice m) d f t = doc_occ FJ U tok (mt_schema m) (docs ! unat d) f t"
proof (cases "find (\<lambda>fd. indexed_field fd \<and> fd_Name fd = f) (sc_Fields (mt_schema m))")
  case None
  then have "f \<notin> set (indexed_names (mt_schema m))" by (auto simp: find_None_iff indexed_names_def)
  then have "f \<notin> fa_Name ` set (mt_fieldSlice m)" using mt_fieldSlice_names [OF m sc] by (metis list.set_map)
  then show ?thesis using None by (simp add: segment_occ_none doc_occ_def)
next
  case (Some fd)
  then have fd: "fd \<in> set (sc_Fields (mt_schema m))" "indexed_field fd" "fd_Name fd = f"
    by (auto simp: find_Some_iff)
  then obtain fa where fa: "fa \<in> set (mt_fieldSlice m)" "field_holds R FJ U tok fd docs fa"
    using mt_fieldSlice_ok(3) [OF m sc] by blast
  have "segment_occ (mt_fieldSlice m) d (fa_Name fa) t = fa_pos fa t d"
    using segment_occ_field [OF mt_fieldSlice_ok(1) [OF m sc] fa(1)] .
  then show ?thesis using fa(2) fd(3) d Some by (simp add: field_holds_def doc_occ_def)
qed

text \<open>The documents of an index that match a query and are not deleted.\<close>

definition answer ::
  "'v fastjson \<Rightarrow> unicode \<Rightarrow> (string \<Rightarrow> Token list) \<Rightarrow> Schema \<Rightarrow> bytes list \<Rightarrow> Node \<Rightarrow> u32 set \<Rightarrow> u32 set" where
  "answer FJ U tok sc docs q deleted = {d. unat d < length docs \<and> d \<notin> deleted \<and>
     doc_matches (indexed_names sc) (doc_occ FJ U tok sc (docs ! unat d)) (term_strings tok) q}"

text \<open>
  A stored segment that a memtable built from the documents \<open>docs\<close>, together with its decoded
  hotcache, within the sizes the formats allow.
\<close>

definition searchable ::
  "'b roaring \<Rightarrow> zstd \<Rightarrow> ('w, 'f) vellum \<Rightarrow> 'v fastjson \<Rightarrow> unicode \<Rightarrow> (string \<Rightarrow> Token list) \<Rightarrow> Schema \<Rightarrow> bytes list
     \<Rightarrow> (string \<rightharpoonup> bytes) \<Rightarrow> string \<Rightarrow> 'f Hotcache \<Rightarrow> bool" where
  "searchable R Z V FJ U tok sc docs objs key hc \<longleftrightarrow>
     schema_ok sc \<and> Suc (length docs) < 2 ^ 29 \<and>
     (\<forall>d \<in> set docs. parses FJ d \<and> length d \<le> ds_max_doc \<and>
       (\<forall>f \<in> set (sc_Fields sc). length (doc_tokens FJ U tok f d) \<le> max_u32_slice)) \<and>
     (\<exists>m m' res spare. NewMemtable Z sc = Ok m \<and> mt_AddAll R Z FJ U tok m docs = (Ok (), m') \<and>
       mt_Build R Z V m' = Ok res \<and> objs key = Some (SegBytes res) \<and>
       length (SegBytes res) < 2 ^ 63 \<and> length (HotcacheBytes res) < 2 ^ 32 \<and>
       DecodeHotcache V (HotcacheBytes res) spare = Ok hc)"

lemma searchable_serves:
  assumes store: "blob_store B objects" and R: "roaring_ok R" and V: "vellum_ok V" and Z: "zstd_ok Z"
    and s: "searchable R Z V FJ U tok sc docs (objects s) key hc"
  shows "\<exists>flds blks idx. stored_segment (objects s) key R flds blks (word_of_nat (length docs)) \<and>
    seg_NewReader B s key = Ok (built_reader key R flds blks (word_of_nat (length docs))) \<and>
    serves_segment V R B s (built_reader key R flds blks (word_of_nat (length docs))) hc flds \<and>
    hc_DocstoreIdx hc = EncodeIndex idx \<and> hc_NumDocstoreBlocks hc = word_of_nat (length blks) \<and>
    hc_DocCount hc = word_of_nat (length docs) \<and> length idx = length docs \<and> length blks \<le> length docs \<and> [] \<notin> set blks \<and>
    (\<forall>i < length docs. ds_Get Z blks (idx ! i) = Ok (docs ! i)) \<and>
    (\<forall>q del. query_docs hc flds tok q - del = answer FJ U tok sc docs q del)"
proof -
  obtain m m' res spare where new: "NewMemtable Z sc = Ok m" and add: "mt_AddAll R Z FJ U tok m docs = (Ok (), m')"
    and build: "mt_Build R Z V m' = Ok res" and obj: "objects s key = Some (SegBytes res)" "length (SegBytes res) < 2 ^ 63"
      "length (HotcacheBytes res) < 2 ^ 32" and dec: "DecodeHotcache V (HotcacheBytes res) spare = Ok hc"
    and sc: "schema_ok sc" and n: "Suc (length docs) < 2 ^ 29"
    and docs: "\<forall>d \<in> set docs. parses FJ d \<and> length d \<le> ds_max_doc \<and>
       (\<forall>f \<in> set (sc_Fields sc). length (doc_tokens FJ U tok f d) \<le> max_u32_slice)"
    using s unfolding searchable_def by blast
  obtain w where w: "ds_NewWriter Z = Ok w" "mt_holds R Z FJ U tok w [] m" "mt_schema m = sc"
    using NewMemtable_holds [OF new] by blast
  have m': "mt_holds R Z FJ U tok w docs m'" "mt_schema m' = sc"
    using mt_AddAll_holds [OF R w(2), of docs] sc n docs add w(3) by auto
  have dc: "unat (word_of_nat (length docs) :: u32) = length docs" using n by (simp add: unat_u32_of_nat)
  let ?flds = "mt_fieldSlice m'" and ?ds = "ds_AddAll Z w 0 docs"
  have sc': "schema_ok (mt_schema m')" using sc m'(2) by simp
  have fields: "\<exists>f \<in> set (sc_Fields sc). field_holds R FJ U tok f docs fa" if "fa \<in> set ?flds" for fa
    using mt_fieldSlice_ok(2) [OF m'(1) sc' that] m'(2) by auto
  obtain blks idx where fin: "ds_Finalize Z ?ds = (blks, idx)" by fastforce
  have seg: "seg_Build R Z V ?flds ?ds (word_of_nat (length docs)) = Ok res"
    using build m'(1) by (simp add: mt_Build_def mt_holds_def)
  have wf: "\<forall>fa \<in> set ?flds. fa_wf R fa" using fields by (auto simp: field_holds_def)
  have size: "\<forall>fa \<in> set ?flds. \<forall>t d. length (fa_pos fa t d) \<le> max_u32_slice"
  proof (intro ballI allI)
    fix fa t d assume "fa \<in> set ?flds"
    then obtain f where f: "f \<in> set (sc_Fields sc)" "field_holds R FJ U tok f docs fa" using fields by blast
    have "length (term_positions t (doc_tokens FJ U tok f d)) \<le> max_u32_slice" if "d \<in> set docs" for d
      using docs f(1) that length_filter_le order_trans unfolding term_positions_def length_map by blast
    then show "length (fa_pos fa t d) \<le> max_u32_slice" using f(2) by (simp add: field_holds_def)
  qed
  have bound: "\<forall>fa \<in> set ?flds. \<forall>t. \<forall>d \<in> fa_docs R fa t. unat d < unat (word_of_nat (length docs) :: u32)"
    using fields unfolding dc by (fastforce simp: field_holds_def fa_docs_pos split: if_splits)
  note built = built_serves_segment [OF store R V fin wf size mt_fieldSlice_ok(1) [OF m'(1) sc'] seg obj bound, of spare]
  have hc: "hc_DocstoreIdx hc = EncodeIndex idx" "hc_NumDocstoreBlocks hc = word_of_nat (length blks)"
    "hc_DocCount hc = word_of_nat (length docs)"
    and sv: "serves_segment V R B s (built_reader key R ?flds blks (word_of_nat (length docs))) hc ?flds"
    using built dec by auto
  have "query_docs hc ?flds tok q - del = answer FJ U tok sc docs q del" for q del
  proof -
    have "segment_occ ?flds d = doc_occ FJ U tok sc (docs ! unat d)" if "unat d < length docs" for d
      using segment_occ_doc [OF m'(1) sc' that] m'(2) by (simp add: fun_eq_iff)
    then show ?thesis
      using mt_fieldSlice_names [OF m'(1) sc'] m'(2) hc(3) dc by (auto simp: query_docs_def answer_def)
  qed
  moreover have "length idx = length docs \<and> length blks \<le> length docs \<and> (\<forall>i < length docs. ds_Get Z blks (idx ! i) = Ok (docs ! i))"
    using ds_store_roundtrip [OF Z w(1) _ _ fin] docs n by simp
  ultimately show ?thesis using built hc sv ds_blocks_nonempty [OF Z w(1) fin] by blast
qed

lemma SearchDocIDs_searchable:
  assumes "blob_store B objects" and "roaring_ok R" and "vellum_ok V" and "zstd_ok Z"
    and "searchable R Z V FJ U tok sc docs (objects s) key hc" and "node_ok q"
  shows "\<exists>bm. SearchDocIDs V R B s tok key hc q del = Ok bm \<and>
    bm_docs R bm = answer FJ U tok sc docs q (del_docs R del)"
proof -
  obtain flds blks where "seg_NewReader B s key = Ok (built_reader key R flds blks (word_of_nat (length docs)))"
    "serves_segment V R B s (built_reader key R flds blks (word_of_nat (length docs))) hc flds"
    "\<forall>q del. query_docs hc flds tok q - del = answer FJ U tok sc docs q del"
    using searchable_serves [OF assms(1-5)] by blast
  then show ?thesis using SearchDocIDs_served [OF _ _ assms(6)] by metis
qed

lemma SegmentSearch_searchable:
  assumes "blob_store B objects" and "roaring_ok R" and "vellum_ok V" and "zstd_ok Z" and "slice_sort srt"
    and "searchable R Z V FJ U tok sc docs (objects s) key hc" and "node_ok q" and "0 \<le> k"
  shows "\<exists>pr scr. SegmentSearch V R Z srt B s tok key hc q k del = Ok pr \<and>
    pr_TotalHits pr = word_of_nat (card (answer FJ U tok sc docs q (del_docs R del))) \<and>
    best_hits k (answer FJ U tok sc docs q (del_docs R del)) scr (\<lambda>d. docs ! unat d) (pr_Hits pr)"
proof -
  have n: "Suc (length docs) < 2 ^ 29" using assms(6) by (simp add: searchable_def)
  obtain flds blks idx where sv: "stored_segment (objects s) key R flds blks (word_of_nat (length docs))"
    "seg_NewReader B s key = Ok (built_reader key R flds blks (word_of_nat (length docs)))"
    "serves_segment V R B s (built_reader key R flds blks (word_of_nat (length docs))) hc flds"
    "hc_DocstoreIdx hc = EncodeIndex idx" "hc_NumDocstoreBlocks hc = word_of_nat (length blks)"
    "hc_DocCount hc = word_of_nat (length docs)" "length idx = length docs" "length blks \<le> length docs"
    "\<forall>i < length docs. ds_Get Z blks (idx ! i) = Ok (docs ! i)"
    "\<forall>q del. query_docs hc flds tok q - del = answer FJ U tok sc docs q del" "[] \<notin> set blks"
    using searchable_serves [OF assms(1-4,6)] by blast
  show ?thesis
    using SegmentSearch_built [OF assms(1,5,4) sv(1-8) n sv(9) assms(7,8) sv(11), of tok del] sv(10) by auto
qed

section \<open>Properties\<close>

text \<open>C11: Searching a stored segment that was built from documents: every query tree of known node
  types is answered, without error, with exactly the documents that match the query and are not in
  the delete bitmap. What a document matches is determined by its tokens alone: a match needs every
  token of the query text, a phrase needs its terms at consecutive positions, a prefix needs some
  term with that prefix, and boolean nodes combine their children.\<close>

theorem search_returns_matching_documents:
  assumes "blob_store B objects" and "roaring_ok R" and "vellum_ok V" and "zstd_ok Z"
    and "searchable R Z V FJ U tok sc docs (objects s) key hc" and "node_ok q"
  shows "\<exists>bm. SearchDocIDs V R B s tok key hc q del = Ok bm \<and>
    bm_docs R bm = answer FJ U tok sc docs q (del_docs R del)"
  using assms by (rule SearchDocIDs_searchable)


section \<open>An example\<close>

text \<open>A parser for which every document is an object whose members are the string \<open>cat\<close>.\<close>

definition cat_json :: "unit fastjson" where
  "cat_json = \<lparr>fj_ParseBytes = (\<lambda>_. Ok ()), fj_Get = (\<lambda>v k. Some ()), fj_GetStringBytes = (\<lambda>_. Some (bytes_of ''cat''))\<rparr>"

lemma tokenize_cat:
  "Tokenize ascii ''cat'' = [\<lparr>tk_Term = ''cat'', tk_Position = 0, tk_StartOff = 0, tk_EndOff = 3\<rparr>]"
  by code_simp

lemma example_memtable:
  "\<exists>m. NewMemtable id_zstd example_schema = Ok m \<and>
    mt_AddAll list_roaring id_zstd cat_json ascii (Tokenize ascii) m [[0x31]] =
      (Ok (), \<lparr>mt_schema = example_schema, mt_fields = [(''body'', example_acc)],
        mt_ds = ds_AddAll id_zstd example_ds 0 [[0x31]], mt_docCount = 1, mt_rawBytes = 1\<rparr>)"
proof -
  let ?m = "\<lparr>mt_schema = example_schema, mt_fields = [(''body'', NewFieldAccumulator ''body'')], mt_ds = example_ds,
        mt_docCount = 0, mt_rawBytes = 0\<rparr>"
  have "NewMemtable id_zstd example_schema = Ok ?m"
    by (simp add: NewMemtable_def ds_NewWriter_def id_zstd_def example_ds_def example_schema_def new_fields_def indexed_field_def)
  moreover have "mt_add_field list_roaring cat_json ascii (Tokenize ascii) 0 () [(''body'', NewFieldAccumulator ''body'')]
      \<lparr>fd_Name = ''body'', fd_Type = FieldTypeText, fd_Store = True\<rparr> = [(''body'', example_acc)]"
    using tokenize_cat by (simp add: mt_add_field_def cat_json_def add_tokens_def Let_def example_acc_def)
  then have "mt_AddAll list_roaring id_zstd cat_json ascii (Tokenize ascii) ?m [[0x31]] =
      (Ok (), \<lparr>mt_schema = example_schema, mt_fields = [(''body'', example_acc)],
        mt_ds = ds_AddAll id_zstd example_ds 0 [[0x31]], mt_docCount = 1, mt_rawBytes = 1\<rparr>)"
    by (simp add: mt_Add_def Let_def) (simp add: cat_json_def example_schema_def)
  ultimately show ?thesis by blast
qed

lemma example_searchable:
  "\<exists>s hc. searchable list_roaring id_zstd list_vellum cat_json ascii (Tokenize ascii) example_schema [[0x31]] (mem_content s) ''k'' hc"
proof -
  obtain res where res: "seg_Build list_roaring id_zstd list_vellum [example_acc] (ds_AddAll id_zstd example_ds 0 [[0x31]]) 1 = Ok res"
    "length (SegBytes res) < 2 ^ 63" "length (HotcacheBytes res) < 2 ^ 32"
    using example_build by blast
  obtain blks idx where fin: "ds_Finalize id_zstd (ds_AddAll id_zstd example_ds 0 [[0x31]]) = (blks, idx)" by fastforce
  obtain hc where hc: "DecodeHotcache list_vellum (HotcacheBytes res) [] = Ok hc"
    using built_hotcache [OF list_roaring_ok list_vellum_ok fin _ _ res(1,3), of "[]"] example_acc_wf by auto
  let ?s = "\<lparr>ms_objects = [(''k'', SegBytes res)], ms_RangeLog = []\<rparr>"
  obtain m where m: "NewMemtable id_zstd example_schema = Ok m" "mt_AddAll list_roaring id_zstd cat_json ascii (Tokenize ascii) m [[0x31]] =
      (Ok (), \<lparr>mt_schema = example_schema, mt_fields = [(''body'', example_acc)],
        mt_ds = ds_AddAll id_zstd example_ds 0 [[0x31]], mt_docCount = 1, mt_rawBytes = 1\<rparr>)"
    using example_memtable by blast
  have build: "mt_Build list_roaring id_zstd list_vellum \<lparr>mt_schema = example_schema, mt_fields = [(''body'', example_acc)],
        mt_ds = ds_AddAll id_zstd example_ds 0 [[0x31]], mt_docCount = 1, mt_rawBytes = 1\<rparr> = Ok res"
    using res(1) by (simp add: mt_Build_def mt_fieldSlice_def example_schema_def List.map_filter_def del: ds_AddAll.simps)
  have toks: "length (doc_tokens cat_json ascii (Tokenize ascii) f [0x31]) \<le> max_u32_slice" for f
    using tokenize_cat by (simp add: doc_tokens_def cat_json_def field_tokens_def max_u32_slice_def)
  have "searchable list_roaring id_zstd list_vellum cat_json ascii (Tokenize ascii) example_schema [[0x31]] (mem_content ?s) ''k'' hc"
    unfolding searchable_def
  proof (intro conjI)
    show "\<forall>d \<in> set [[0x31]]. parses cat_json d \<and> length d \<le> ds_max_doc \<and>
        (\<forall>f \<in> set (sc_Fields example_schema). length (doc_tokens cat_json ascii (Tokenize ascii) f d) \<le> max_u32_slice)"
      using toks by (simp add: parses_def cat_json_def ds_max_doc_def blockSize_def)
    show "\<exists>m m' res spare. NewMemtable id_zstd example_schema = Ok m \<and>
        mt_AddAll list_roaring id_zstd cat_json ascii (Tokenize ascii) m [[0x31]] = (Ok (), m') \<and>
        mt_Build list_roaring id_zstd list_vellum m' = Ok res \<and> mem_content ?s ''k'' = Some (SegBytes res) \<and>
        length (SegBytes res) < 2 ^ 63 \<and> length (HotcacheBytes res) < 2 ^ 32 \<and>
        DecodeHotcache list_vellum (HotcacheBytes res) spare = Ok hc"
      using m build res hc by (intro exI conjI) (auto simp: mem_content_def)
  qed (simp_all add: example_schema_ok)
  then show ?thesis by blast
qed

lemma example_answer:
  "answer cat_json ascii (Tokenize ascii) example_schema [[0x31]] (value_node NodeTerm ''body'' ''cat'') {} = {0}"
proof -
  have "doc_occ cat_json ascii (Tokenize ascii) example_schema [0x31] ''body'' ''cat'' = [0]"
    using tokenize_cat
    by (simp add: doc_occ_def example_schema_def indexed_field_def doc_tokens_def cat_json_def field_tokens_def term_positions_def)
  then show ?thesis by (auto simp: answer_def value_node_def term_in_def unat_eq_0)
qed

lemma example_query_ok: "node_ok (value_node NodeTerm ''body'' ''cat'')"
  by (simp add: value_node_def known_type_def)

theorem search_returns_matching_documents_witness:
  "\<exists>s hc bm. SearchDocIDs list_vellum list_roaring mem_BlobStore s (Tokenize ascii) ''k'' hc
      (value_node NodeTerm ''body'' ''cat'') None = Ok bm \<and> bm_docs list_roaring bm = {0}"
proof -
  obtain s hc where "searchable list_roaring id_zstd list_vellum cat_json ascii (Tokenize ascii) example_schema [[0x31]] (mem_content s) ''k'' hc"
    using example_searchable by blast
  from search_returns_matching_documents [OF mem.blob_store_axioms list_roaring_ok list_vellum_ok id_zstd_ok this example_query_ok, of None]
  show ?thesis using example_answer by (auto simp: del_docs_def)
qed


end
