(* ===== verification/Index_View.thy ===== *)
theory Index_View
  imports Query_Search Publish
begin

text \<open>
  The abstract view of a stored index that the operations on whole indexes are specified with:
  for every segment the manifest lists, the documents it was built from and the set of those that
  are deleted. Also the object keys of an index (\<open>delKey\<close> of \<open>src/pkg/index/delete.go\<close>) and why
  they do not clash: a manifest, a segment, a hotcache and a delete bitmap are always different
  objects.
\<close>

section \<open>Keys\<close>

text \<open>The verb \<open>%d\<close> for an \<open>int\<close>.\<close>

definition int_string :: "int \<Rightarrow> string" where
  "int_string i = (if i < 0 then CHR ''-'' # dec_string (nat (- i)) else dec_string (nat i))"

definition delKey :: "string \<Rightarrow> string \<Rightarrow> int \<Rightarrow> string" where
  "delKey indexName segID version = indexName @ ''/segments/'' @ segID @ ''.del.'' @ int_string version"

text \<open>Segment identifiers are decimal numbers (\<open>newSegmentID\<close>); the code relies on two characters
  that do not occur in them.\<close>

definition seg_id_ok :: "string \<Rightarrow> bool" where
  "seg_id_ok i \<longleftrightarrow> CHR ''.'' \<notin> set i \<and> CHR ''/'' \<notin> set i \<and> i \<noteq> []"

definition digits :: "char set" where "digits = digit_char ` {..<10}"

lemma dec_string_digits: "set (dec_string n) \<subseteq> digits \<and> dec_string n \<noteq> []"
proof (induction n rule: dec_string.induct)
  case (1 n)
  then show ?case by (subst (1 2) dec_string.simps) (auto simp: digits_def)
qed

lemma digit_code: "c \<in> digits \<Longrightarrow> 48 \<le> (of_char c :: nat) \<and> (of_char c :: nat) < 58"
  by (auto simp: digits_def digit_char_def)

lemma digits_not: "CHR ''.'' \<notin> digits" "CHR ''/'' \<notin> digits" "CHR ''g'' \<notin> digits" "CHR ''e'' \<notin> digits" "CHR ''-'' \<notin> digits"
  using digit_code by fastforce+

lemma dec_string_id_ok: "seg_id_ok (dec_string n)"
  using dec_string_digits [of n] digits_not by (auto simp: seg_id_ok_def)

lemma dec_value: "foldl (\<lambda>v c. 10 * v + (of_char c - 48)) 0 (dec_string n) = n"
proof (induction n rule: dec_string.induct)
  case (1 n)
  then show ?case by (subst dec_string.simps) (simp add: digit_char_def)
qed

lemma dec_string_inj: "dec_string m = dec_string n \<Longrightarrow> m = n"
  using dec_value by metis

lemma int_string_inj:
  assumes "int_string i = int_string j"
  shows "i = j"
proof -
  have neq: "dec_string n \<noteq> CHR ''-'' # x" for x n
    using dec_string_digits [of n] digits_not(5) by auto
  show ?thesis
  proof (cases "i < 0"; cases "j < 0")
    assume "i < 0" "j < 0"
    then have "nat (- i) = nat (- j)" using assms by (intro dec_string_inj) (simp add: int_string_def)
    then show ?thesis using \<open>i < 0\<close> \<open>j < 0\<close> by simp
  next
    assume "\<not> i < 0" "\<not> j < 0"
    then have "nat i = nat j" using assms by (intro dec_string_inj) (simp add: int_string_def)
    then show ?thesis using \<open>\<not> i < 0\<close> \<open>\<not> j < 0\<close> by simp
  qed (use assms neq neq [symmetric] in \<open>simp_all add: int_string_def\<close>)
qed

lemma int_string_end: "int_string i \<noteq> [] \<and> last (int_string i) \<in> digits"
proof -
  have "last (dec_string n) \<in> digits" "dec_string n \<noteq> []" for n
    using dec_string_digits [of n] last_in_set [of "dec_string n"] by blast+
  then show ?thesis by (simp add: int_string_def)
qed

lemma dot_split:
  assumes "CHR ''.'' \<notin> set a" and "CHR ''.'' \<notin> set b" and "a @ CHR ''.'' # x = b @ CHR ''.'' # y"
  shows "a = b \<and> x = y"
  using assms
proof (induction a arbitrary: b)
  case Nil
  then show ?case by (cases b) auto
next
  case (Cons c a)
  then show ?case by (cases b) auto
qed

lemma delKey_inj:
  "seg_id_ok i \<Longrightarrow> seg_id_ok j \<Longrightarrow> delKey name i v = delKey name j w \<longleftrightarrow> i = j \<and> v = w"
  using dot_split [of i j "''del.'' @ int_string v" "''del.'' @ int_string w"] int_string_inj
  by (auto simp: delKey_def seg_id_ok_def)

lemma SegmentKey_inj:
  assumes "seg_id_ok i" and "seg_id_ok j"
  shows "SegmentKey name i ''.seg'' = SegmentKey name j ''.seg'' \<longleftrightarrow> i = j"
    and "SegmentKey name i ''.hotcache'' = SegmentKey name j ''.hotcache'' \<longleftrightarrow> i = j"
    and "SegmentKey name i ''.seg'' \<noteq> SegmentKey name j ''.hotcache''"
  using dot_split [of i j "''seg''" "''hotcache''"] assms by (auto simp: SegmentKey_def seg_id_ok_def)

lemma delKey_not_segment:
  "delKey name i v \<noteq> SegmentKey name j ''.seg''" "delKey name i v \<noteq> SegmentKey name j ''.hotcache''"
proof -
  have "last (delKey name i v) \<in> digits"
    using int_string_end [of v] by (simp add: delKey_def)
  moreover have "last (SegmentKey name j ''.seg'') = CHR ''g''" "last (SegmentKey name j ''.hotcache'') = CHR ''e''"
    by (simp_all add: SegmentKey_def)
  ultimately show "delKey name i v \<noteq> SegmentKey name j ''.seg''" "delKey name i v \<noteq> SegmentKey name j ''.hotcache''"
    using digits_not by metis+
qed

lemma not_manifest_key:
  "\<not> HasPrefix (SegmentKey name i ext) (manifest_prefix name)" "\<not> HasPrefix (delKey name i v) (manifest_prefix name)"
  by (auto simp: HasPrefix_iff SegmentKey_def delKey_def manifest_prefix_def)

lemma manifest_log_frame:
  assumes eq: "\<And>k. HasPrefix k (manifest_prefix name) \<Longrightarrow> objs' k = objs k" and log: "manifest_log J name objs ms"
  shows "manifest_log J name objs' ms"
proof -
  have "{k \<in> dom objs'. HasPrefix k (manifest_prefix name)} = {k \<in> dom objs. HasPrefix k (manifest_prefix name)}"
    using eq by (auto simp: dom_def)
  moreover have "objs' (version_key name i) = objs (version_key name i)" for i by (simp add: eq)
  ultimately show ?thesis using log unfolding manifest_log_def by simp
qed

section \<open>Stored segments\<close>

text \<open>The two objects of a segment hold what a memtable built from \<open>docs\<close>.\<close>

definition docs_ok ::
  "'v fastjson \<Rightarrow> unicode \<Rightarrow> (string \<Rightarrow> Token list) \<Rightarrow> Schema \<Rightarrow> bytes list \<Rightarrow> bool" where
  "docs_ok FJ U tok sc docs \<longleftrightarrow> Suc (length docs) < 2 ^ 29 \<and>
     (\<forall>d \<in> set docs. parses FJ d \<and> length d \<le> ds_max_doc \<and>
       (\<forall>f \<in> set (sc_Fields sc). length (doc_tokens FJ U tok f d) \<le> max_u32_slice))"

definition built_from ::
  "'b roaring \<Rightarrow> zstd \<Rightarrow> ('w, 'f) vellum \<Rightarrow> 'v fastjson \<Rightarrow> unicode \<Rightarrow> (string \<Rightarrow> Token list) \<Rightarrow> Schema \<Rightarrow> bytes list
     \<Rightarrow> Result \<Rightarrow> bool" where
  "built_from R Z V FJ U tok sc docs res \<longleftrightarrow>
     (\<exists>m m'. NewMemtable Z sc = Ok m \<and> mt_AddAll R Z FJ U tok m docs = (Ok (), m') \<and> mt_Build R Z V m' = Ok res) \<and>
     length (SegBytes res) < 2 ^ 63 \<and> length (HotcacheBytes res) < 2 ^ 32"

definition stored_docs ::
  "'b roaring \<Rightarrow> zstd \<Rightarrow> ('w, 'f) vellum \<Rightarrow> 'v fastjson \<Rightarrow> unicode \<Rightarrow> (string \<Rightarrow> Token list) \<Rightarrow> Schema \<Rightarrow> bytes list
     \<Rightarrow> (string \<rightharpoonup> bytes) \<Rightarrow> string \<Rightarrow> string \<Rightarrow> bool" where
  "stored_docs R Z V FJ U tok sc docs objs name i \<longleftrightarrow> schema_ok sc \<and> docs_ok FJ U tok sc docs \<and>
     (\<exists>res. built_from R Z V FJ U tok sc docs res \<and>
       objs (SegmentKey name i ''.seg'') = Some (SegBytes res) \<and>
       objs (SegmentKey name i ''.hotcache'') = Some (HotcacheBytes res))"

lemma stored_docs_cong:
  "objs (SegmentKey name i ''.seg'') = objs' (SegmentKey name i ''.seg'') \<Longrightarrow>
   objs (SegmentKey name i ''.hotcache'') = objs' (SegmentKey name i ''.hotcache'') \<Longrightarrow>
   stored_docs R Z V FJ U tok sc docs objs name i = stored_docs R Z V FJ U tok sc docs objs' name i"
  by (simp add: stored_docs_def)

lemma stored_docs_searchable:
  assumes R: "roaring_ok R" and V: "vellum_ok V"
    and st: "stored_docs R Z V FJ U tok sc docs objs name i"
  shows "\<exists>hb hc. objs (SegmentKey name i ''.hotcache'') = Some hb \<and> DecodeHotcache V hb spare = Ok hc \<and>
    searchable R Z V FJ U tok sc docs objs (SegmentKey name i ''.seg'') hc"
proof -
  obtain res m m' where new: "NewMemtable Z sc = Ok m" and add: "mt_AddAll R Z FJ U tok m docs = (Ok (), m')"
    and build: "mt_Build R Z V m' = Ok res" and len: "length (SegBytes res) < 2 ^ 63" "length (HotcacheBytes res) < 2 ^ 32"
    and obj: "objs (SegmentKey name i ''.seg'') = Some (SegBytes res)" "objs (SegmentKey name i ''.hotcache'') = Some (HotcacheBytes res)"
    and sc: "schema_ok sc" and docs: "docs_ok FJ U tok sc docs"
    using st unfolding stored_docs_def built_from_def by blast
  obtain w where w: "mt_holds R Z FJ U tok w [] m" "mt_schema m = sc" using NewMemtable_holds [OF new] by blast
  have m': "mt_holds R Z FJ U tok w docs m'" "mt_schema m' = sc"
    using mt_AddAll_holds [OF R w(1), of docs] sc docs add w(2) by (auto simp: docs_ok_def)
  have sc': "schema_ok (mt_schema m')" using sc m'(2) by simp
  obtain blks idx where fin: "ds_Finalize Z (ds_AddAll Z w 0 docs) = (blks, idx)" by fastforce
  have "seg_Build R Z V (mt_fieldSlice m') (ds_AddAll Z w 0 docs) (word_of_nat (length docs)) = Ok res"
    using build m'(1) by (simp add: mt_Build_def mt_holds_def)
  moreover have "\<forall>fa \<in> set (mt_fieldSlice m'). fa_wf R fa"
    using mt_fieldSlice_ok(2) [OF m'(1) sc'] by (auto simp: field_holds_def)
  ultimately obtain hc where "DecodeHotcache V (HotcacheBytes res) spare = Ok hc"
    using built_hotcache [OF R V fin _ mt_fieldSlice_ok(1) [OF m'(1) sc'] _ len(2)] by blast
  then show ?thesis using new add build len obj sc docs unfolding searchable_def docs_ok_def by blast
qed

section \<open>The view of an index\<close>

text \<open>The delete bitmap a segment's metadata points to.\<close>

definition deleted_in :: "'b roaring \<Rightarrow> string \<Rightarrow> (string \<rightharpoonup> bytes) \<Rightarrow> SegmentMeta \<Rightarrow> u32 set \<Rightarrow> bool" where
  "deleted_in R name objs meta D \<longleftrightarrow>
     (if sm_DelVersion meta = 0 then D = {}
      else 0 < sm_DelVersion meta \<and> (\<exists>data bm. objs (delKey name (sm_ID meta) (sm_DelVersion meta)) = Some data \<and>
        bm_UnmarshalBinary R data = Ok bm \<and> bm_docs R bm = D))"

definition holds_segment ::
  "'b roaring \<Rightarrow> zstd \<Rightarrow> ('w, 'f) vellum \<Rightarrow> 'v fastjson \<Rightarrow> unicode \<Rightarrow> (string \<Rightarrow> Token list) \<Rightarrow> Schema
     \<Rightarrow> string \<Rightarrow> (string \<rightharpoonup> bytes) \<Rightarrow> SegmentMeta \<Rightarrow> bytes list \<times> u32 set \<Rightarrow> bool" where
  "holds_segment R Z V FJ U tok sc name objs meta v \<longleftrightarrow> seg_id_ok (sm_ID meta) \<and>
     stored_docs R Z V FJ U tok sc (fst v) objs name (sm_ID meta) \<and> deleted_in R name objs meta (snd v)"

definition index_view ::
  "'b roaring \<Rightarrow> zstd \<Rightarrow> ('w, 'f) vellum \<Rightarrow> 'v fastjson \<Rightarrow> unicode \<Rightarrow> (string \<Rightarrow> Token list) \<Rightarrow> Schema
     \<Rightarrow> string \<Rightarrow> (string \<rightharpoonup> bytes) \<Rightarrow> SegmentMeta list \<Rightarrow> (bytes list \<times> u32 set) list \<Rightarrow> bool" where
  "index_view R Z V FJ U tok sc name objs metas vs \<longleftrightarrow>
     list_all2 (holds_segment R Z V FJ U tok sc name objs) metas vs"

lemma holds_segment_cong:
  assumes "objs (SegmentKey name (sm_ID meta) ''.seg'') = objs' (SegmentKey name (sm_ID meta) ''.seg'')"
    and "objs (SegmentKey name (sm_ID meta) ''.hotcache'') = objs' (SegmentKey name (sm_ID meta) ''.hotcache'')"
    and "objs (delKey name (sm_ID meta) (sm_DelVersion meta)) = objs' (delKey name (sm_ID meta) (sm_DelVersion meta))"
  shows "holds_segment R Z V FJ U tok sc name objs meta v = holds_segment R Z V FJ U tok sc name objs' meta v"
  unfolding holds_segment_def deleted_in_def assms(3) stored_docs_cong [OF assms(1,2)] ..

text \<open>The documents of a view that are not deleted, and the view after deleting what a query finds.\<close>

definition view_live :: "bytes list \<times> u32 set \<Rightarrow> bytes list" where
  "view_live v = map ((!) (fst v)) (filter (\<lambda>i. word_of_nat i \<notin> snd v) [0..<length (fst v)])"

definition view_answer ::
  "'v fastjson \<Rightarrow> unicode \<Rightarrow> (string \<Rightarrow> Token list) \<Rightarrow> Schema \<Rightarrow> Node \<Rightarrow> bytes list \<times> u32 set \<Rightarrow> u32 set" where
  "view_answer FJ U tok sc q v = answer FJ U tok sc (fst v) q (snd v)"

section \<open>An example\<close>

text \<open>An encoding of finitely many manifests, to run the model on.\<close>

definition table_json :: "Manifest list \<Rightarrow> manifest_json" where
  "table_json ms = \<lparr>
     mj_Marshal = (\<lambda>m. if m \<in> set ms then Ok [word_of_nat (length (takeWhile (\<lambda>x. x \<noteq> m) ms))] else Err (ErrMsg ''json'')),
     mj_Unmarshal = (\<lambda>d. case d of [b] \<Rightarrow> if unat b < length ms then Ok (ms ! unat b) else Err (ErrMsg ''json'')
       | _ \<Rightarrow> Err (ErrMsg ''json''))\<rparr>"

lemma table_json_roundtrip:
  assumes "length ms \<le> 256" and "m \<in> set ms"
  shows "mj_roundtrip (table_json ms) m"
proof -
  let ?i = "length (takeWhile (\<lambda>x. x \<noteq> m) ms)"
  have i: "?i < length ms" using assms(2) by (induction ms) auto
  then have "ms ! ?i = m" using nth_length_takeWhile by blast
  moreover have "unat (word_of_nat ?i :: u8) = ?i" using i assms(1) by (simp add: unat_of_nat)
  ultimately show ?thesis using i assms(2) by (simp add: mj_roundtrip_def table_json_def)
qed

lemma example_built:
  "\<exists>res. built_from list_roaring id_zstd list_vellum cat_json ascii (Tokenize ascii) example_schema [[0x31]] res"
proof -
  obtain res where res: "seg_Build list_roaring id_zstd list_vellum [example_acc] (ds_AddAll id_zstd example_ds 0 [[0x31]]) 1 = Ok res"
    "length (SegBytes res) < 2 ^ 63" "length (HotcacheBytes res) < 2 ^ 32"
    using example_build by blast
  have "mt_Build list_roaring id_zstd list_vellum \<lparr>mt_schema = example_schema, mt_fields = [(''body'', example_acc)],
        mt_ds = ds_AddAll id_zstd example_ds 0 [[0x31]], mt_docCount = 1, mt_rawBytes = 1\<rparr> = Ok res"
    using res(1) by (simp add: mt_Build_def mt_fieldSlice_def example_schema_def List.map_filter_def del: ds_AddAll.simps)
  then show ?thesis using res example_memtable unfolding built_from_def by blast
qed

lemma example_docs_ok: "docs_ok cat_json ascii (Tokenize ascii) example_schema [[0x31]]"
proof -
  have "length (doc_tokens cat_json ascii (Tokenize ascii) f [0x31]) \<le> max_u32_slice" for f
    using tokenize_cat by (simp add: doc_tokens_def cat_json_def field_tokens_def max_u32_slice_def)
  then show ?thesis by (simp add: docs_ok_def parses_def cat_json_def ds_max_doc_def blockSize_def)
qed

text \<open>A store with segments of the given identifiers, all with the same document.\<close>

definition ids_manifest :: "string list \<Rightarrow> Manifest" where
  "ids_manifest ids = next_manifest ''idx'' 7 0 (map (\<lambda>i. example_meta\<lparr>sm_ID := i\<rparr>) ids)"

definition ids_objects :: "Result \<Rightarrow> string list \<Rightarrow> (string \<times> bytes) list" where
  "ids_objects res ids = (version_key ''idx'' 0, [0]) # concat (map (\<lambda>i.
     [(SegmentKey ''idx'' i ''.seg'', SegBytes res), (SegmentKey ''idx'' i ''.hotcache'', HotcacheBytes res)]) ids)"

lemma ids_manifest_segments: "mf_Segments (ids_manifest ids) = map (\<lambda>i. example_meta\<lparr>sm_ID := i\<rparr>) ids"
  by (simp add: ids_manifest_def next_manifest_def)

lemma ids_manifest_active: "ActiveSegments (ids_manifest ids) = map (\<lambda>i. example_meta\<lparr>sm_ID := i\<rparr>) ids"
  by (simp add: ActiveSegments_def ids_manifest_segments filter_map comp_def) (simp add: example_meta_def)

lemma ids_objects_lookup:
  assumes "\<forall>i \<in> set ids. seg_id_ok i" and "i \<in> set ids"
  shows "map_of (ids_objects res ids) (SegmentKey ''idx'' i ''.seg'') = Some (SegBytes res)"
    and "map_of (ids_objects res ids) (SegmentKey ''idx'' i ''.hotcache'') = Some (HotcacheBytes res)"
proof -
  have neq: "SegmentKey ''idx'' i x \<noteq> version_key ''idx'' 0" for i x
    using not_manifest_key(1) [of "''idx''" i x] version_key_prefix by metis
  have key: "SegmentKey ''idx'' i ''.seg'' \<noteq> SegmentKey ''idx'' j ''.hotcache''"
    "SegmentKey ''idx'' i ''.hotcache'' \<noteq> SegmentKey ''idx'' j ''.seg''" if "i \<in> set ids" "j \<in> set ids" for i j
    using SegmentKey_inj(3) assms(1) that by (metis (no_types))+
  have "map_of (concat (map (\<lambda>i. [(SegmentKey ''idx'' i ''.seg'', SegBytes res), (SegmentKey ''idx'' i ''.hotcache'', HotcacheBytes res)]) js))
      (SegmentKey ''idx'' i ''.seg'') = Some (SegBytes res) \<and>
    map_of (concat (map (\<lambda>i. [(SegmentKey ''idx'' i ''.seg'', SegBytes res), (SegmentKey ''idx'' i ''.hotcache'', HotcacheBytes res)]) js))
      (SegmentKey ''idx'' i ''.hotcache'') = Some (HotcacheBytes res)" if "set js \<subseteq> set ids" "i \<in> set js" for js
    using that key assms(2) by (induction js) (auto split: if_splits)
  from this [of ids] show "map_of (ids_objects res ids) (SegmentKey ''idx'' i ''.seg'') = Some (SegBytes res)"
    "map_of (ids_objects res ids) (SegmentKey ''idx'' i ''.hotcache'') = Some (HotcacheBytes res)"
    using assms(2) neq by (simp_all add: ids_objects_def)
qed

lemma ids_index:
  assumes ids: "\<forall>i \<in> set ids. seg_id_ok i"
  shows "\<exists>s. manifest_log (table_json (ids_manifest ids # mfs)) ''idx'' (mem_content s) [ids_manifest ids] \<and>
    index_view list_roaring id_zstd list_vellum cat_json ascii (Tokenize ascii) example_schema ''idx''
      (mem_content s) (ActiveSegments (ids_manifest ids)) (map (\<lambda>_. ([[0x31]], {})) ids)"
proof -
  obtain res where res: "built_from list_roaring id_zstd list_vellum cat_json ascii (Tokenize ascii) example_schema [[0x31]] res"
    using example_built by blast
  let ?s = "\<lparr>ms_objects = ids_objects res ids, ms_RangeLog = []\<rparr>" and ?mk = "version_key ''idx'' 0"
  have content: "mem_content ?s = map_of (ids_objects res ids)" by (simp add: mem_content_def)
  have "manifest_log (table_json (ids_manifest ids # mfs)) ''idx'' (mem_content ?s) [ids_manifest ids]"
  proof -
    have "{k \<in> dom (mem_content ?s). HasPrefix k (manifest_prefix ''idx'')} = {?mk}"
      unfolding content dom_map_of_conv_image_fst using not_manifest_key(1) by (auto simp: ids_objects_def)
    moreover have "mem_content ?s ?mk = Some [0]" unfolding content by (simp add: ids_objects_def)
    moreover have "unat (mf_Version (ids_manifest ids)) = 1" by (simp add: ids_manifest_def next_manifest_def)
    ultimately show ?thesis by (simp add: manifest_log_def table_json_def lessThan_Suc)
  qed
  moreover have "holds_segment list_roaring id_zstd list_vellum cat_json ascii (Tokenize ascii) example_schema ''idx'' (mem_content ?s)
      (example_meta\<lparr>sm_ID := i\<rparr>) ([[0x31]], {})" if "i \<in> set ids" for i
  proof -
    have "stored_docs list_roaring id_zstd list_vellum cat_json ascii (Tokenize ascii) example_schema [[0x31]] (mem_content ?s) ''idx'' i"
      using res ids_objects_lookup [OF ids that] example_docs_ok example_schema_ok unfolding stored_docs_def content by blast
    then show ?thesis using ids that by (simp add: holds_segment_def deleted_in_def) (simp add: example_meta_def)
  qed
  ultimately show ?thesis
    by (intro exI [of _ ?s]) (simp add: index_view_def ids_manifest_active list_all2_conv_all_nth)
qed

lemma example_index:
  "\<exists>s. manifest_log (table_json (example_manifest # mfs)) ''idx'' (mem_content s) [example_manifest] \<and>
    index_view list_roaring id_zstd list_vellum cat_json ascii (Tokenize ascii) example_schema ''idx''
      (mem_content s) (ActiveSegments example_manifest) [([[0x31]], {})]"
proof -
  have "ids_manifest [''s1''] = example_manifest" by (simp add: ids_manifest_def example_manifest_def example_meta_def)
  then show ?thesis using ids_index [of "[''s1'']" mfs] by (simp add: seg_id_ok_def)
qed

end
