(* ===== verification/Delete.thy ===== *)
theory Delete
  imports Index_View
begin

text \<open>
  Delete by query (\<open>src/pkg/index/delete.go\<close>). A delete finds the matching live documents of
  every active segment, writes for each affected segment a new delete bitmap under the next delete
  version, and then publishes a manifest that points to the new versions. On an error the code
  also returns the count so far, which its caller ignores; the model returns the error only.
  \<open>spare\<close> is the capacity beyond the length of the bytes a \<open>Get\<close> returns (see \<open>slice_cap\<close>).

  Result: the view of the index changes by exactly the documents the query finds, whatever the
  segments and delete versions before, and the same query finds nothing afterwards.
\<close>

section \<open>Operations\<close>

text \<open>Addition on the 64-bit type \<open>int\<close>.\<close>

definition int_add :: "int \<Rightarrow> int \<Rightarrow> int" where
  "int_add a b = signed_take_bit 63 (a + b)"

definition WriteDelBitmap ::
  "'b roaring \<Rightarrow> 's BlobStore \<Rightarrow> 's \<Rightarrow> string \<Rightarrow> string \<Rightarrow> int \<Rightarrow> 'b \<Rightarrow> unit result \<times> 's" where
  "WriteDelBitmap R B s indexName segID version bm =
     st_bind (res_wrap ''marshal del bitmap'' (bm_MarshalBinary R bm), s) (\<lambda>data s.
     bs_Put B s (delKey indexName segID version) data
       \<lparr>IfNoneMatch = '''', ContentType = ''application/octet-stream''\<rparr>)"

definition ReadDelBitmap ::
  "'b roaring \<Rightarrow> 's BlobStore \<Rightarrow> 's \<Rightarrow> string \<Rightarrow> string \<Rightarrow> int \<Rightarrow> 'b option result" where
  "ReadDelBitmap R B s indexName segID version =
     (if version = 0 then Ok None
      else case bs_Get B s (delKey indexName segID version) of
          Panic \<Rightarrow> Panic
        | Err e \<Rightarrow> if as_not_found e then Ok None else Err e
        | Ok data \<Rightarrow> res_bind (res_wrap ''unmarshal del bitmap'' (bm_UnmarshalBinary R data)) (\<lambda>bm. Ok (Some bm)))"

record 'b segDel =
  sd_segID :: string
  sd_newDelBM :: 'b
  sd_newVersion :: int

text \<open>One turn of the loop over the active segments.\<close>

definition del_step ::
  "('w, 'f) vellum \<Rightarrow> 'b roaring \<Rightarrow> 's BlobStore \<Rightarrow> 's \<Rightarrow> (string \<Rightarrow> bytes) \<Rightarrow> (string \<Rightarrow> Token list) \<Rightarrow> string \<Rightarrow> Node
     \<Rightarrow> 'b segDel list \<times> u64 \<Rightarrow> SegmentMeta \<Rightarrow> ('b segDel list \<times> u64) result" where
  "del_step V R B s spare tok indexName q st meta =
     res_bind (res_wrap ''read del bitmap seg'' (ReadDelBitmap R B s indexName (sm_ID meta) (sm_DelVersion meta))) (\<lambda>existing.
     let hcKey = SegmentKey indexName (sm_ID meta) ''.hotcache'' in
     res_bind (res_wrap ''fetch hotcache'' (bs_Get B s hcKey)) (\<lambda>hcData.
     res_bind (res_wrap ''decode hotcache'' (DecodeHotcache V hcData (spare hcKey))) (\<lambda>hc.
     let segKey = SegmentKey indexName (sm_ID meta) ''.seg'' in
     res_bind (res_wrap ''search docIDs seg'' (SearchDocIDs V R B s tok segKey hc q existing)) (\<lambda>newMatches.
     if bm_Iterator R newMatches = [] then Ok st
     else let merged = (case existing of None \<Rightarrow> bm_New R | Some e \<Rightarrow> bm_Or R (bm_New R) e);
              merged = bm_Or R merged newMatches
          in Ok (fst st @ [\<lparr>sd_segID = sm_ID meta, sd_newDelBM = merged, sd_newVersion = int_add (sm_DelVersion meta) 1\<rparr>],
                 snd st + bm_GetCardinality R newMatches)))))"

fun write_dels :: "'b roaring \<Rightarrow> 's BlobStore \<Rightarrow> string \<Rightarrow> 's \<Rightarrow> 'b segDel list \<Rightarrow> unit result \<times> 's" where
  "write_dels R B indexName s [] = (Ok (), s)"
| "write_dels R B indexName s (u # us) =
     st_bind (st_wrap ''write del bitmap seg''
         (WriteDelBitmap R B s indexName (sd_segID u) (sd_newVersion u) (sd_newDelBM u)))
       (\<lambda>_ s. write_dels R B indexName s us)"

definition buildUpdateMap :: "'b segDel list \<Rightarrow> string \<rightharpoonup> int" where
  "buildUpdateMap updates = foldl (\<lambda>m u. m(sd_segID u \<mapsto> sd_newVersion u)) Map.empty updates"

definition bump_versions :: "(string \<rightharpoonup> int) \<Rightarrow> SegmentMeta list \<Rightarrow> SegmentMeta list" where
  "bump_versions m segs =
     map (\<lambda>seg. case m (sm_ID seg) of Some v \<Rightarrow> seg\<lparr>sm_DelVersion := v\<rparr> | None \<Rightarrow> seg) segs"

definition DeleteByQuery ::
  "('w, 'f) vellum \<Rightarrow> 'b roaring \<Rightarrow> 's BlobStore \<Rightarrow> manifest_json \<Rightarrow> (string \<Rightarrow> bytes) \<Rightarrow> (nat \<Rightarrow> int) \<Rightarrow> (string \<Rightarrow> Token list)
     \<Rightarrow> string \<Rightarrow> Node \<Rightarrow> 's \<Rightarrow> u64 result \<times> 's" where
  "DeleteByQuery V R B J spare now tok indexName q s =
     st_bind (ms_Latest B J indexName s, s) (\<lambda>manifest s.
     case manifest of None \<Rightarrow> (Ok 0, s)
     | Some m \<Rightarrow>
       st_bind (res_foldl (del_step V R B s spare tok indexName q) ([], 0) (ActiveSegments m), s) (\<lambda>(updates, totalDeleted) s.
       if updates = [] then (Ok 0, s)
       else st_bind (write_dels R B indexName s updates) (\<lambda>_ s.
         st_bind (st_wrap ''publish del manifest''
             (ms_PublishTransform B J indexName now s (bump_versions (buildUpdateMap updates)) 5)) (\<lambda>_ s.
         (Ok totalDeleted, s)))))"

text \<open>An error reading the delete bitmap is logged by a search and by a compaction, which go on without it.\<close>

definition seg_del_bitmap :: "'b roaring \<Rightarrow> 's BlobStore \<Rightarrow> 's \<Rightarrow> string \<Rightarrow> SegmentMeta \<Rightarrow> 'b option result" where
  "seg_del_bitmap R B s indexName meta =
     (if 0 < sm_DelVersion meta
      then case ReadDelBitmap R B s indexName (sm_ID meta) (sm_DelVersion meta) of Err e \<Rightarrow> Ok None | r \<Rightarrow> r
      else Ok None)"

section \<open>Reading and writing delete bitmaps\<close>

lemma int_add_small: "0 \<le> a \<Longrightarrow> a < 2 ^ 63 - 1 \<Longrightarrow> int_add a 1 = a + 1"
  by (simp add: int_add_def signed_take_bit_int_eq_self)

context blob_store
begin

lemma Put_overwrites:
  assumes "IfNoneMatch opts \<noteq> ''*''"
  obtains s' where "bs_Put B s k b opts = (Ok (), s')" "objects s' = (objects s)(k \<mapsto> b)"
  using Put_objects [of opts s k b] Put_result [of opts s k b] assms by (cases "bs_Put B s k b opts") simp

lemma ReadDelBitmap_view:
  assumes "deleted_in R name (objects s) meta D"
  shows "\<exists>ex. ReadDelBitmap R B s name (sm_ID meta) (sm_DelVersion meta) = Ok ex \<and> del_docs R ex = D"
  using assms by (auto simp: deleted_in_def ReadDelBitmap_def del_docs_def Get_Some split: if_splits)

lemma WriteDelBitmap_puts:
  assumes R: "roaring_ok R"
  obtains s' d b where "WriteDelBitmap R B s name i v bm = (Ok (), s')"
    "objects s' = (objects s)(delKey name i v \<mapsto> d)" "bm_UnmarshalBinary R d = Ok b" "bm_docs R b = bm_docs R bm"
proof -
  let ?opts = "\<lparr>IfNoneMatch = '''', ContentType = ''application/octet-stream''\<rparr>"
  obtain d b where d: "bm_MarshalBinary R bm = Ok d" "bm_UnmarshalBinary R d = Ok b" "bm_docs R b = bm_docs R bm"
    using roaring_Marshal [OF R, of bm] by blast
  obtain s' where s': "bs_Put B s (delKey name i v) d ?opts = (Ok (), s')" "objects s' = (objects s)(delKey name i v \<mapsto> d)"
    using Put_overwrites [of ?opts s "delKey name i v" d] by auto
  show thesis by (rule that [of s' d b]) (use d s' in \<open>simp_all add: WriteDelBitmap_def\<close>)
qed

lemma write_dels_puts:
  assumes R: "roaring_ok R"
  shows "distinct (map (\<lambda>u. delKey name (sd_segID u) (sd_newVersion u)) us) \<Longrightarrow>
    \<exists>s'. write_dels R B name s us = (Ok (), s') \<and>
      (\<forall>u \<in> set us. \<exists>d b. objects s' (delKey name (sd_segID u) (sd_newVersion u)) = Some d \<and>
        bm_UnmarshalBinary R d = Ok b \<and> bm_docs R b = bm_docs R (sd_newDelBM u)) \<and>
      (\<forall>k. k \<notin> (\<lambda>u. delKey name (sd_segID u) (sd_newVersion u)) ` set us \<longrightarrow> objects s' k = objects s k)"
proof (induction us arbitrary: s)
  case (Cons u us)
  let ?k = "\<lambda>u. delKey name (sd_segID u) (sd_newVersion u)"
  obtain s1 d b where s1: "WriteDelBitmap R B s name (sd_segID u) (sd_newVersion u) (sd_newDelBM u) = (Ok (), s1)"
    "objects s1 = (objects s)(?k u \<mapsto> d)" and d: "bm_UnmarshalBinary R d = Ok b" "bm_docs R b = bm_docs R (sd_newDelBM u)"
    by (rule WriteDelBitmap_puts [OF R, of s name "sd_segID u" "sd_newVersion u" "sd_newDelBM u"])
  obtain s' where s': "write_dels R B name s1 us = (Ok (), s')"
    and puts: "\<forall>u \<in> set us. \<exists>d b. objects s' (?k u) = Some d \<and> bm_UnmarshalBinary R d = Ok b \<and> bm_docs R b = bm_docs R (sd_newDelBM u)"
    and rest: "\<forall>k. k \<notin> ?k ` set us \<longrightarrow> objects s' k = objects s1 k"
    using Cons.IH [of s1] Cons.prems by auto
  have "?k u \<notin> ?k ` set us" using Cons.prems by auto
  then have "objects s' (?k u) = Some d" using rest s1(2) by simp
  moreover have "objects s' k = objects s k" if "k \<notin> ?k ` set (u # us)" for k
    using that rest s1(2) by simp
  ultimately show ?case using s1(1) s' puts d by (intro exI [of _ s']) simp
qed simp

end

section \<open>Finding the documents to delete\<close>

text \<open>What deleting the matches of a query does to the view of a segment.\<close>

definition view_delete ::
  "'v fastjson \<Rightarrow> unicode \<Rightarrow> (string \<Rightarrow> Token list) \<Rightarrow> Schema \<Rightarrow> Node \<Rightarrow> bytes list \<times> u32 set \<Rightarrow> bytes list \<times> u32 set" where
  "view_delete FJ U tok sc q v = (fst v, snd v \<union> view_answer FJ U tok sc q v)"

definition match_total ::
  "'v fastjson \<Rightarrow> unicode \<Rightarrow> (string \<Rightarrow> Token list) \<Rightarrow> Schema \<Rightarrow> Node \<Rightarrow> (bytes list \<times> u32 set) list \<Rightarrow> nat" where
  "match_total FJ U tok sc q vs = sum_list (map (\<lambda>v. card (view_answer FJ U tok sc q v)) vs)"

definition hit_pairs ::
  "'v fastjson \<Rightarrow> unicode \<Rightarrow> (string \<Rightarrow> Token list) \<Rightarrow> Schema \<Rightarrow> Node \<Rightarrow> SegmentMeta list \<Rightarrow> (bytes list \<times> u32 set) list
     \<Rightarrow> (SegmentMeta \<times> bytes list \<times> u32 set) list" where
  "hit_pairs FJ U tok sc q metas vs = filter (\<lambda>(m, v). view_answer FJ U tok sc q v \<noteq> {}) (zip metas vs)"

definition update_for :: "'b roaring \<Rightarrow> 'b segDel \<Rightarrow> SegmentMeta \<Rightarrow> u32 set \<Rightarrow> bool" where
  "update_for R u meta D \<longleftrightarrow> sd_segID u = sm_ID meta \<and> sd_newVersion u = sm_DelVersion meta + 1 \<and>
     bm_docs R (sd_newDelBM u) = D"

lemma deleted_in_version: "deleted_in R name objs meta D \<Longrightarrow> 0 \<le> sm_DelVersion meta"
  by (auto simp: deleted_in_def split: if_splits)

lemma seg_del_bitmap_view:
  assumes store: "blob_store B objects" and del: "deleted_in R name (objects s) meta D"
  shows "\<exists>ex. seg_del_bitmap R B s name meta = Ok ex \<and> del_docs R ex = D"
proof (cases "0 < sm_DelVersion meta")
  case True
  then show ?thesis using blob_store.ReadDelBitmap_view [OF store, OF del] by (auto simp: seg_del_bitmap_def)
next
  case False
  then have "D = {}" using del deleted_in_version [OF del] by (simp add: deleted_in_def)
  then show ?thesis using False by (simp add: seg_del_bitmap_def del_docs_def)
qed

lemma del_step_view:
  assumes store: "blob_store B objects" and R: "roaring_ok R" and V: "vellum_ok V" and Z: "zstd_ok Z"
    and seg: "holds_segment R Z V FJ U tok sc name (objects s) meta v"
    and ver: "sm_DelVersion meta < 2 ^ 63 - 1" and q: "node_ok q"
  shows "\<exists>us. del_step V R B s spare tok name q st meta =
      Ok (fst st @ us, snd st + word_of_nat (card (view_answer FJ U tok sc q v))) \<and>
    (if view_answer FJ U tok sc q v = {} then us = []
     else \<exists>u. us = [u] \<and> update_for R u meta (snd (view_delete FJ U tok sc q v)))"
proof -
  let ?A = "view_answer FJ U tok sc q v" and ?hk = "SegmentKey name (sm_ID meta) ''.hotcache''"
  have v: "stored_docs R Z V FJ U tok sc (fst v) (objects s) name (sm_ID meta)" "deleted_in R name (objects s) meta (snd v)"
    using seg by (simp_all add: holds_segment_def)
  obtain ex where ex: "ReadDelBitmap R B s name (sm_ID meta) (sm_DelVersion meta) = Ok ex" "del_docs R ex = snd v"
    using blob_store.ReadDelBitmap_view [OF store v(2)] by blast
  obtain hb hc where hb: "objects s ?hk = Some hb" and hc: "DecodeHotcache V hb (spare ?hk) = Ok hc"
    and se: "searchable R Z V FJ U tok sc (fst v) (objects s) (SegmentKey name (sm_ID meta) ''.seg'') hc"
    using stored_docs_searchable [OF R V v(1), of "spare ?hk"] by blast
  obtain bm where bm: "SearchDocIDs V R B s tok (SegmentKey name (sm_ID meta) ''.seg'') hc q ex = Ok bm"
    and docs: "bm_docs R bm = ?A"
    using SearchDocIDs_searchable [OF store R V Z se q, of ex] ex(2) by (auto simp: view_answer_def)
  have empty: "bm_Iterator R bm = [] \<longleftrightarrow> ?A = {}" using docs by (metis bm_docs_def set_empty)
  have card: "bm_GetCardinality R bm = word_of_nat (card ?A)" using roaring_card_docs [OF R] docs by simp
  have "bm_docs R (bm_Or R (case ex of None \<Rightarrow> bm_New R | Some e \<Rightarrow> bm_Or R (bm_New R) e) bm) = snd v \<union> ?A"
    using ex(2) docs R by (auto simp: del_docs_def roaring_Or roaring_New split: option.splits)
  moreover have "int_add (sm_DelVersion meta) 1 = sm_DelVersion meta + 1"
    using ver deleted_in_version [OF v(2)] by (rule int_add_small [rotated])
  ultimately have upd: "update_for R \<lparr>sd_segID = sm_ID meta,
      sd_newDelBM = bm_Or R (case ex of None \<Rightarrow> bm_New R | Some e \<Rightarrow> bm_Or R (bm_New R) e) bm,
      sd_newVersion = int_add (sm_DelVersion meta) 1\<rparr> meta (snd (view_delete FJ U tok sc q v))"
    by (simp add: update_for_def view_delete_def)
  have step: "del_step V R B s spare tok name q st meta = (if bm_Iterator R bm = [] then Ok st
      else Ok (fst st @ [\<lparr>sd_segID = sm_ID meta,
          sd_newDelBM = bm_Or R (case ex of None \<Rightarrow> bm_New R | Some e \<Rightarrow> bm_Or R (bm_New R) e) bm,
          sd_newVersion = int_add (sm_DelVersion meta) 1\<rparr>], snd st + bm_GetCardinality R bm))"
    by (simp add: del_step_def Let_def ex(1) blob_store.Get_Some [OF store, OF hb] hc bm)
  show ?thesis
  proof (cases "?A = {}")
    case True
    then show ?thesis using step empty by simp
  next
    case False
    then show ?thesis using step empty upd card by simp
  qed
qed

lemma del_steps_view:
  assumes store: "blob_store B objects" and R: "roaring_ok R" and V: "vellum_ok V" and Z: "zstd_ok Z" and q: "node_ok q"
    and view: "list_all2 (holds_segment R Z V FJ U tok sc name (objects s)) metas vs"
    and ver: "\<forall>m \<in> set metas. sm_DelVersion m < 2 ^ 63 - 1"
  shows "\<exists>us. res_foldl (del_step V R B s spare tok name q) st metas =
      Ok (fst st @ us, snd st + word_of_nat (match_total FJ U tok sc q vs)) \<and>
    list_all2 (\<lambda>u (m, v). update_for R u m (snd (view_delete FJ U tok sc q v))) us (hit_pairs FJ U tok sc q metas vs)"
  using view ver
proof (induction metas vs arbitrary: st rule: list_all2_induct)
  case Nil
  then show ?case by (simp add: match_total_def hit_pairs_def)
next
  case (Cons m ms v vs)
  let ?A = "view_answer FJ U tok sc q v"
  obtain us where us: "del_step V R B s spare tok name q st m = Ok (fst st @ us, snd st + word_of_nat (card ?A))"
    "if ?A = {} then us = [] else \<exists>u. us = [u] \<and> update_for R u m (snd (view_delete FJ U tok sc q v))"
    using del_step_view [OF store R V Z Cons.hyps(1) _ q, of spare st] Cons.prems by auto
  obtain us' where us': "res_foldl (del_step V R B s spare tok name q) (fst st @ us, snd st + word_of_nat (card ?A)) ms =
      Ok ((fst st @ us) @ us', (snd st + word_of_nat (card ?A)) + word_of_nat (match_total FJ U tok sc q vs))"
    "list_all2 (\<lambda>u (m, v). update_for R u m (snd (view_delete FJ U tok sc q v))) us' (hit_pairs FJ U tok sc q ms vs)"
    using Cons.IH [of "(fst st @ us, snd st + word_of_nat (card ?A))"] Cons.prems by auto
  have "hit_pairs FJ U tok sc q (m # ms) (v # vs) = (if ?A = {} then [] else [(m, v)]) @ hit_pairs FJ U tok sc q ms vs"
    by (simp add: hit_pairs_def)
  then have "list_all2 (\<lambda>u (m, v). update_for R u m (snd (view_delete FJ U tok sc q v))) (us @ us')
      (hit_pairs FJ U tok sc q (m # ms) (v # vs))"
    using us(2) us'(2) by (auto split: if_splits)
  moreover have "match_total FJ U tok sc q (v # vs) = card ?A + match_total FJ U tok sc q vs"
    by (simp add: match_total_def)
  ultimately show ?case using us(1) us'(1) by (intro exI [of _ "us @ us'"]) (simp add: add.assoc)
qed

section \<open>Publishing the new versions\<close>

lemma buildUpdateMap_snoc: "buildUpdateMap (us @ [u]) = (buildUpdateMap us)(sd_segID u \<mapsto> sd_newVersion u)"
  by (simp add: buildUpdateMap_def)

lemma buildUpdateMap_Some:
  "distinct (map sd_segID us) \<Longrightarrow> u \<in> set us \<Longrightarrow> buildUpdateMap us (sd_segID u) = Some (sd_newVersion u)"
  by (induction us rule: rev_induct) (auto simp: buildUpdateMap_snoc image_iff)

lemma buildUpdateMap_None: "i \<notin> sd_segID ` set us \<Longrightarrow> buildUpdateMap us i = None"
  by (induction us rule: rev_induct) (simp_all add: buildUpdateMap_snoc, simp add: buildUpdateMap_def)

definition hit_ids ::
  "'v fastjson \<Rightarrow> unicode \<Rightarrow> (string \<Rightarrow> Token list) \<Rightarrow> Schema \<Rightarrow> Node \<Rightarrow> SegmentMeta list \<Rightarrow> (bytes list \<times> u32 set) list \<Rightarrow> string set" where
  "hit_ids FJ U tok sc q metas vs = (\<lambda>p. sm_ID (fst p)) ` set (hit_pairs FJ U tok sc q metas vs)"

text \<open>The segment list of the new manifest: the delete version of every affected segment is one higher.\<close>

definition bump :: "string set \<Rightarrow> SegmentMeta \<Rightarrow> SegmentMeta" where
  "bump ids m = (if sm_ID m \<in> ids then m\<lparr>sm_DelVersion := sm_DelVersion m + 1\<rparr> else m)"

lemma distinct_nth_eq: "distinct (map f xs) \<Longrightarrow> i < length xs \<Longrightarrow> j < length xs \<Longrightarrow> f (xs ! i) = f (xs ! j) \<Longrightarrow> i = j"
  by (metis distinct_conv_nth length_map nth_map)

lemma hit_pairs_nth:
  "length metas = length vs \<Longrightarrow> p \<in> set (hit_pairs FJ U tok sc q metas vs) \<longleftrightarrow>
    (\<exists>i < length metas. p = (metas ! i, vs ! i) \<and> view_answer FJ U tok sc q (vs ! i) \<noteq> {})"
  by (auto simp: hit_pairs_def set_zip)

lemma hit_ids_nth:
  assumes dist: "distinct (map sm_ID metas)" and len: "length metas = length vs" and i: "i < length metas"
  shows "sm_ID (metas ! i) \<in> hit_ids FJ U tok sc q metas vs \<longleftrightarrow> view_answer FJ U tok sc q (vs ! i) \<noteq> {}"
proof
  assume "sm_ID (metas ! i) \<in> hit_ids FJ U tok sc q metas vs"
  then obtain p where "p \<in> set (hit_pairs FJ U tok sc q metas vs)" "sm_ID (metas ! i) = sm_ID (fst p)"
    unfolding hit_ids_def by blast
  then obtain j where j: "j < length metas" "sm_ID (metas ! i) = sm_ID (metas ! j)" "view_answer FJ U tok sc q (vs ! j) \<noteq> {}"
    using hit_pairs_nth [OF len, of p] by (metis fst_conv)
  then have "i = j" using distinct_nth_eq [OF dist i] by blast
  then show "view_answer FJ U tok sc q (vs ! i) \<noteq> {}" using j(3) by simp
next
  assume "view_answer FJ U tok sc q (vs ! i) \<noteq> {}"
  then have "(metas ! i, vs ! i) \<in> set (hit_pairs FJ U tok sc q metas vs)" using i hit_pairs_nth [OF len] by blast
  then show "sm_ID (metas ! i) \<in> hit_ids FJ U tok sc q metas vs" unfolding hit_ids_def by force
qed

text \<open>The updates that the loop collected, by segment.\<close>

lemma updates_nth:
  assumes us: "list_all2 (\<lambda>u (m, v). update_for R u m (snd (view_delete FJ U tok sc q v))) us (hit_pairs FJ U tok sc q metas vs)"
    and dist: "distinct (map sm_ID metas)" and len: "length metas = length vs"
  shows "distinct (map sd_segID us)" and "sd_segID ` set us = hit_ids FJ U tok sc q metas vs"
    and "u \<in> set us \<Longrightarrow> \<exists>i < length metas. update_for R u (metas ! i) (snd (view_delete FJ U tok sc q (vs ! i)))"
    and "i < length metas \<Longrightarrow> view_answer FJ U tok sc q (vs ! i) \<noteq> {} \<Longrightarrow>
      \<exists>u \<in> set us. update_for R u (metas ! i) (snd (view_delete FJ U tok sc q (vs ! i)))"
proof -
  let ?H = "hit_pairs FJ U tok sc q metas vs"
  have ids: "map sd_segID us = map (\<lambda>p. sm_ID (fst p)) ?H"
    using us unfolding list_all2_conv_all_nth by (intro nth_equalityI) (auto simp: update_for_def split_def)
  have "map (\<lambda>p. sm_ID (fst p)) (zip metas vs) = map sm_ID metas"
    using map_map [of sm_ID fst "zip metas vs"] len by (simp add: comp_def)
  then have "distinct (map (\<lambda>p. sm_ID (fst p)) (zip metas vs))" using dist by simp
  then show "distinct (map sd_segID us)" unfolding ids hit_pairs_def by (rule distinct_map_filter)
  show "sd_segID ` set us = hit_ids FJ U tok sc q metas vs"
    using arg_cong [OF ids, of set] by (simp add: hit_ids_def)
  show "\<exists>i < length metas. update_for R u (metas ! i) (snd (view_delete FJ U tok sc q (vs ! i)))" if u: "u \<in> set us"
  proof -
    obtain j where j: "j < length ?H" "u = us ! j" using us u by (metis in_set_conv_nth list_all2_lengthD)
    define p where "p = ?H ! j"
    have "p \<in> set ?H" "update_for R u (fst p) (snd (view_delete FJ U tok sc q (snd p)))"
      using us j by (simp_all add: list_all2_conv_all_nth p_def split_def)
    then show ?thesis using hit_pairs_nth [OF len, of p] by (metis fst_conv snd_conv)
  qed
  show "\<exists>u \<in> set us. update_for R u (metas ! i) (snd (view_delete FJ U tok sc q (vs ! i)))"
    if i: "i < length metas" "view_answer FJ U tok sc q (vs ! i) \<noteq> {}"
  proof -
    have "(metas ! i, vs ! i) \<in> set ?H" using i hit_pairs_nth [OF len] by blast
    then obtain j where "j < length ?H" "?H ! j = (metas ! i, vs ! i)" by (auto simp: in_set_conv_nth)
    then have "j < length us" "update_for R (us ! j) (metas ! i) (snd (view_delete FJ U tok sc q (vs ! i)))"
      using us by (auto simp: list_all2_conv_all_nth)
    then show ?thesis using nth_mem by blast
  qed
qed

lemma bump_versions_bump:
  assumes us: "list_all2 (\<lambda>u (m, v). update_for R u m (snd (view_delete FJ U tok sc q v))) us (hit_pairs FJ U tok sc q (ActiveSegments mf) vs)"
    and dist: "distinct (map sm_ID (mf_Segments mf))" and len: "length (ActiveSegments mf) = length vs"
  shows "bump_versions (buildUpdateMap us) (mf_Segments mf) = map (bump (hit_ids FJ U tok sc q (ActiveSegments mf) vs)) (mf_Segments mf)"
proof -
  let ?a = "ActiveSegments mf"
  have dista: "distinct (map sm_ID ?a)" using dist by (simp add: ActiveSegments_def distinct_map_filter)
  note upd = updates_nth [OF us dista len]
  have "(case buildUpdateMap us (sm_ID m) of Some v \<Rightarrow> m\<lparr>sm_DelVersion := v\<rparr> | None \<Rightarrow> m) = bump (hit_ids FJ U tok sc q ?a vs) m"
    if m: "m \<in> set (mf_Segments mf)" for m
  proof (cases "sm_ID m \<in> hit_ids FJ U tok sc q ?a vs")
    case True
    then obtain u where u: "u \<in> set us" "sd_segID u = sm_ID m" using upd(2) by force
    then obtain i where i: "i < length ?a" "update_for R u (?a ! i) (snd (view_delete FJ U tok sc q (vs ! i)))"
      using upd(3) by blast
    then have "?a ! i \<in> set (mf_Segments mf)" using nth_mem [OF i(1)] by (auto simp: ActiveSegments_def)
    moreover have "sm_ID (?a ! i) = sm_ID m" using i(2) u(2) by (simp add: update_for_def)
    ultimately have "?a ! i = m" using dist m by (metis distinct_map inj_onD)
    then show ?thesis
      using buildUpdateMap_Some [OF upd(1) u(1)] u(2) i(2) True by (simp add: bump_def update_for_def)
  next
    case False
    then have "buildUpdateMap us (sm_ID m) = None" using upd(2) by (intro buildUpdateMap_None) simp
    then show ?thesis using False by (simp add: bump_def)
  qed
  then show ?thesis unfolding bump_versions_def by (rule map_cong [OF refl])
qed

lemma ActiveSegments_bump:
  "ActiveSegments (next_manifest name now n (map (bump ids) (mf_Segments mf))) = map (bump ids) (ActiveSegments mf)"
  by (simp add: ActiveSegments_def next_manifest_def filter_map comp_def bump_def)

lemma written_view:
  assumes R: "roaring_ok R" and view: "list_all2 (holds_segment R Z V FJ U tok sc name objs) metas vs"
    and dist: "distinct (map sm_ID metas)"
    and us: "list_all2 (\<lambda>u (m, v). update_for R u m (snd (view_delete FJ U tok sc q v))) us (hit_pairs FJ U tok sc q metas vs)"
    and puts: "\<forall>u \<in> set us. \<exists>d b. objs' (delKey name (sd_segID u) (sd_newVersion u)) = Some d \<and>
        bm_UnmarshalBinary R d = Ok b \<and> bm_docs R b = bm_docs R (sd_newDelBM u)"
    and rest: "\<And>k. k \<notin> (\<lambda>u. delKey name (sd_segID u) (sd_newVersion u)) ` set us \<Longrightarrow>
        \<not> HasPrefix k (manifest_prefix name) \<Longrightarrow> objs' k = objs k"
  shows "list_all2 (holds_segment R Z V FJ U tok sc name objs')
    (map (bump (hit_ids FJ U tok sc q metas vs)) metas) (map (view_delete FJ U tok sc q) vs)"
proof -
  let ?k = "\<lambda>u. delKey name (sd_segID u) (sd_newVersion u)" and ?ids = "hit_ids FJ U tok sc q metas vs"
  have len: "length metas = length vs" using view by (rule list_all2_lengthD)
  note upd = updates_nth [OF us dist len]
  have hold: "holds_segment R Z V FJ U tok sc name objs (metas ! i) (vs ! i)" if "i < length metas" for i
    using view that by (simp add: list_all2_conv_all_nth)
  have "holds_segment R Z V FJ U tok sc name objs' (bump ?ids (metas ! i)) (view_delete FJ U tok sc q (vs ! i))"
    if i: "i < length metas" for i
  proof -
    let ?m = "metas ! i" and ?v = "vs ! i"
    have id: "seg_id_ok (sm_ID ?m)" using hold [OF i] by (simp add: holds_segment_def)
    have files: "objs (SegmentKey name (sm_ID ?m) ''.seg'') = objs' (SegmentKey name (sm_ID ?m) ''.seg'')"
      "objs (SegmentKey name (sm_ID ?m) ''.hotcache'') = objs' (SegmentKey name (sm_ID ?m) ''.hotcache'')"
      by (auto intro!: rest [symmetric] simp: delKey_not_segment [symmetric] not_manifest_key(1))
    show ?thesis
    proof (cases "view_answer FJ U tok sc q ?v = {}")
      case True
      have "delKey name (sm_ID ?m) (sm_DelVersion ?m) \<notin> ?k ` set us"
      proof
        assume "delKey name (sm_ID ?m) (sm_DelVersion ?m) \<in> ?k ` set us"
        then obtain u j where "u \<in> set us" "j < length metas" "update_for R u (metas ! j) (snd (view_delete FJ U tok sc q (vs ! j)))"
          and key: "delKey name (sm_ID ?m) (sm_DelVersion ?m) = ?k u" using upd(3) by blast
        moreover then have "seg_id_ok (sd_segID u)" using hold by (simp add: holds_segment_def update_for_def)
        ultimately have "sm_ID ?m = sd_segID u" "sd_segID u \<in> ?ids" using delKey_inj [OF id] upd(2) by auto
        then show False using hit_ids_nth [OF dist len i, of FJ U tok sc q] True by metis
      qed
      then have "objs (delKey name (sm_ID ?m) (sm_DelVersion ?m)) = objs' (delKey name (sm_ID ?m) (sm_DelVersion ?m))"
        using rest not_manifest_key(2) by metis
      then have "holds_segment R Z V FJ U tok sc name objs' ?m ?v"
        using hold [OF i] holds_segment_cong [OF files] by blast
      moreover have "bump ?ids ?m = ?m" using hit_ids_nth [OF dist len i, of FJ U tok sc q] True by (simp add: bump_def)
      ultimately show ?thesis using True by (simp add: view_delete_def)
    next
      case False
      then obtain u where u: "u \<in> set us" "update_for R u ?m (snd (view_delete FJ U tok sc q ?v))" using upd(4) i by blast
      have b: "bump ?ids ?m = ?m\<lparr>sm_DelVersion := sm_DelVersion ?m + 1\<rparr>"
        using hit_ids_nth [OF dist len i, of FJ U tok sc q] False by (simp add: bump_def)
      have "0 \<le> sm_DelVersion ?m" using hold [OF i] deleted_in_version by (auto simp: holds_segment_def)
      then have "deleted_in R name objs' (bump ?ids ?m) (snd (view_delete FJ U tok sc q ?v))"
        using puts u by (auto simp: deleted_in_def b update_for_def)
      then show ?thesis
        using hold [OF i] stored_docs_cong [OF files, of R Z V FJ U tok sc] by (simp add: holds_segment_def b view_delete_def)
    qed
  qed
  then show ?thesis using len by (simp add: list_all2_conv_all_nth)
qed

section \<open>The whole operation\<close>

lemma DeleteByQuery_view:
  assumes store: "blob_store B objects" and R: "roaring_ok R" and V: "vellum_ok V" and Z: "zstd_ok Z" and q: "node_ok q"
    and log: "manifest_log J name (objects s) (ms @ [mf])" and len: "length ms + 2 < 10 ^ 6"
    and dist: "distinct (map sm_ID (mf_Segments mf))"
    and view: "index_view R Z V FJ U tok sc name (objects s) (ActiveSegments mf) vs"
    and ver: "\<forall>m \<in> set (ActiveSegments mf). sm_DelVersion m < 2 ^ 63 - 1"
    and hits: "hit_ids FJ U tok sc q (ActiveSegments mf) vs = ids"
    and new: "mf' = next_manifest name (now 4) (Suc (length ms)) (map (bump ids) (mf_Segments mf))"
    and json: "ids \<noteq> {} \<longrightarrow> mj_roundtrip J mf'"
  shows "\<exists>s'. DeleteByQuery V R B J spare now tok name q s = (Ok (word_of_nat (match_total FJ U tok sc q vs)), s') \<and>
    (if ids = {} then s' = s else manifest_log J name (objects s') (ms @ [mf, mf'])) \<and>
    index_view R Z V FJ U tok sc name (objects s') (ActiveSegments (if ids = {} then mf else mf')) (map (view_delete FJ U tok sc q) vs)"
proof -
  have view': "list_all2 (holds_segment R Z V FJ U tok sc name (objects s)) (ActiveSegments mf) vs"
    using view by (simp add: index_view_def)
  then have lena: "length (ActiveSegments mf) = length vs" by (rule list_all2_lengthD)
  have dista: "distinct (map sm_ID (ActiveSegments mf))" using dist by (simp add: ActiveSegments_def distinct_map_filter)
  obtain us where fold: "res_foldl (del_step V R B s spare tok name q) ([], 0) (ActiveSegments mf) =
      Ok (us, word_of_nat (match_total FJ U tok sc q vs))"
    and us: "list_all2 (\<lambda>u (m, v). update_for R u m (snd (view_delete FJ U tok sc q v))) us (hit_pairs FJ U tok sc q (ActiveSegments mf) vs)"
    using del_steps_view [OF store R V Z q view' ver, of spare "([], 0)"] by auto
  note upd = updates_nth [OF us dista lena]
  have latest: "ms_Latest B J name s = Ok (Some mf)"
    using blob_store.Latest_log [OF store, OF log] by (simp add: log_last_def)
  show ?thesis
  proof (cases "ids = {}")
    case True
    then have "us = []" using upd(2) hits by simp
    have none: "\<forall>v \<in> set vs. view_answer FJ U tok sc q v = {}"
      using hit_ids_nth [OF dista lena, of _ FJ U tok sc q] True hits lena by (simp add: all_set_conv_all_nth)
    then have "match_total FJ U tok sc q vs = 0" by (simp add: match_total_def)
    moreover have "map (view_delete FJ U tok sc q) vs = vs"
      using none by (intro map_idI) (metis sup_bot_right surjective_pairing view_delete_def)
    ultimately have "match_total FJ U tok sc q vs = 0" "map (view_delete FJ U tok sc q) vs = vs" .
    then show ?thesis using True \<open>us = []\<close> latest fold view by (simp add: DeleteByQuery_def)
  next
    case False
    then have ne: "us \<noteq> []" using upd(2) hits by auto
    let ?k = "\<lambda>u. delKey name (sd_segID u) (sd_newVersion u)"
    have id: "seg_id_ok (sd_segID u)" if "u \<in> set us" for u
      using upd(3) [OF that] view' by (auto simp: update_for_def list_all2_conv_all_nth holds_segment_def)
    have "distinct (map ?k us)"
      unfolding distinct_map using upd(1) id delKey_inj by (auto simp: distinct_map inj_on_def)
    from blob_store.write_dels_puts [OF store R this, of s] obtain s1 where
      s1: "write_dels R B name s us = (Ok (), s1)"
      and puts: "\<forall>u \<in> set us. \<exists>d b. objects s1 (?k u) = Some d \<and> bm_UnmarshalBinary R d = Ok b \<and> bm_docs R b = bm_docs R (sd_newDelBM u)"
      and rest: "\<forall>k. k \<notin> ?k ` set us \<longrightarrow> objects s1 k = objects s k" by blast
    have log1: "manifest_log J name (objects s1) (ms @ [mf])"
    proof (rule manifest_log_frame [OF _ log])
      fix k assume "HasPrefix k (manifest_prefix name)"
      then have "k \<notin> ?k ` set us" using not_manifest_key(2) by auto
      then show "objects s1 k = objects s k" using rest by blast
    qed
    have bump: "bump_versions (buildUpdateMap us) (current_segments (log_last (ms @ [mf]))) = map (bump ids) (mf_Segments mf)"
      using bump_versions_bump [OF us dist lena] hits by (simp add: log_last_def current_segments_def)
    obtain s2 where s2: "ms_PublishTransform B J name now s1 (bump_versions (buildUpdateMap us)) 5 = (Ok mf', s2)"
      "manifest_log J name (objects s2) (ms @ [mf, mf'])"
      "\<And>k. \<not> HasPrefix k (manifest_prefix name) \<Longrightarrow> objects s2 k = objects s1 k"
    proof (rule blob_store.PublishTransform_log [OF store log1, where r = 4 and now = now and fn = "bump_versions (buildUpdateMap us)"])
      show "Suc (length (ms @ [mf])) < 10 ^ 6" using len by simp
    qed (use False json in \<open>simp_all add: bump new\<close>)
    have "list_all2 (holds_segment R Z V FJ U tok sc name (objects s2))
        (map (bump (hit_ids FJ U tok sc q (ActiveSegments mf) vs)) (ActiveSegments mf)) (map (view_delete FJ U tok sc q) vs)"
    proof (rule written_view [OF R view' dista us])
      show "\<forall>u \<in> set us. \<exists>d b. objects s2 (?k u) = Some d \<and> bm_UnmarshalBinary R d = Ok b \<and> bm_docs R b = bm_docs R (sd_newDelBM u)"
        using puts s2(3) not_manifest_key(2) by simp
      show "objects s2 k = objects s k" if "k \<notin> ?k ` set us" "\<not> HasPrefix k (manifest_prefix name)" for k
        using that rest s2(3) by simp
    qed
    then have "index_view R Z V FJ U tok sc name (objects s2) (ActiveSegments mf') (map (view_delete FJ U tok sc q) vs)"
      unfolding index_view_def new ActiveSegments_bump hits .
    then show ?thesis
      using False ne latest fold s1 s2(1,2) by (simp add: DeleteByQuery_def del: ms_PublishTransform.simps)
  qed
qed

lemma view_delete_answer: "view_answer FJ U tok sc q (view_delete FJ U tok sc q v) = {}"
  by (auto simp: view_answer_def view_delete_def answer_def)

section \<open>Properties\<close>

text \<open>C5: Deleting by query refines the deletion of documents in the view of the index. On an index
  whose active segments were built from documents and carry any delete bitmaps, the call succeeds,
  returns the number of live documents that match the query, and afterwards exactly these documents
  are deleted as well; the documents of every segment are unchanged, and the same query finds
  nothing any more. When nothing matches, the store is left as it was; otherwise the manifest log
  has one more entry, in which exactly the affected segments have a higher delete version.\<close>

theorem delete_by_query_refines:
  assumes "blob_store B objects" and "roaring_ok R" and "vellum_ok V" and "zstd_ok Z" and "node_ok q"
    and "manifest_log J name (objects s) (ms @ [mf])" and "length ms + 2 < 10 ^ 6"
    and "distinct (map sm_ID (mf_Segments mf))"
    and "index_view R Z V FJ U tok sc name (objects s) (ActiveSegments mf) vs"
    and "\<forall>m \<in> set (ActiveSegments mf). sm_DelVersion m < 2 ^ 63 - 1"
    and "hit_ids FJ U tok sc q (ActiveSegments mf) vs = ids"
    and "mf' = next_manifest name (now 4) (Suc (length ms)) (map (bump ids) (mf_Segments mf))"
    and "ids \<noteq> {} \<longrightarrow> mj_roundtrip J mf'"
  shows "\<exists>s'. DeleteByQuery V R B J spare now tok name q s = (Ok (word_of_nat (match_total FJ U tok sc q vs)), s') \<and>
    (if ids = {} then s' = s else manifest_log J name (objects s') (ms @ [mf, mf'])) \<and>
    index_view R Z V FJ U tok sc name (objects s') (ActiveSegments (if ids = {} then mf else mf')) (map (view_delete FJ U tok sc q) vs) \<and>
    (\<forall>v \<in> set (map (view_delete FJ U tok sc q) vs). view_answer FJ U tok sc q v = {})"
  using DeleteByQuery_view [where now = now and spare = spare, OF assms(1), OF assms(2-)] by (simp add: view_delete_answer)

theorem delete_by_query_refines_witness:
  "\<exists>J s s' mf. fst (DeleteByQuery list_vellum list_roaring mem_BlobStore J (\<lambda>_. []) (\<lambda>_. 9) (Tokenize ascii) ''idx''
      (value_node NodeTerm ''body'' ''cat'') s) = Ok 1 \<and>
    index_view list_roaring id_zstd list_vellum cat_json ascii (Tokenize ascii) example_schema ''idx'' (mem_content s') (ActiveSegments mf)
      [([[0x31]], {0})] \<and> sm_DelVersion (hd (mf_Segments mf)) = 1"
proof -
  let ?q = "value_node NodeTerm ''body'' ''cat''" and ?v = "([[0x31]], {}) :: bytes list \<times> u32 set"
  let ?vs = "[?v]" and ?mf = example_manifest
  let ?mf' = "next_manifest ''idx'' 9 1 (map (bump {''s1''}) (mf_Segments ?mf))"
  have ans: "view_answer cat_json ascii (Tokenize ascii) example_schema ?q ?v = {0}"
    using example_answer by (simp add: view_answer_def)
  have act: "ActiveSegments ?mf = [example_meta]"
    by (simp add: ActiveSegments_def example_manifest_def next_manifest_def example_meta_def)
  have ids: "hit_ids cat_json ascii (Tokenize ascii) example_schema ?q (ActiveSegments ?mf) ?vs = {''s1''}"
    using ans by (simp add: hit_ids_def hit_pairs_def act) (simp add: example_meta_def)
  obtain s where log: "manifest_log (table_json [?mf, ?mf']) ''idx'' (mem_content s) [?mf]"
    and view: "index_view list_roaring id_zstd list_vellum cat_json ascii (Tokenize ascii) example_schema ''idx''
      (mem_content s) (ActiveSegments ?mf) ?vs"
    using example_index [of "[?mf']"] by blast
  have rt: "mj_roundtrip (table_json [?mf, ?mf']) ?mf'" by (rule table_json_roundtrip) simp_all
  let ?D = "DeleteByQuery list_vellum list_roaring mem_BlobStore (table_json [?mf, ?mf']) (\<lambda>_. []) (\<lambda>_. 9) (Tokenize ascii) ''idx'' ?q s"
  have "\<exists>s'. ?D = (Ok (word_of_nat (match_total cat_json ascii (Tokenize ascii) example_schema ?q ?vs)), s') \<and>
      (if {''s1''} = {} then s' = s else manifest_log (table_json [?mf, ?mf']) ''idx'' (mem_content s') ([] @ [?mf, ?mf'])) \<and>
      index_view list_roaring id_zstd list_vellum cat_json ascii (Tokenize ascii) example_schema ''idx'' (mem_content s')
        (ActiveSegments (if {''s1''} = {} then ?mf else ?mf')) (map (view_delete cat_json ascii (Tokenize ascii) example_schema ?q) ?vs) \<and>
      (\<forall>v \<in> set (map (view_delete cat_json ascii (Tokenize ascii) example_schema ?q) ?vs).
        view_answer cat_json ascii (Tokenize ascii) example_schema ?q v = {})"
  proof (rule delete_by_query_refines [OF mem.blob_store_axioms, OF list_roaring_ok list_vellum_ok id_zstd_ok example_query_ok _ _ _ view _ ids])
    show "distinct (map sm_ID (mf_Segments ?mf))" by (simp add: example_manifest_def next_manifest_def)
    show "\<forall>m \<in> set (ActiveSegments ?mf). sm_DelVersion m < 2 ^ 63 - 1" unfolding act by (simp add: example_meta_def)
  qed (use log rt in simp_all)
  then obtain s' where s': "?D = (Ok (word_of_nat (match_total cat_json ascii (Tokenize ascii) example_schema ?q ?vs)), s')"
    "index_view list_roaring id_zstd list_vellum cat_json ascii (Tokenize ascii) example_schema ''idx'' (mem_content s')
      (ActiveSegments ?mf') (map (view_delete cat_json ascii (Tokenize ascii) example_schema ?q) ?vs)" by auto
  have "match_total cat_json ascii (Tokenize ascii) example_schema ?q ?vs = 1"
    "map (view_delete cat_json ascii (Tokenize ascii) example_schema ?q) ?vs = [([[0x31]], {0})]"
    using ans by (simp_all add: match_total_def view_delete_def)
  moreover have "sm_DelVersion (hd (mf_Segments ?mf')) = 1"
    by (simp add: example_manifest_def next_manifest_def bump_def example_meta_def)
  ultimately show ?thesis using s' by (intro exI [of _ "table_json [?mf, ?mf']"] exI [of _ s] exI [of _ s'] exI [of _ ?mf']) simp
qed

end
