(* ===== verification/Searcher.thy ===== *)
theory Searcher
  imports Delete Cache Query_DSL
begin

text \<open>
  Searching an index (\<open>src/pkg/search/search.go\<close>): every active segment of the latest manifest is
  searched for its best hits, with its hotcache taken from the LRU cache or fetched, and the
  partial results are merged, sorted and cut to the requested window. \<open>order\<close> lists the segments in
  the order in which their goroutines run; each runs as one step. A panic in a goroutine ends the
  process. The hotcache key that \<open>SegmentSearch\<close> is also given is not used by it.

  Result: whatever the order of the goroutines and the contents of the cache, the page is the
  requested window of a ranking of all live matching documents of the index.
\<close>

section \<open>Operations\<close>

record Request =
  rq_Index :: string
  req_Query :: Node
  req_Size :: i64
  req_From :: i64

record Response =
  rs_TotalHits :: u64
  rs_From :: i64
  rs_Size :: nat
  rs_Hits :: "Hit list"

definition empty_response :: Response where
  "empty_response = \<lparr>rs_TotalHits = 0, rs_From = 0, rs_Size = 0, rs_Hits = []\<rparr>"

definition New_cache :: "int \<Rightarrow> 'f Hotcache HotcacheLRU" where
  "New_cache hcCapacity = NewHotcacheLRU hcCapacity"

definition fetch_hotcache ::
  "('w, 'f) vellum \<Rightarrow> 's BlobStore \<Rightarrow> 's \<Rightarrow> (string \<Rightarrow> bytes) \<Rightarrow> string \<Rightarrow> 'f Hotcache HotcacheLRU
     \<Rightarrow> 'f Hotcache result \<times> 'f Hotcache HotcacheLRU" where
  "fetch_hotcache V B s spare hcKey h =
     (case lru_Get h hcKey of
        (Some hc, h) \<Rightarrow> (Ok hc, h)
      | (None, h) \<Rightarrow>
          st_bind (res_wrap ''fetch hotcache'' (bs_Get B s hcKey), h) (\<lambda>data h.
          st_bind (res_wrap ''decode hotcache'' (DecodeHotcache V data (spare hcKey)), h) (\<lambda>hc h.
          (Ok hc, lru_Put h hcKey hc))))"

definition searchSegment ::
  "('w, 'f) vellum \<Rightarrow> 'b roaring \<Rightarrow> zstd \<Rightarrow> ((Hit \<Rightarrow> real) \<Rightarrow> Hit list \<Rightarrow> Hit list) \<Rightarrow> 's BlobStore \<Rightarrow> 's \<Rightarrow> (string \<Rightarrow> bytes)
     \<Rightarrow> (string \<Rightarrow> Token list) \<Rightarrow> string \<Rightarrow> Node \<Rightarrow> int \<Rightarrow> SegmentMeta \<Rightarrow> 'f Hotcache HotcacheLRU
     \<Rightarrow> PartialResult result \<times> 'f Hotcache HotcacheLRU" where
  "searchSegment V R Z srt B s spare tok indexName q topK meta h =
     (let hcKey = SegmentKey indexName (sm_ID meta) ''.hotcache'';
          segKey = SegmentKey indexName (sm_ID meta) ''.seg'' in
      st_bind (fetch_hotcache V B s spare hcKey h) (\<lambda>hc h.
      st_bind (seg_del_bitmap R B s indexName meta, h) (\<lambda>delBitmap h.
      (SegmentSearch V R Z srt B s tok segKey hc q topK delBitmap, h))))"

fun run_segments ::
  "(SegmentMeta \<Rightarrow> 'c \<Rightarrow> PartialResult result \<times> 'c) \<Rightarrow> SegmentMeta list \<Rightarrow> nat list
     \<Rightarrow> (nat \<Rightarrow> PartialResult result option) \<times> 'c \<Rightarrow> (nat \<Rightarrow> PartialResult result option) \<times> 'c" where
  "run_segments f segments [] (results, h) = (results, h)"
| "run_segments f segments (i # order) (results, h) =
     (case f (segments ! i) h of (r, h) \<Rightarrow> run_segments f segments order (results(i := Some r), h))"

definition merge_step ::
  "(nat \<Rightarrow> PartialResult result option) \<Rightarrow> Hit list \<times> u64 \<Rightarrow> nat \<Rightarrow> (Hit list \<times> u64) result" where
  "merge_step results st i =
     (case results i of
        None \<Rightarrow> Ok st
      | Some Panic \<Rightarrow> Panic
      | Some (Err e) \<Rightarrow> Ok st
      | Some (Ok p) \<Rightarrow> Ok (fst st @ pr_Hits p, snd st + pr_TotalHits p))"

text \<open>\<open>allHits[from:]\<close> and \<open>allHits[:req.Size]\<close> panic on a negative bound.\<close>

definition page :: "i64 \<Rightarrow> i64 \<Rightarrow> Hit list \<Rightarrow> Hit list result" where
  "page reqFrom reqSize allHits =
     (let from = (if int (length allHits) < sint reqFrom then int (length allHits) else sint reqFrom) in
      if from < 0 then Panic
      else let allHits = drop (nat from) allHits in
        if sint reqSize < int (length allHits)
        then if sint reqSize < 0 then Panic else Ok (take (nat (sint reqSize)) allHits)
        else Ok allHits)"

definition Search ::
  "('w, 'f) vellum \<Rightarrow> 'b roaring \<Rightarrow> zstd \<Rightarrow> ((Hit \<Rightarrow> real) \<Rightarrow> Hit list \<Rightarrow> Hit list) \<Rightarrow> 's BlobStore \<Rightarrow> manifest_json
     \<Rightarrow> 's \<Rightarrow> (string \<Rightarrow> bytes) \<Rightarrow> (string \<Rightarrow> Token list) \<Rightarrow> nat list \<Rightarrow> Request \<Rightarrow> 'f Hotcache HotcacheLRU
     \<Rightarrow> Response result \<times> 'f Hotcache HotcacheLRU" where
  "Search V R Z srt B J s spare tok order req h =
     st_bind (res_wrap ''search: manifest'' (ms_Latest B J (rq_Index req) s), h) (\<lambda>manifest h.
     case manifest of None \<Rightarrow> (Ok empty_response, h)
     | Some m \<Rightarrow>
       let segments = ActiveSegments m in
       if segments = [] then (Ok empty_response, h)
       else let segTopK = sint (req_From req + req_Size req);
                (results, h) = run_segments (searchSegment V R Z srt B s spare tok (rq_Index req) (req_Query req) segTopK)
                  segments order (\<lambda>_. None, h) in
         st_bind (res_foldl (merge_step results) ([], 0) [0..<length segments], h) (\<lambda>(allHits, totalHits) h.
         st_bind (page (req_From req) (req_Size req) (srt (\<lambda>x. - hit_Score x) allHits), h) (\<lambda>hits h.
         (Ok \<lparr>rs_TotalHits = totalHits, rs_From = req_From req, rs_Size = length hits, rs_Hits = hits\<rparr>, h))))"

section \<open>The cache\<close>

text \<open>Every cached hotcache is the decoding of the stored object.\<close>

definition cache_ok :: "('w, 'f) vellum \<Rightarrow> (string \<rightharpoonup> bytes) \<Rightarrow> 'f Hotcache HotcacheLRU \<Rightarrow> bool" where
  "cache_ok V objs h \<longleftrightarrow> lru_inv h \<and>
     (\<forall>(k, hc) \<in> set (lru_pairs h). \<exists>hb sp. objs k = Some hb \<and> DecodeHotcache V hb sp = Ok hc)"

lemma cache_ok_New: "cache_ok V objs (New_cache n)"
  by (simp add: cache_ok_def New_cache_def lru_inv_New) (simp add: NewHotcacheLRU_def lru_pairs_def)

lemma cache_ok_frame:
  assumes "cache_ok V objs h" and "\<forall>k \<in> fst ` set (lru_pairs h). objs' k = objs k"
  shows "cache_ok V objs' h"
  using assms by (fastforce simp: cache_ok_def)

lemma fetch_hotcache_ok:
  assumes store: "blob_store B objects" and h: "cache_ok V (objects s) h"
    and obj: "objects s k = Some hb" and dec: "\<exists>hc. DecodeHotcache V hb (spare k) = Ok hc"
  shows "\<exists>hc h' sp. fetch_hotcache V B s spare k h = (Ok hc, h') \<and> cache_ok V (objects s) h' \<and> DecodeHotcache V hb sp = Ok hc"
proof -
  let ?P = "\<lambda>k hc. \<exists>hb sp. objects s k = Some hb \<and> DecodeHotcache V hb sp = Ok hc"
  obtain r h1 where g: "lru_Get h k = (r, h1)" by fastforce
  have inv: "lru_inv h" "\<forall>(k, hc) \<in> set (lru_pairs h). ?P k hc" using h by (simp_all add: cache_ok_def)
  have h1: "cache_ok V (objects s) h1" "\<forall>hc. r = Some hc \<longrightarrow> ?P k hc"
    using hotcache_lru.get_inv [OF inv(1), of k] hotcache_lru.get_all [OF inv, of k] g by (simp_all add: cache_ok_def)
  show ?thesis
  proof (cases r)
    case None
    obtain hc where hc: "DecodeHotcache V hb (spare k) = Ok hc" using dec by blast
    then have "?P k hc" using obj by blast
    moreover have "lru_inv h1" "\<forall>(k, hc) \<in> set (lru_pairs h1). ?P k hc" using h1(1) by (simp_all add: cache_ok_def)
    ultimately have "lru_inv (lru_Put h1 k hc)" "\<forall>(k, hc) \<in> set (lru_pairs (lru_Put h1 k hc)). ?P k hc"
      using hotcache_lru.put_inv [of h1 k hc] hotcache_lru.put_all [of h1 ?P k hc] by blast+
    then have "cache_ok V (objects s) (lru_Put h1 k hc)" by (simp add: cache_ok_def)
    then show ?thesis using None g hc blob_store.Get_Some [OF store, OF obj] by (auto simp: fetch_hotcache_def)
  next
    case (Some hc)
    then show ?thesis using g h1 obj by (auto simp: fetch_hotcache_def)
  qed
qed

text \<open>What the search of one segment returns.\<close>

definition partial_of ::
  "'v fastjson \<Rightarrow> unicode \<Rightarrow> (string \<Rightarrow> Token list) \<Rightarrow> Schema \<Rightarrow> Node \<Rightarrow> int \<Rightarrow> bytes list \<times> u32 set \<Rightarrow> scores \<Rightarrow> PartialResult \<Rightarrow> bool" where
  "partial_of FJ U tok sc q k v scr pr \<longleftrightarrow> pr_TotalHits pr = word_of_nat (card (view_answer FJ U tok sc q v)) \<and>
     best_hits k (view_answer FJ U tok sc q v) scr (\<lambda>d. fst v ! unat d) (pr_Hits pr)"

lemma segment_opened:
  assumes store: "blob_store B objects" and R: "roaring_ok R" and V: "vellum_ok V"
    and seg: "holds_segment R Z V FJ U tok sc name (objects s) meta v" and h: "cache_ok V (objects s) h"
  shows "\<exists>hc h' ex. fetch_hotcache V B s spare (SegmentKey name (sm_ID meta) ''.hotcache'') h = (Ok hc, h') \<and>
    cache_ok V (objects s) h' \<and> seg_del_bitmap R B s name meta = Ok ex \<and> del_docs R ex = snd v \<and>
    searchable R Z V FJ U tok sc (fst v) (objects s) (SegmentKey name (sm_ID meta) ''.seg'') hc"
proof -
  let ?hk = "SegmentKey name (sm_ID meta) ''.hotcache''" and ?sk = "SegmentKey name (sm_ID meta) ''.seg''"
  have st: "stored_docs R Z V FJ U tok sc (fst v) (objects s) name (sm_ID meta)"
    and del: "deleted_in R name (objects s) meta (snd v)" using seg by (simp_all add: holds_segment_def)
  obtain hb where hb: "objects s ?hk = Some hb" "\<exists>hc. DecodeHotcache V hb (spare ?hk) = Ok hc"
    using stored_docs_searchable [OF R V st, of "spare ?hk"] by blast
  obtain hc h' sp where fetch: "fetch_hotcache V B s spare ?hk h = (Ok hc, h')" "cache_ok V (objects s) h'"
    "DecodeHotcache V hb sp = Ok hc"
    using fetch_hotcache_ok [where spare = spare, OF store, OF h hb] by blast
  have se: "searchable R Z V FJ U tok sc (fst v) (objects s) ?sk hc"
    using stored_docs_searchable [OF R V st, of sp] hb(1) fetch(3) by auto
  obtain ex where ex: "seg_del_bitmap R B s name meta = Ok ex" "del_docs R ex = snd v"
    using seg_del_bitmap_view [OF store, OF del] by blast
  then show ?thesis using fetch(1,2) se by auto
qed

lemma searchSegment_view:
  assumes store: "blob_store B objects" and R: "roaring_ok R" and V: "vellum_ok V" and Z: "zstd_ok Z" and srt: "slice_sort srt"
    and seg: "holds_segment R Z V FJ U tok sc name (objects s) meta v"
    and q: "node_ok q" and k: "0 \<le> k" and h: "cache_ok V (objects s) h"
  shows "\<exists>pr h' scr. searchSegment V R Z srt B s spare tok name q k meta h = (Ok pr, h') \<and>
    cache_ok V (objects s) h' \<and> partial_of FJ U tok sc q k v scr pr"
proof -
  obtain hc h' ex where op: "fetch_hotcache V B s spare (SegmentKey name (sm_ID meta) ''.hotcache'') h = (Ok hc, h')"
    "cache_ok V (objects s) h'" "seg_del_bitmap R B s name meta = Ok ex" "del_docs R ex = snd v"
    and se: "searchable R Z V FJ U tok sc (fst v) (objects s) (SegmentKey name (sm_ID meta) ''.seg'') hc"
    using segment_opened [where spare = spare, OF store, OF R V seg h] by blast
  obtain pr scr where "SegmentSearch V R Z srt B s tok (SegmentKey name (sm_ID meta) ''.seg'') hc q k ex = Ok pr" "partial_of FJ U tok sc q k v scr pr"
    using SegmentSearch_searchable [OF store, OF R V Z srt se q k, of ex] op(4) by (auto simp: partial_of_def view_answer_def)
  then show ?thesis using op by (auto simp: searchSegment_def Let_def)
qed

lemma run_segments_all:
  assumes step: "\<And>i h. i \<in> set order \<Longrightarrow> Inv h \<Longrightarrow> \<exists>r h'. f (segs ! i) h = (r, h') \<and> Inv h' \<and> Q i r" and h: "Inv h"
  shows "\<exists>results h'. run_segments f segs order (res0, h) = (results, h') \<and> Inv h' \<and>
    (\<forall>i. if i \<in> set order then \<exists>r. results i = Some r \<and> Q i r else results i = res0 i)"
  using step h
proof (induction order arbitrary: res0 h)
  case (Cons j order)
  obtain r h1 where r: "f (segs ! j) h = (r, h1)" "Inv h1" "Q j r" using Cons.prems by (meson list.set_intros(1))
  have "\<exists>results h'. run_segments f segs order (res0(j := Some r), h1) = (results, h') \<and> Inv h' \<and>
    (\<forall>i. if i \<in> set order then \<exists>r. results i = Some r \<and> Q i r else results i = (res0(j := Some r)) i)"
    by (rule Cons.IH [OF _ r(2)]) (use Cons.prems(1) in auto)
  then obtain results h' where run: "run_segments f segs order (res0(j := Some r), h1) = (results, h')" "Inv h'"
    and all: "\<forall>i. if i \<in> set order then \<exists>r. results i = Some r \<and> Q i r else results i = (res0(j := Some r)) i" by blast
  have "if i \<in> set (j # order) then \<exists>r. results i = Some r \<and> Q i r else results i = res0 i" for i
    using all [rule_format, of i] r(3) by (auto split: if_splits)
  then show ?case using r(1) run by auto
qed simp

lemma merge_all:
  "\<forall>i \<in> set is. results i = Some (Ok (p i)) \<Longrightarrow> res_foldl (merge_step results) st is =
    Ok (fst st @ concat (map (\<lambda>i. pr_Hits (p i)) is), snd st + sum_list (map (\<lambda>i. pr_TotalHits (p i)) is))"
  by (induction "is" arbitrary: st) (simp_all add: merge_step_def add.assoc)

lemma page_window: "0 \<le> sint f \<Longrightarrow> 0 \<le> sint n \<Longrightarrow> page f n xs = Ok (take (nat (sint n)) (drop (nat (sint f)) xs))"
  by (auto simp: page_def Let_def)

section \<open>Merging the best of every part\<close>

text \<open>
  A list in descending order and further elements, each of which at least \<open>k\<close> elements of the
  list are as good as: the first \<open>k\<close> of the list begin a descending order of everything.
\<close>

lemma top_of_all:
  fixes key :: "'a \<Rightarrow> real"
  assumes desc: "sorted_wrt (\<lambda>a b. key b \<le> key a) ys"
    and rest: "\<forall>z \<in> set zs. k \<le> length (filter (\<lambda>y. key z \<le> key y) ys)"
  shows "\<exists>rank. mset rank = mset (ys @ zs) \<and> sorted_wrt (\<lambda>a b. key b \<le> key a) rank \<and> take k rank = take k ys"
proof (cases "zs = []")
  case True
  then show ?thesis using desc by auto
next
  case False
  define rank where "rank = take k ys @ sort_key (\<lambda>x. - key x) (drop k ys @ zs)"
  have "k \<le> length ys" using rest False length_filter_le order_trans by (metis hd_in_set)
  then have "take k rank = take k ys" by (simp add: rank_def)
  moreover have "mset rank = mset (ys @ zs)"
    by (simp add: rank_def) (metis append_take_drop_id mset_append union_assoc)
  moreover have "sorted_wrt (\<lambda>a b. key b \<le> key a) rank"
  proof -
    have low: "key z \<le> key y" if y: "y \<in> set (take k ys)" and z: "z \<in> set zs" for y z
    proof (rule ccontr)
      assume less: "\<not> key z \<le> key y"
      obtain i where i: "i < k" "i < length ys" "y = ys ! i" using y by (auto simp: in_set_conv_nth)
      have "\<not> key z \<le> key x" if "x \<in> set (drop i ys)" for x
      proof -
        obtain j where j: "i + j < length ys" "x = ys ! (i + j)" using \<open>x \<in> set (drop i ys)\<close> i(2)
          by (force simp: in_set_conv_nth less_diff_conv add.commute)
        have "key x \<le> key y" using sorted_wrt_nth_less [OF desc, of i "i + j"] i j by (cases "j = 0") auto
        then show ?thesis using less by simp
      qed
      then have "filter (\<lambda>y. key z \<le> key y) (drop i ys) = []" by (simp add: filter_empty_conv)
      then have "filter (\<lambda>y. key z \<le> key y) ys = filter (\<lambda>y. key z \<le> key y) (take i ys)"
        by (metis append_take_drop_id append_Nil2 filter_append)
      then have "length (filter (\<lambda>y. key z \<le> key y) ys) \<le> i" by (metis length_filter_le length_take min.bounded_iff)
      then show False using rest z i(1) by fastforce
    qed
    have "sorted_wrt (\<lambda>a b. key b \<le> key a) (take k ys @ drop k ys)" using desc by simp
    then have "\<forall>a \<in> set (take k ys). \<forall>b \<in> set (drop k ys). key b \<le> key a" "sorted_wrt (\<lambda>a b. key b \<le> key a) (take k ys)"
      unfolding sorted_wrt_append by blast+
    moreover have "sorted_wrt (\<lambda>a b. key b \<le> key a) (sort_key (\<lambda>x. - key x) (drop k ys @ zs))"
      using sorted_sort_key [of "\<lambda>x. - key x" "drop k ys @ zs"] by (simp add: sorted_map)
    ultimately show ?thesis using low by (auto simp: rank_def sorted_wrt_append)
  qed
  ultimately show ?thesis by blast
qed

definition hit_of :: "scores \<Rightarrow> (u32 \<Rightarrow> bytes) \<Rightarrow> u32 \<Rightarrow> Hit" where
  "hit_of scr src d = \<lparr>hit_DocID = d, hit_Score = scr d, hit_Source = Some (src d)\<rparr>"

text \<open>The hits for all live matching documents, segment by segment.\<close>

definition view_hits ::
  "'v fastjson \<Rightarrow> unicode \<Rightarrow> (string \<Rightarrow> Token list) \<Rightarrow> Schema \<Rightarrow> Node \<Rightarrow> bytes list \<times> u32 set \<Rightarrow> scores \<Rightarrow> Hit list" where
  "view_hits FJ U tok sc q v scr = map (hit_of scr (\<lambda>d. fst v ! unat d)) (sorted_list_of_set (view_answer FJ U tok sc q v))"

definition all_hits ::
  "'v fastjson \<Rightarrow> unicode \<Rightarrow> (string \<Rightarrow> Token list) \<Rightarrow> Schema \<Rightarrow> Node \<Rightarrow> (bytes list \<times> u32 set) list \<Rightarrow> (nat \<Rightarrow> scores) \<Rightarrow> Hit list" where
  "all_hits FJ U tok sc q vs scrs = concat (map (\<lambda>i. view_hits FJ U tok sc q (vs ! i) (scrs i)) [0..<length vs])"

lemma mset_sorted_set: "mset (sorted_list_of_set (A :: u32 set)) = mset_set A"
  using mset_set_set [OF distinct_sorted_list_of_set [of A]] by simp

lemma best_hits_rest:
  assumes b: "best_hits k M scr src hits"
  shows "\<exists>zs. mset (map (hit_of scr src) (sorted_list_of_set M)) = mset (hits @ zs) \<and>
    (\<forall>z \<in> set zs. nat k \<le> length (filter (\<lambda>y. hit_Score z \<le> hit_Score y) hits))"
proof -
  let ?ids = "map hit_DocID hits"
  let ?zs = "map (hit_of scr src) (sorted_list_of_set (M - set ?ids))"
  have len: "length hits = min (nat k) (card M)" and dist: "distinct ?ids" and sub: "set ?ids \<subseteq> M"
    and hits: "\<forall>h \<in> set hits. hit_Score h = scr (hit_DocID h) \<and> hit_Source h = Some (src (hit_DocID h)) \<and>
      (\<forall>d \<in> M - set ?ids. scr d \<le> hit_Score h)" using b unfolding best_hits_def by blast+
  have eq: "map (hit_of scr src) ?ids = hits" using hits by (auto simp: hit_of_def intro!: map_idI)
  have "mset_set M = mset_set (set ?ids) + mset_set (M - set ?ids)"
    using sub by (metis Diff_disjoint Diff_partition finite mset_set_Union)
  then have "mset (sorted_list_of_set M) = mset ?ids + mset (sorted_list_of_set (M - set ?ids))"
    using mset_set_set [OF dist] by (simp only: mset_sorted_set)
  then have "image_mset (hit_of scr src) (mset (sorted_list_of_set M)) = mset (map (hit_of scr src) ?ids) + mset ?zs"
    by (simp only: image_mset_union mset_map)
  then have "mset (map (hit_of scr src) (sorted_list_of_set M)) = mset (hits @ ?zs)" unfolding eq by simp
  moreover have "nat k \<le> length (filter (\<lambda>y. hit_Score z \<le> hit_Score y) hits)" if z: "z \<in> set ?zs" for z
  proof -
    obtain d where d: "d \<in> M - set ?ids" "z = hit_of scr src d" using z by auto
    have "scr d \<le> hit_Score h" if "h \<in> set hits" for h using hits d(1) that by blast
    then have "filter (\<lambda>y. hit_Score z \<le> hit_Score y) hits = hits" using d(2) by (intro filter_True) (simp add: hit_of_def)
    moreover have "card (set ?ids) < card M" using d(1) sub by (intro psubset_card_mono) auto
    then have "length hits < card M" using distinct_card [OF dist] by simp
    ultimately show ?thesis using len by simp
  qed
  ultimately show ?thesis by blast
qed

lemma best_parts:
  assumes "\<forall>i \<in> set ns. best_hits k (M i) (scr i) (src i) (hits i)"
  shows "\<exists>zs. mset (concat (map (\<lambda>i. map (hit_of (scr i) (src i)) (sorted_list_of_set (M i))) ns)) =
      mset (concat (map hits ns) @ zs) \<and>
    (\<forall>z \<in> set zs. nat k \<le> length (filter (\<lambda>y. hit_Score z \<le> hit_Score y) (concat (map hits ns))))"
  using assms
proof (induction ns)
  case (Cons i ns)
  obtain zs where zs: "mset (concat (map (\<lambda>i. map (hit_of (scr i) (src i)) (sorted_list_of_set (M i))) ns)) = mset (concat (map hits ns) @ zs)"
    "\<forall>z \<in> set zs. nat k \<le> length (filter (\<lambda>y. hit_Score z \<le> hit_Score y) (concat (map hits ns)))"
    using Cons by auto
  obtain zi where zi: "mset (map (hit_of (scr i) (src i)) (sorted_list_of_set (M i))) = mset (hits i @ zi)"
    "\<forall>z \<in> set zi. nat k \<le> length (filter (\<lambda>y. hit_Score z \<le> hit_Score y) (hits i))"
    using best_hits_rest [of k "M i" "scr i" "src i" "hits i"] Cons.prems by auto
  show ?case
  proof (intro exI [of _ "zi @ zs"] conjI ballI)
    show "mset (concat (map (\<lambda>i. map (hit_of (scr i) (src i)) (sorted_list_of_set (M i))) (i # ns))) =
        mset (concat (map hits (i # ns)) @ zi @ zs)" using zs(1) zi(1) by simp
    show "nat k \<le> length (filter (\<lambda>y. hit_Score z \<le> hit_Score y) (concat (map hits (i # ns))))" if "z \<in> set (zi @ zs)" for z
      using that zs(2) zi(2) by (auto intro: trans_le_add1 trans_le_add2)
  qed
qed simp

lemma merged_window:
  assumes parts: "\<forall>i \<in> set ns. best_hits k (M i) (scr i) (src i) (hits i)" and srt: "slice_sort srt" and k: "a + b = nat k"
  shows "\<exists>rank. mset rank = mset (concat (map (\<lambda>i. map (hit_of (scr i) (src i)) (sorted_list_of_set (M i))) ns)) \<and>
    sorted_wrt (\<lambda>x y. hit_Score y \<le> hit_Score x) rank \<and>
    take b (drop a (srt (\<lambda>x. - hit_Score x) (concat (map hits ns)))) = take b (drop a rank)"
proof -
  let ?ys = "srt (\<lambda>x. - hit_Score x) (concat (map hits ns))"
  have ys: "mset ?ys = mset (concat (map hits ns))" "sorted (map (\<lambda>x. - hit_Score x) ?ys)"
    using srt by (simp_all add: slice_sort_def)
  obtain zs where zs: "mset (concat (map (\<lambda>i. map (hit_of (scr i) (src i)) (sorted_list_of_set (M i))) ns)) = mset (concat (map hits ns) @ zs)"
    "\<forall>z \<in> set zs. nat k \<le> length (filter (\<lambda>y. hit_Score z \<le> hit_Score y) (concat (map hits ns)))"
    using best_parts [OF parts] by blast
  have "length (filter P ?ys) = length (filter P (concat (map hits ns)))" for P
    using ys(1) by (metis mset_filter size_mset)
  then have "\<forall>z \<in> set zs. nat k \<le> length (filter (\<lambda>y. hit_Score z \<le> hit_Score y) ?ys)" using zs(2) by simp
  moreover have "sorted_wrt (\<lambda>x y. hit_Score y \<le> hit_Score x) ?ys" using ys(2) by (simp add: sorted_map)
  ultimately obtain rank where rank: "mset rank = mset (?ys @ zs)" "sorted_wrt (\<lambda>x y. hit_Score y \<le> hit_Score x) rank"
    "take (nat k) rank = take (nat k) ?ys" using top_of_all [of hit_Score ?ys zs "nat k"] by blast
  have "take b (drop a xs) = drop a (take (nat k) xs)" for xs :: "Hit list" using k [symmetric] by (simp add: drop_take)
  then show ?thesis using rank zs(1) ys(1) by (intro exI [of _ rank]) simp
qed

section \<open>Searching an index\<close>

lemma sint_add_nowrap:
  "0 \<le> sint (a :: i64) \<Longrightarrow> 0 \<le> sint b \<Longrightarrow> sint a + sint b < 2 ^ 63 \<Longrightarrow> sint (a + b) = sint a + sint b"
  by (simp add: sint_word_add signed_take_bit_int_eq_self)

lemma sum_of_cards: "sum_list (map (\<lambda>i. word_of_nat (f i)) is) = (word_of_nat (sum_list (map f is)) :: u64)"
  by (induction "is") simp_all

lemma match_total_nth:
  "match_total FJ U tok sc q vs = sum_list (map (\<lambda>i. card (view_answer FJ U tok sc q (vs ! i))) [0..<length vs])"
proof -
  have "map (\<lambda>v. card (view_answer FJ U tok sc q v)) vs = map (\<lambda>i. card (view_answer FJ U tok sc q (vs ! i))) [0..<length vs]"
    by (rule nth_equalityI) simp_all
  then show ?thesis unfolding match_total_def by (rule arg_cong)
qed

lemma Search_view:
  assumes store: "blob_store B objects" and R: "roaring_ok R" and V: "vellum_ok V" and Z: "zstd_ok Z" and srt: "slice_sort srt"
    and log: "manifest_log J (rq_Index req) (objects s) (ms @ [mf])"
    and view: "index_view R Z V FJ U tok sc (rq_Index req) (objects s) (ActiveSegments mf) vs"
    and q: "node_ok (req_Query req)" and h: "cache_ok V (objects s) h"
    and win: "0 \<le> sint (req_From req)" "0 \<le> sint (req_Size req)" "sint (req_From req) + sint (req_Size req) < 2 ^ 63"
    and order: "set order = {..<length (ActiveSegments mf)}"
  shows "\<exists>resp h' scrs rank. Search V R Z srt B J s spare tok order req h = (Ok resp, h') \<and> cache_ok V (objects s) h' \<and>
    rs_TotalHits resp = word_of_nat (match_total FJ U tok sc (req_Query req) vs) \<and>
    mset rank = mset (all_hits FJ U tok sc (req_Query req) vs scrs) \<and>
    sorted_wrt (\<lambda>x y. hit_Score y \<le> hit_Score x) rank \<and>
    rs_Hits resp = take (nat (sint (req_Size req))) (drop (nat (sint (req_From req))) rank) \<and> rs_Size resp = length (rs_Hits resp)"
proof -
  let ?segs = "ActiveSegments mf" and ?q = "req_Query req" and ?name = "rq_Index req"
  let ?k = "sint (req_From req + req_Size req)"
  have view': "list_all2 (holds_segment R Z V FJ U tok sc ?name (objects s)) ?segs vs" using view by (simp add: index_view_def)
  then have len: "length ?segs = length vs" by (rule list_all2_lengthD)
  have latest: "ms_Latest B J ?name s = Ok (Some mf)" using blob_store.Latest_log [OF store, OF log] by (simp add: log_last_def)
  show ?thesis
  proof (cases "?segs = []")
    case True
    then show ?thesis
      using latest h len by (simp add: Search_def empty_response_def match_total_def all_hits_def)
  next
    case False
    have k: "?k = sint (req_From req) + sint (req_Size req)" using sint_add_nowrap [OF win] .
    let ?f = "searchSegment V R Z srt B s spare tok ?name ?q ?k"
    let ?Q = "\<lambda>i r. \<exists>pr scr. r = Ok pr \<and> partial_of FJ U tok sc ?q ?k (vs ! i) scr pr"
    have "\<exists>results h'. run_segments ?f ?segs order (\<lambda>_. None, h) = (results, h') \<and> cache_ok V (objects s) h' \<and>
        (\<forall>i. if i \<in> set order then \<exists>r. results i = Some r \<and> ?Q i r else results i = None)"
    proof (rule run_segments_all)
      fix i h1 assume i: "i \<in> set order" and h1: "cache_ok V (objects s) h1"
      have "holds_segment R Z V FJ U tok sc ?name (objects s) (?segs ! i) (vs ! i)"
        using i order view' by (simp add: list_all2_conv_all_nth)
      from searchSegment_view [OF store, OF R V Z srt this q _ h1, of ?k spare]
      show "\<exists>r h'. ?f (?segs ! i) h1 = (r, h') \<and> cache_ok V (objects s) h' \<and> ?Q i r" using k win by fastforce
    qed (rule h)
    then obtain results h' where run: "run_segments ?f ?segs order (\<lambda>_. None, h) = (results, h')" "cache_ok V (objects s) h'"
      and all: "\<forall>i. if i \<in> set order then \<exists>r. results i = Some r \<and> ?Q i r else results i = None" by blast
    then have "\<forall>i \<in> {..<length vs}. \<exists>p. results i = Some (Ok (fst p)) \<and> partial_of FJ U tok sc ?q ?k (vs ! i) (snd p) (fst p)"
    proof -
      have "\<exists>p. results i = Some (Ok (fst p)) \<and> partial_of FJ U tok sc ?q ?k (vs ! i) (snd p) (fst p)" if "i < length vs" for i
        using all [rule_format, of i] that order len by auto
      then show ?thesis by simp
    qed
    then obtain p where p: "\<forall>i \<in> {..<length vs}. results i = Some (Ok (fst (p i))) \<and> partial_of FJ U tok sc ?q ?k (vs ! i) (snd (p i)) (fst (p i))"
      using bchoice by meson
    let ?hits = "\<lambda>i. pr_Hits (fst (p i))"
    have merge: "res_foldl (merge_step results) ([], 0) [0..<length ?segs] =
        Ok (concat (map ?hits [0..<length vs]), word_of_nat (match_total FJ U tok sc ?q vs))"
    proof -
      have "map (\<lambda>i. pr_TotalHits (fst (p i))) [0..<length vs] =
          map (\<lambda>i. word_of_nat (card (view_answer FJ U tok sc ?q (vs ! i)))) [0..<length vs]"
        using p by (simp add: partial_of_def)
      then have "sum_list (map (\<lambda>i. pr_TotalHits (fst (p i))) [0..<length vs]) = word_of_nat (match_total FJ U tok sc ?q vs)"
        using sum_of_cards [of "\<lambda>i. card (view_answer FJ U tok sc ?q (vs ! i))" "[0..<length vs]"]
        by (simp only: match_total_nth)
      then show ?thesis
        using merge_all [of "[0..<length vs]" results "\<lambda>i. fst (p i)" "([], 0)"] p len by simp
    qed
    obtain rank where rank: "mset rank = mset (all_hits FJ U tok sc ?q vs (\<lambda>i. snd (p i)))"
      "sorted_wrt (\<lambda>x y. hit_Score y \<le> hit_Score x) rank"
      "take (nat (sint (req_Size req))) (drop (nat (sint (req_From req))) (srt (\<lambda>x. - hit_Score x) (concat (map ?hits [0..<length vs])))) =
        take (nat (sint (req_Size req))) (drop (nat (sint (req_From req))) rank)"
      using merged_window [where ns = "[0..<length vs]" and k = ?k and M = "\<lambda>i. view_answer FJ U tok sc ?q (vs ! i)" and
          scr = "\<lambda>i. snd (p i)" and src = "\<lambda>i d. fst (vs ! i) ! unat d" and hits = ?hits, OF _ srt,
          of "nat (sint (req_From req))" "nat (sint (req_Size req))"] p k win
      by (auto simp: partial_of_def all_hits_def view_hits_def nat_add_distrib)
    define pg where "pg = take (nat (sint (req_Size req))) (drop (nat (sint (req_From req))) rank)"
    have "page (req_From req) (req_Size req) (srt (\<lambda>x. - hit_Score x) (concat (map ?hits [0..<length vs]))) = Ok pg"
      using page_window [OF win(1,2)] rank(3) by (simp only: pg_def)
    then have "Search V R Z srt B J s spare tok order req h =
        (Ok \<lparr>rs_TotalHits = word_of_nat (match_total FJ U tok sc ?q vs), rs_From = req_From req,
          rs_Size = length pg, rs_Hits = pg\<rparr>, h')"
      using latest False run(1) merge by (simp add: Search_def Let_def)
    then show ?thesis using run(2) rank(1,2) by (intro exI conjI) (assumption | simp add: pg_def)+
  qed
qed

section \<open>A window that overflows\<close>

lemma sint_add_wraps: "2 ^ 63 \<le> sint (a :: i64) + sint b \<Longrightarrow> sint (a + b) < 0"
proof -
  assume le: "2 ^ 63 \<le> sint a + sint b"
  have "sint a < 2 ^ 63" "sint b < 2 ^ 63" using sint_lt [of a] sint_lt [of b] by simp_all
  moreover have "signed_take_bit 63 (sint a + sint b) \<le> sint a + sint b - 2 ^ Suc 63"
    by (rule signed_take_bit_int_less_eq) (rule le)
  moreover have "sint (a + b) = signed_take_bit 63 (sint a + sint b)" by (simp add: sint_word_add)
  moreover have "(2 :: int) ^ Suc 63 = 2 ^ 63 + 2 ^ 63" by simp
  ultimately show ?thesis by linarith
qed

lemma SegmentSearch_negative:
  assumes store: "blob_store B objects" and R: "roaring_ok R" and V: "vellum_ok V" and Z: "zstd_ok Z"
    and s: "searchable R Z V FJ U tok sc docs (objects s) key hc" and q: "node_ok q" and k: "k < 0"
  shows "SegmentSearch V R Z srt B s tok key hc q k del = Panic"
proof -
  obtain flds blks where rd: "seg_NewReader B s key = Ok (built_reader key R flds blks (word_of_nat (length docs)))"
    and sv: "serves_segment V R B s (built_reader key R flds blks (word_of_nat (length docs))) hc flds"
    using searchable_serves [OF store, OF R V Z s] by blast
  obtain xs where "execNode V R B s tok (built_reader key R flds blks (word_of_nat (length docs))) hc q del = Ok xs"
    using execNode_served [OF sv q, of tok del] by blast
  then show ?thesis using rd k by (simp add: SegmentSearch_def top_k_def Let_def)
qed

lemma searchSegment_negative:
  assumes store: "blob_store B objects" and R: "roaring_ok R" and V: "vellum_ok V" and Z: "zstd_ok Z"
    and seg: "holds_segment R Z V FJ U tok sc name (objects s) meta v"
    and q: "node_ok q" and k: "k < 0" and h: "cache_ok V (objects s) h"
  shows "\<exists>h'. searchSegment V R Z srt B s spare tok name q k meta h = (Panic, h') \<and> cache_ok V (objects s) h'"
proof -
  obtain hc h' ex where op: "fetch_hotcache V B s spare (SegmentKey name (sm_ID meta) ''.hotcache'') h = (Ok hc, h')"
    "cache_ok V (objects s) h'" "seg_del_bitmap R B s name meta = Ok ex"
    and se: "searchable R Z V FJ U tok sc (fst v) (objects s) (SegmentKey name (sm_ID meta) ''.seg'') hc"
    using segment_opened [where spare = spare, OF store, OF R V seg h] by blast
  then show ?thesis
    using SegmentSearch_negative [OF store, OF R V Z se q k] by (auto simp: searchSegment_def Let_def)
qed

lemma Search_overflow:
  assumes store: "blob_store B objects" and R: "roaring_ok R" and V: "vellum_ok V" and Z: "zstd_ok Z"
    and log: "manifest_log J (rq_Index req) (objects s) (ms @ [mf])"
    and view: "index_view R Z V FJ U tok sc (rq_Index req) (objects s) (ActiveSegments mf) vs"
    and q: "node_ok (req_Query req)" and h: "cache_ok V (objects s) h"
    and wrap: "2 ^ 63 \<le> sint (req_From req) + sint (req_Size req)"
    and order: "set order = {..<length (ActiveSegments mf)}" and ne: "ActiveSegments mf \<noteq> []"
  shows "\<exists>h'. Search V R Z srt B J s spare tok order req h = (Panic, h')"
proof -
  let ?segs = "ActiveSegments mf" and ?q = "req_Query req" and ?name = "rq_Index req" and ?k = "sint (req_From req + req_Size req)"
  let ?f = "searchSegment V R Z srt B s spare tok ?name ?q ?k"
  have view': "list_all2 (holds_segment R Z V FJ U tok sc ?name (objects s)) ?segs vs" using view by (simp add: index_view_def)
  have latest: "ms_Latest B J ?name s = Ok (Some mf)" using blob_store.Latest_log [OF store, OF log] by (simp add: log_last_def)
  have k: "?k < 0" using wrap by (rule sint_add_wraps)
  have "\<exists>results h'. run_segments ?f ?segs order (\<lambda>_. None, h) = (results, h') \<and> cache_ok V (objects s) h' \<and>
      (\<forall>i. if i \<in> set order then \<exists>r. results i = Some r \<and> r = Panic else results i = None)"
  proof (rule run_segments_all)
    fix i h1 assume i: "i \<in> set order" and h1: "cache_ok V (objects s) h1"
    have "holds_segment R Z V FJ U tok sc ?name (objects s) (?segs ! i) (vs ! i)"
      using i order view' by (simp add: list_all2_conv_all_nth)
    from searchSegment_negative [where spare = spare and srt = srt, OF store, OF R V Z this q k h1]
    show "\<exists>r h'. ?f (?segs ! i) h1 = (r, h') \<and> cache_ok V (objects s) h' \<and> r = Panic" by blast
  qed (rule h)
  then obtain results h' where run: "run_segments ?f ?segs order (\<lambda>_. None, h) = (results, h')"
    and all: "\<forall>i. if i \<in> set order then \<exists>r. results i = Some r \<and> r = Panic else results i = None" by blast
  have "results 0 = Some Panic" using all [rule_format, of 0] order ne by simp
  moreover have "[0..<length ?segs] = 0 # [1..<length ?segs]" using ne by (simp add: upt_conv_Cons)
  ultimately have "res_foldl (merge_step results) ([], 0) [0..<length ?segs] = Panic" by (simp add: merge_step_def)
  then show ?thesis using latest ne run by (simp add: Search_def Let_def)
qed

section \<open>Properties\<close>


text \<open>C17: A request that the parser accepts can end the process: when offset plus size exceeds the
  largest 64-bit integer (which the check of the window lets through), searching any index with at
  least one active segment panics, because each segment is asked for a negative number of hits.\<close>

theorem search_window_overflow_panics:
  assumes "blob_store B objects" and "roaring_ok R" and "vellum_ok V" and "zstd_ok Z"
    and "query_json_ok QJ" and "ParseRequest QJ body = Ok sp" and "2 ^ 63 \<le> sint (sp_From sp) + sint (sp_Size sp)"
    and "manifest_log J name (objects s) (ms @ [mf])" and "ActiveSegments mf \<noteq> []"
    and "index_view R Z V FJ U tok sc name (objects s) (ActiveSegments mf) vs"
    and "set order = {..<length (ActiveSegments mf)}" and "cache_ok V (objects s) h"
  shows "fst (Search V R Z srt B J s spare tok order
    \<lparr>rq_Index = name, req_Query = sp_Query sp, req_Size = sp_Size sp, req_From = sp_From sp\<rparr> h) = Panic"
proof -
  let ?req = "\<lparr>rq_Index = name, req_Query = sp_Query sp, req_Size = sp_Size sp, req_From = sp_From sp\<rparr>"
  have "node_ok (sp_Query sp)" using ParseRequest_window [OF assms(5), of body] assms(6) by auto
  then have "\<exists>h'. Search V R Z srt B J s spare tok order ?req h = (Panic, h')"
    using assms(7-12) by (intro Search_overflow [OF assms(1), OF assms(2-4)]) simp_all
  then show ?thesis by auto
qed

section \<open>Examples\<close>

lemma example_view_answer:
  "view_answer cat_json ascii (Tokenize ascii) example_schema (value_node NodeTerm ''body'' ''cat'') ([[0x31]], {}) = {0}"
  using example_answer by (simp add: view_answer_def)

lemma example_active: "ActiveSegments example_manifest = [example_meta]"
  by (simp add: ActiveSegments_def example_manifest_def next_manifest_def example_meta_def)


text \<open>A decoder that knows one request: everything, from the largest offset, ten hits.\<close>

definition huge_request_json :: query_json where
  "huge_request_json = \<lparr>qj_node = (\<lambda>_. Err (ErrMsg ''syntax'')),
     qj_request = (\<lambda>_. Ok \<lparr>rq_Query = [], rq_Size = 0, rq_From = 0x7fffffffffffffff\<rparr>),
     qj_string = (\<lambda>_. Err (ErrMsg ''syntax'')), qj_int64 = (\<lambda>_. Err (ErrMsg ''syntax''))\<rparr>"

theorem search_window_overflow_panics_witness:
  "\<exists>J s sp. ParseRequest huge_request_json [] = Ok sp \<and>
    fst (Search list_vellum list_roaring id_zstd insertion_sort mem_BlobStore J s (\<lambda>_. []) (Tokenize ascii) [0]
      \<lparr>rq_Index = ''idx'', req_Query = sp_Query sp, req_Size = sp_Size sp, req_From = sp_From sp\<rparr> (New_cache 4)) = Panic"
proof -
  let ?vs = "[([[0x31]], {})] :: (bytes list \<times> u32 set) list" and ?J = "table_json [example_manifest]"
  let ?sp = "\<lparr>sp_Query = MatchAll, sp_Size = 10, sp_From = 0x7fffffffffffffff\<rparr>"
  obtain s where log: "manifest_log ?J ''idx'' (mem_content s) [example_manifest]"
    and view: "index_view list_roaring id_zstd list_vellum cat_json ascii (Tokenize ascii) example_schema ''idx''
      (mem_content s) (ActiveSegments example_manifest) ?vs"
    using example_index [of "[]"] by blast
  have max: "sint (word_of_int MaxSearchSize :: i64) = 10000" by code_simp
  have sints: "sint (0x7fffffffffffffff :: i64) = 0x7fffffffffffffff" "sint (0x7fffffffffffffff + 10 :: i64) = - 9223372036854775799" by code_simp+
  have parse: "ParseRequest huge_request_json [] = Ok ?sp"
    using sints by (simp add: ParseRequest_def huge_request_json_def MaxSearchSize_def Let_def)
  have "fst (Search list_vellum list_roaring id_zstd insertion_sort mem_BlobStore ?J s (\<lambda>_. []) (Tokenize ascii) [0]
      \<lparr>rq_Index = ''idx'', req_Query = sp_Query ?sp, req_Size = sp_Size ?sp, req_From = sp_From ?sp\<rparr> (New_cache 4)) = Panic"
  proof (rule search_window_overflow_panics [OF mem.blob_store_axioms, OF list_roaring_ok list_vellum_ok id_zstd_ok _ parse])
    show "query_json_ok huge_request_json" by (simp add: query_json_ok_def huge_request_json_def)
    show "2 ^ 63 \<le> sint (sp_From ?sp) + sint (sp_Size ?sp)" using sints by simp
    show "manifest_log ?J ''idx'' (mem_content s) ([] @ [example_manifest])" using log by simp
    show "set [0] = {..<length (ActiveSegments example_manifest)}" by (simp add: example_active lessThan_Suc)
  qed (use view cache_ok_New in \<open>simp_all add: example_active\<close>)
  then show ?thesis using parse by (intro exI [of _ ?J] exI [of _ s] exI [of _ ?sp] conjI)
qed

end
