(* ===== verification/Compactor.thy ===== *)
theory Compactor
  imports Delete
begin

text \<open>
  Compaction and garbage collection (\<open>src/pkg/index/compactor.go\<close>). A compaction picks several
  active segments, indexes their live documents again into one new segment and publishes a manifest
  in which the old segments are marked deleted and the new one is listed. Garbage collection removes
  the objects of all segments that are not active. The clock readings (\<open>now\<close>, \<open>nano\<close>, \<open>millis\<close>), the
  order in which Go iterates over the map of tiers (\<open>order\<close>) and \<open>sort.Slice\<close> (\<open>srt\<close>, \<open>srtC\<close>) are
  arguments; \<open>encoding/json\<close> for single members of a document is the parameter \<open>RJ\<close>. Logging and
  metrics are left out, and so is the timer loop \<open>Run\<close>, which only calls \<open>CompactOnce\<close>.

  Results: a compaction takes at least four segments to at most one and keeps in it exactly their
  live documents without repeated identifiers; garbage collection removes exactly the objects of
  segments that the latest manifest does not list as active.
\<close>

section \<open>Choosing segments\<close>

definition minMergeCount :: nat where "minMergeCount = 4"

text \<open>\<open>bits.Len64\<close>.\<close>

fun bit_len :: "nat \<Rightarrow> nat" where
  "bit_len n = (if n = 0 then 0 else Suc (bit_len (n div 2)))"

declare bit_len.simps [simp del]

definition seg_tier :: "SegmentMeta \<Rightarrow> nat" where
  "seg_tier s = (let b = sm_Bytes s; b = (if b \<le> 0 then 1 else b) in bit_len (nat b))"

definition tierMap :: "SegmentMeta list \<Rightarrow> nat \<Rightarrow> SegmentMeta list" where
  "tierMap segs = foldl (\<lambda>m s. m(seg_tier s := m (seg_tier s) @ [s])) (\<lambda>_. []) segs"

definition pickMergeCandidates ::
  "((SegmentMeta \<Rightarrow> int) \<Rightarrow> SegmentMeta list \<Rightarrow> SegmentMeta list) \<Rightarrow> nat list \<Rightarrow> SegmentMeta list \<Rightarrow> SegmentMeta list" where
  "pickMergeCandidates srt order segs =
     (if segs = [] then []
      else let best = foldl (\<lambda>best tier. let v = tierMap segs tier in
             if minMergeCount \<le> length v \<and> length best < length v then v else best) [] order
        in if best = [] then
             if minMergeCount \<le> length segs then take minMergeCount (srt sm_Bytes segs) else []
           else best)"

section \<open>Re-indexing\<close>

record raw_json =
  rj_Map :: "bytes \<Rightarrow> (string \<rightharpoonup> bytes) option"
  rj_String :: "bytes \<Rightarrow> string option"

definition extractField :: "raw_json \<Rightarrow> bytes \<Rightarrow> string \<Rightarrow> string" where
  "extractField RJ rawJSON fld =
     (case rj_Map RJ rawJSON of None \<Rightarrow> ''''
      | Some m \<Rightarrow>
        (case m fld of None \<Rightarrow> ''''
         | Some v \<Rightarrow> (case rj_String RJ v of None \<Rightarrow> '''' | Some x \<Rightarrow> x)))"

text \<open>The callback that \<open>reindexSegment\<close> gives to \<open>IterateDocs\<close>; it changes the memtable and \<open>seenIDs\<close>.\<close>

definition reindex_doc ::
  "'b roaring \<Rightarrow> zstd \<Rightarrow> 'v fastjson \<Rightarrow> unicode \<Rightarrow> (string \<Rightarrow> Token list) \<Rightarrow> raw_json \<Rightarrow> string
     \<Rightarrow> u32 \<Rightarrow> bytes \<Rightarrow> 'b Memtable \<times> string set \<Rightarrow> unit result \<times> 'b Memtable \<times> string set" where
  "reindex_doc R Z FJ U tok RJ idField docID rawJSON st =
     (let (mt, seen) = st; i = extractField RJ rawJSON idField in
      if idField \<noteq> '''' \<and> i \<noteq> '''' \<and> i \<in> seen then (Ok (), st)
      else let seen = (if idField \<noteq> '''' \<and> i \<noteq> '''' then insert i seen else seen) in
        case mt_Add R Z FJ U tok mt rawJSON of (r, mt) \<Rightarrow> (r, mt, seen))"

definition reindexSegment ::
  "('w, 'f) vellum \<Rightarrow> 'b roaring \<Rightarrow> zstd \<Rightarrow> 'v fastjson \<Rightarrow> unicode \<Rightarrow> (string \<Rightarrow> Token list) \<Rightarrow> raw_json \<Rightarrow> 's BlobStore \<Rightarrow> 's
     \<Rightarrow> (string \<Rightarrow> bytes) \<Rightarrow> string \<Rightarrow> string \<Rightarrow> SegmentMeta \<Rightarrow> 'b Memtable \<times> string set \<Rightarrow> unit result \<times> 'b Memtable \<times> string set" where
  "reindexSegment V R Z FJ U tok RJ B s spare indexName idField meta st =
     (let hcKey = SegmentKey indexName (sm_ID meta) ''.hotcache'' in
      st_bind (res_wrap ''fetch hotcache'' (bs_Get B s hcKey), st) (\<lambda>hcData st.
      st_bind (DecodeHotcache V hcData (spare hcKey), st) (\<lambda>hc st.
      st_bind (seg_del_bitmap R B s indexName meta, st) (\<lambda>delBitmap st.
      st_bind (seg_NewReader B s (SegmentKey indexName (sm_ID meta) ''.seg''), st) (\<lambda>reader st.
      IterateDocs R Z B s reader hc delBitmap (reindex_doc R Z FJ U tok RJ idField) st)))))"

fun reindex_all ::
  "(SegmentMeta \<Rightarrow> 'm \<Rightarrow> unit result \<times> 'm) \<Rightarrow> SegmentMeta list \<Rightarrow> 'm \<Rightarrow> unit result \<times> 'm" where
  "reindex_all f [] st = (Ok (), st)"
| "reindex_all f (meta # metas) st = st_bind (st_wrap ''reindex seg'' (f meta st)) (\<lambda>_ st. reindex_all f metas st)"

section \<open>Merging\<close>

definition newSegmentID :: "int \<Rightarrow> string" where
  "newSegmentID nano = int_string nano"

definition mark_ids :: "string set \<Rightarrow> SegmentMeta list \<Rightarrow> SegmentMeta list" where
  "mark_ids ids segs = map (\<lambda>s. if sm_ID s \<in> ids then s\<lparr>sm_Deleted := True\<rparr> else s) segs"

definition markDeleted ::
  "'s BlobStore \<Rightarrow> manifest_json \<Rightarrow> (nat \<Rightarrow> int) \<Rightarrow> string \<Rightarrow> SegmentMeta list \<Rightarrow> 's \<Rightarrow> unit result \<times> 's" where
  "markDeleted B J now indexName candidates s =
     st_bind (ms_PublishTransform B J indexName now s (mark_ids (sm_ID ` set candidates)) 5) (\<lambda>_ s. (Ok (), s))"

definition new_meta :: "int \<Rightarrow> int \<Rightarrow> Result \<Rightarrow> SegmentMeta" where
  "new_meta nano millis result =
     \<lparr>sm_ID = newSegmentID nano, sm_DocCount = res_DocCount result, sm_Bytes = int (length (SegBytes result)),
      sm_MinTS = 0, sm_MaxTS = 0, sm_CreatedAt = millis, sm_DelVersion = 0, sm_Deleted = False\<rparr>"

definition compact_merge ::
  "('w, 'f) vellum \<Rightarrow> 'b roaring \<Rightarrow> zstd \<Rightarrow> 'v fastjson \<Rightarrow> unicode \<Rightarrow> (string \<Rightarrow> Token list) \<Rightarrow> raw_json \<Rightarrow> 's BlobStore
     \<Rightarrow> manifest_json \<Rightarrow> (string \<Rightarrow> bytes) \<Rightarrow> ((SegmentMeta \<Rightarrow> int) \<Rightarrow> SegmentMeta list \<Rightarrow> SegmentMeta list)
     \<Rightarrow> (nat \<Rightarrow> int) \<Rightarrow> int \<Rightarrow> int \<Rightarrow> Schema \<Rightarrow> string \<Rightarrow> SegmentMeta list \<Rightarrow> 's \<Rightarrow> unit result \<times> 's" where
  "compact_merge V R Z FJ U tok RJ B J spare srtC now nano millis sc indexName candidates s =
     (let candidates = srtC sm_CreatedAt candidates in
      st_bind (NewMemtable Z sc, s) (\<lambda>mt s.
      case reindex_all (reindexSegment V R Z FJ U tok RJ B s spare indexName (sc_IDField sc)) (rev candidates) (mt, {}) of
        (Err e, _) \<Rightarrow> (Err e, s)
      | (Panic, _) \<Rightarrow> (Panic, s)
      | (Ok _, mt, _) \<Rightarrow>
        if mt_DocCount mt = 0 then markDeleted B J now indexName candidates s
        else st_bind (res_wrap ''compact: build segment'' (mt_Build R Z V mt), s) (\<lambda>result s.
          let newSegID = newSegmentID nano;
              segKey = SegmentKey indexName newSegID ''.seg'';
              hcKey = SegmentKey indexName newSegID ''.hotcache'' in
          st_bind (st_wrap ''upload compacted seg'' (bs_Put B s segKey (SegBytes result) no_opts)) (\<lambda>_ s.
          st_bind (st_wrap ''upload compacted hotcache'' (bs_Put B s hcKey (HotcacheBytes result) no_opts)) (\<lambda>_ s.
          st_bind (st_wrap ''compact: publish'' (ms_PublishTransform B J indexName now s
              (\<lambda>segs. mark_ids (sm_ID ` set candidates) segs @ [new_meta nano millis result]) 5)) (\<lambda>_ s.
          (Ok (), s)))))))"

definition CompactOnce ::
  "('w, 'f) vellum \<Rightarrow> 'b roaring \<Rightarrow> zstd \<Rightarrow> 'v fastjson \<Rightarrow> unicode \<Rightarrow> (string \<Rightarrow> Token list) \<Rightarrow> raw_json \<Rightarrow> 's BlobStore
     \<Rightarrow> manifest_json \<Rightarrow> (string \<Rightarrow> bytes) \<Rightarrow> ((SegmentMeta \<Rightarrow> int) \<Rightarrow> SegmentMeta list \<Rightarrow> SegmentMeta list) \<Rightarrow> nat list
     \<Rightarrow> (nat \<Rightarrow> int) \<Rightarrow> int \<Rightarrow> int \<Rightarrow> Schema \<Rightarrow> string \<Rightarrow> 's \<Rightarrow> unit result \<times> 's" where
  "CompactOnce V R Z FJ U tok RJ B J spare srt order now nano millis sc indexName s =
     st_bind (ms_Latest B J indexName s, s) (\<lambda>manifest s.
     case manifest of None \<Rightarrow> (Ok (), s)
     | Some m \<Rightarrow>
       let candidates = pickMergeCandidates srt order (ActiveSegments m) in
       if length candidates < 2 then (Ok (), s)
       else compact_merge V R Z FJ U tok RJ B J spare srt now nano millis sc indexName candidates s)"

section \<open>Garbage collection\<close>

definition extractSegIDFromKey :: "string \<Rightarrow> string" where
  "extractSegIDFromKey key =
     (case LastIndexByte key (CHR ''/'') of None \<Rightarrow> ''''
      | Some slash \<Rightarrow> takeWhile (\<lambda>c. c \<noteq> CHR ''.'') (drop (slash + 1) key))"

text \<open>A failing delete is logged and skipped.\<close>

fun gc_loop :: "'s BlobStore \<Rightarrow> string set \<Rightarrow> string list \<Rightarrow> 's \<Rightarrow> unit result \<times> 's" where
  "gc_loop B protected [] s = (Ok (), s)"
| "gc_loop B protected (key # keys) s =
     (let segID = extractSegIDFromKey key in
      if segID = '''' \<or> segID \<in> protected then gc_loop B protected keys s
      else case bs_Delete B s key of
          (Panic, s) \<Rightarrow> (Panic, s)
        | (_, s) \<Rightarrow> gc_loop B protected keys s)"

definition segments_prefix :: "string \<Rightarrow> string" where
  "segments_prefix indexName = indexName @ ''/segments/''"

definition GC :: "'s BlobStore \<Rightarrow> manifest_json \<Rightarrow> string \<Rightarrow> 's \<Rightarrow> unit result \<times> 's" where
  "GC B J indexName s =
     st_bind (ms_Latest B J indexName s, s) (\<lambda>manifest s.
     case manifest of None \<Rightarrow> (Ok (), s)
     | Some m \<Rightarrow>
       st_bind (bs_List B s (segments_prefix indexName), s) (\<lambda>keys s.
       gc_loop B (sm_ID ` set (ActiveSegments m)) keys s))"

section \<open>What is chosen\<close>

lemma tierMap_filter: "tierMap segs t = filter (\<lambda>s. seg_tier s = t) segs"
proof (induction segs arbitrary: t rule: rev_induct)
  case (snoc x xs)
  then show ?case by (simp add: tierMap_def)
qed (simp add: tierMap_def)

lemma best_tier:
  assumes "best = foldl (\<lambda>best tier. let v = f tier in if n \<le> length v \<and> length best < length v then v else best) [] order"
  shows "best = [] \<or> (\<exists>t \<in> set order. best = f t \<and> n \<le> length best)"
    and "\<forall>t \<in> set order. length (f t) < n \<or> length (f t) \<le> length best"
  using assms by (induction order arbitrary: best rule: rev_induct) (auto simp: Let_def)

lemma mset_take_subset: "mset (take n xs) \<subseteq># mset xs"
  by (metis append_take_drop_id mset_append mset_subset_eq_add_left)

text \<open>The choice: nothing from fewer than four segments; otherwise a whole largest tier of at least
  four, or, when no tier has four, the four smallest segments.\<close>

definition merge_choice :: "SegmentMeta list \<Rightarrow> SegmentMeta list \<Rightarrow> bool" where
  "merge_choice segs C \<longleftrightarrow>
     (if length segs < 4 then C = []
      else mset C \<subseteq># mset segs \<and> 4 \<le> length C \<and>
        ((\<exists>t. C = filter (\<lambda>s. seg_tier s = t) segs \<and> (\<forall>t'. length (filter (\<lambda>s. seg_tier s = t') segs) \<le> length C)) \<or>
         ((\<forall>t. length (filter (\<lambda>s. seg_tier s = t) segs) < 4) \<and> length C = 4 \<and>
          (\<forall>x \<in># mset segs - mset C. \<forall>c \<in> set C. sm_Bytes c \<le> sm_Bytes x))))"

lemma pickMergeCandidates_choice:
  assumes srt: "slice_sort srt" and order: "set order = seg_tier ` set segs"
  shows "merge_choice segs (pickMergeCandidates srt order segs)"
proof (cases "segs = []")
  case True
  then show ?thesis by (simp add: merge_choice_def pickMergeCandidates_def)
next
  case False
  let ?tier = "\<lambda>t. filter (\<lambda>s. seg_tier s = t) segs"
  define best where "best = foldl (\<lambda>best tier. let v = tierMap segs tier in
      if minMergeCount \<le> length v \<and> length best < length v then v else best) [] order"
  have tm: "tierMap segs = ?tier" by (simp add: tierMap_filter fun_eq_iff)
  have best: "best = [] \<or> (\<exists>t \<in> set order. best = ?tier t \<and> 4 \<le> length best)"
    "\<forall>t \<in> set order. length (?tier t) < 4 \<or> length (?tier t) \<le> length best"
    using best_tier [OF best_def] by (simp_all add: minMergeCount_def tm)
  have none: "?tier t = []" if "t \<notin> set order" for t using that order by (auto simp: filter_empty_conv)
  have pick: "pickMergeCandidates srt order segs =
      (if best = [] then if 4 \<le> length segs then take 4 (srt sm_Bytes segs) else [] else best)"
    using False by (simp add: pickMergeCandidates_def best_def Let_def minMergeCount_def)
  show ?thesis
  proof (cases "best = []")
    case True
    have small: "length (?tier t) < 4" for t
      using best(2) none [of t] True by (cases "t \<in> set order") auto
    show ?thesis
    proof (cases "length segs < 4")
      case False
      let ?ys = "srt sm_Bytes segs"
      have ys: "mset ?ys = mset segs" "sorted (map sm_Bytes ?ys)" using srt by (simp_all add: slice_sort_def)
      have split: "mset segs = mset (take 4 ?ys) + mset (drop 4 ?ys)" using ys(1) by (metis append_take_drop_id mset_append)
      have "sorted_wrt (\<lambda>a b. sm_Bytes a \<le> sm_Bytes b) (take 4 ?ys @ drop 4 ?ys)" using ys(2) by (simp add: sorted_map)
      then have "\<forall>c \<in> set (take 4 ?ys). \<forall>x \<in> set (drop 4 ?ys). sm_Bytes c \<le> sm_Bytes x" by (simp only: sorted_wrt_append) blast
      then have "\<forall>x \<in># mset segs - mset (take 4 ?ys). \<forall>c \<in> set (take 4 ?ys). sm_Bytes c \<le> sm_Bytes x"
        unfolding split by auto
      moreover have "length ?ys = length segs" using ys(1) by (metis size_mset)
      ultimately show ?thesis
        using pick True False small mset_take_subset [of 4 ?ys] ys(1) unfolding merge_choice_def by simp
    qed (use pick True in \<open>simp add: merge_choice_def\<close>)
  next
    case False
    then obtain t where t: "best = ?tier t" "4 \<le> length best" using best(1) by blast
    have "length (?tier t') \<le> length best" for t' using best(2) none [of t'] t(2) by (cases "t' \<in> set order") fastforce+
    moreover have "4 \<le> length segs" using t length_filter_le [of "\<lambda>s. seg_tier s = t" segs] by (metis order_trans)
    moreover have "mset best \<subseteq># mset segs" using t(1) by simp
    ultimately show ?thesis using False pick t unfolding merge_choice_def by auto
  qed
qed

section \<open>Re-indexing live documents\<close>

text \<open>The identifier of a document, empty when the schema has no identifier field or the document no
  string there, and the documents that are kept: the first of every identifier.\<close>

definition doc_id :: "raw_json \<Rightarrow> string \<Rightarrow> bytes \<Rightarrow> string" where
  "doc_id RJ idField raw = (if idField = '''' then '''' else extractField RJ raw idField)"

fun dedup :: "(bytes \<Rightarrow> string) \<Rightarrow> string set \<Rightarrow> bytes list \<Rightarrow> bytes list" where
  "dedup key seen [] = []"
| "dedup key seen (d # ds) =
     (if key d \<noteq> '''' \<and> key d \<in> seen then dedup key seen ds
      else d # dedup key (if key d = '''' then seen else insert (key d) seen) ds)"

definition ids_of :: "(bytes \<Rightarrow> string) \<Rightarrow> bytes list \<Rightarrow> string set" where
  "ids_of key ds = {key d | d. d \<in> set ds \<and> key d \<noteq> ''''}"

lemma ids_of_simps [simp]:
  "ids_of key [] = {}" "ids_of key (d # ds) = (if key d = '''' then ids_of key ds else insert (key d) (ids_of key ds))"
  "ids_of key (as @ bs) = ids_of key as \<union> ids_of key bs"
  by (auto simp: ids_of_def)

lemma dedup_append: "dedup key seen (as @ bs) = dedup key seen as @ dedup key (seen \<union> ids_of key as) bs"
proof (induction as arbitrary: seen)
  case (Cons a as)
  have "insert (key a) seen \<union> ids_of key as = seen \<union> insert (key a) (ids_of key as)" by auto
  moreover have "key a \<in> seen \<Longrightarrow> seen \<union> insert (key a) (ids_of key as) = seen \<union> ids_of key as" by auto
  ultimately show ?case by (simp add: Cons)
qed simp

lemma dedup_subset: "set (dedup key seen ds) \<subseteq> set ds"
  by (induction ds arbitrary: seen) auto

lemma dedup_ids: "ids_of key (dedup key seen ds) = ids_of key ds - seen"
  by (induction ds arbitrary: seen) auto

lemma dedup_distinct: "distinct (filter (\<lambda>i. i \<noteq> '''') (map key (dedup key seen ds)))"
proof (induction ds arbitrary: seen)
  case (Cons d ds)
  have "key d \<notin> ids_of key (dedup key (insert (key d) seen) ds)" by (simp add: dedup_ids)
  then have "key d \<notin> set (filter (\<lambda>i. i \<noteq> '''') (map key (dedup key (insert (key d) seen) ds)))" if "key d \<noteq> ''''"
    using that by (auto simp: ids_of_def)
  then show ?case using Cons by auto
qed simp

lemma dedup_plain: "filter (\<lambda>d. key d = '''') (dedup key seen ds) = filter (\<lambda>d. key d = '''') ds"
  by (induction ds arbitrary: seen) auto

lemma mt_AddAll_append:
  "mt_AddAll R Z FJ U tok m (as @ bs) = st_bind (mt_AddAll R Z FJ U tok m as) (\<lambda>_ m. mt_AddAll R Z FJ U tok m bs)"
proof (induction as arbitrary: m)
  case (Cons a as)
  obtain r m1 where "mt_Add R Z FJ U tok m a = (r, m1)" by fastforce
  then show ?case by (cases r) (simp_all add: Cons)
qed simp

lemma mt_Add_parses: "parses FJ raw \<Longrightarrow> \<exists>m'. mt_Add R Z FJ U tok m raw = (Ok (), m')"
  by (auto simp: parses_def mt_Add_def Let_def)

lemma visit_reindex:
  "\<forall>d \<in> set ds. parses FJ (snd d) \<Longrightarrow>
    \<exists>mt'. visit_docs (reindex_doc R Z FJ U tok RJ idField) ds (mt, seen) = (Ok (), mt', seen \<union> ids_of (doc_id RJ idField) (map snd ds)) \<and>
      mt_AddAll R Z FJ U tok mt (dedup (doc_id RJ idField) seen (map snd ds)) = (Ok (), mt')"
proof (induction ds arbitrary: mt seen)
  case (Cons x ds)
  obtain d raw where x: "x = (d, raw)" by fastforce
  let ?key = "doc_id RJ idField"
  show ?case
  proof (cases "?key raw \<noteq> '''' \<and> ?key raw \<in> seen")
    case True
    then have "reindex_doc R Z FJ U tok RJ idField d raw (mt, seen) = (Ok (), mt, seen)"
      by (simp add: reindex_doc_def doc_id_def split: if_splits)
    moreover have "seen \<union> ids_of ?key (raw # map snd ds) = seen \<union> ids_of ?key (map snd ds)" using True by auto
    ultimately show ?thesis using Cons.IH [of mt seen] Cons.prems True by (simp add: x)
  next
    case False
    obtain m1 where m1: "mt_Add R Z FJ U tok mt raw = (Ok (), m1)" using mt_Add_parses [of FJ raw R Z U tok mt] Cons.prems by (auto simp: x)
    let ?seen = "if ?key raw = '''' then seen else insert (?key raw) seen"
    have "reindex_doc R Z FJ U tok RJ idField d raw (mt, seen) = (Ok (), m1, ?seen)"
      using False m1 by (auto simp: reindex_doc_def doc_id_def split: if_splits)
    moreover have "?seen \<union> ids_of ?key (map snd ds) = seen \<union> ids_of ?key (raw # map snd ds)" by auto
    moreover have "dedup ?key seen (raw # map snd ds) = raw # dedup ?key ?seen (map snd ds)" using False by auto
    ultimately show ?thesis using Cons.IH [of m1 ?seen] Cons.prems m1 by (simp add: x del: dedup.simps ids_of_simps)
  qed
qed simp

lemma IterateDocs_searchable:
  assumes store: "blob_store B objects" and R: "roaring_ok R" and V: "vellum_ok V" and Z: "zstd_ok Z"
    and s: "searchable R Z V FJ U tok sc docs (objects s) key hc"
  shows "\<exists>rd. seg_NewReader B s key = Ok rd \<and> IterateDocs R Z B s rd hc del fn m = visit_docs fn (live_docs R del docs) m"
proof -
  have n: "Suc (length docs) < 2 ^ 29" using s by (simp add: searchable_def)
  obtain flds blks idx where seg: "stored_segment (objects s) key R flds blks (word_of_nat (length docs))"
    and rd: "seg_NewReader B s key = Ok (built_reader key R flds blks (word_of_nat (length docs)))"
    and hc: "hc_DocstoreIdx hc = EncodeIndex idx" "hc_NumDocstoreBlocks hc = word_of_nat (length blks)"
      "hc_DocCount hc = word_of_nat (length docs)"
    and st: "length idx = length docs" "length blks \<le> length docs" "\<forall>i < length docs. ds_Get Z blks (idx ! i) = Ok (docs ! i)"
    and ne: "[] \<notin> set blks"
    using searchable_serves [OF store, OF R V Z s] by blast
  have "unat (word_of_nat (length blks) :: u32) = length blks" "unat (word_of_nat (length docs) :: u32) = length docs"
    using n st(2) by (simp_all add: unat_u32_of_nat)
  moreover have "fetch_blocks B s (built_reader key R flds blks (word_of_nat (length docs))) (word_of_nat (length blks)) [0..<length blks] = Ok blks"
    using seg n st(2) ne by (intro blob_store.fetch_blocks_built [OF store]) simp_all
  moreover have "zstd_NewReader Z = Ok ()" using Z by (simp add: zstd_ok_def)
  ultimately show ?thesis
    using rd hc iterate_loop_docs [OF R st(1,3), of 0 del fn m]
    by (simp add: IterateDocs_def DecodeIndex_EncodeIndex live_docs_def)
qed

lemma live_docs_view: "map snd (live_docs R del docs) = view_live (docs, del_docs R del)"
proof -
  have zip: "zip (map word_of_nat [0..<length docs]) docs = map (\<lambda>i. (word_of_nat i :: u32, docs ! i)) [0..<length docs]"
    by (rule nth_equalityI) simp_all
  show ?thesis
    unfolding live_docs_def zip by (cases del) (simp_all add: view_live_def del_docs_def filter_map comp_def)
qed

lemma view_live_subset: "set (view_live v) \<subseteq> set (fst v)"
  by (auto simp: view_live_def)

lemma reindexSegment_view:
  assumes store: "blob_store B objects" and R: "roaring_ok R" and V: "vellum_ok V" and Z: "zstd_ok Z"
    and seg: "holds_segment R Z V FJ U tok sc name (objects s) meta v"
  shows "\<exists>mt'. reindexSegment V R Z FJ U tok RJ B s spare name idField meta (mt, seen) =
      (Ok (), mt', seen \<union> ids_of (doc_id RJ idField) (view_live v)) \<and>
    mt_AddAll R Z FJ U tok mt (dedup (doc_id RJ idField) seen (view_live v)) = (Ok (), mt')"
proof -
  let ?hk = "SegmentKey name (sm_ID meta) ''.hotcache''" and ?sk = "SegmentKey name (sm_ID meta) ''.seg''"
  have st: "stored_docs R Z V FJ U tok sc (fst v) (objects s) name (sm_ID meta)"
    and del: "deleted_in R name (objects s) meta (snd v)" using seg by (simp_all add: holds_segment_def)
  obtain hb hc where hb: "objects s ?hk = Some hb" and hc: "DecodeHotcache V hb (spare ?hk) = Ok hc"
    and se: "searchable R Z V FJ U tok sc (fst v) (objects s) ?sk hc"
    using stored_docs_searchable [OF R V st, of "spare ?hk"] by blast
  obtain ex where ex: "seg_del_bitmap R B s name meta = Ok ex" "del_docs R ex = snd v"
    using seg_del_bitmap_view [OF store, OF del] by blast
  let ?live = "live_docs R ex (fst v)" and ?fn = "reindex_doc R Z FJ U tok RJ idField"
  have live: "map snd ?live = view_live v" using live_docs_view [of R ex "fst v"] ex(2) by simp
  have "set (map snd ?live) \<subseteq> set (fst v)" using live view_live_subset [of v] by simp
  moreover have "\<forall>d \<in> set (fst v). parses FJ d" using st by (auto simp: stored_docs_def docs_ok_def)
  ultimately have "\<forall>d \<in> set ?live. parses FJ (snd d)" by auto
  from visit_reindex [OF this, of R Z U tok RJ idField mt seen] obtain mt' where
    mt': "visit_docs ?fn ?live (mt, seen) = (Ok (), mt', seen \<union> ids_of (doc_id RJ idField) (view_live v))"
      "mt_AddAll R Z FJ U tok mt (dedup (doc_id RJ idField) seen (view_live v)) = (Ok (), mt')" unfolding live by blast
  obtain rd where "seg_NewReader B s ?sk = Ok rd" "IterateDocs R Z B s rd hc ex ?fn (mt, seen) = visit_docs ?fn ?live (mt, seen)"
    using IterateDocs_searchable [OF store, OF R V Z se, of ex ?fn "(mt, seen)"] by blast
  then show ?thesis
    using mt' ex(1) hc blob_store.Get_Some [OF store, OF hb] by (simp add: reindexSegment_def Let_def)
qed

lemma reindex_all_view:
  assumes store: "blob_store B objects" and R: "roaring_ok R" and V: "vellum_ok V" and Z: "zstd_ok Z"
    and segs: "list_all2 (holds_segment R Z V FJ U tok sc name (objects s)) metas ws"
  shows "\<exists>mt'. reindex_all (reindexSegment V R Z FJ U tok RJ B s spare name idField) metas (mt, seen) =
      (Ok (), mt', seen \<union> ids_of (doc_id RJ idField) (concat (map view_live ws))) \<and>
    mt_AddAll R Z FJ U tok mt (dedup (doc_id RJ idField) seen (concat (map view_live ws))) = (Ok (), mt')"
  using segs
proof (induction metas ws arbitrary: mt seen rule: list_all2_induct)
  case (Cons meta metas v ws)
  let ?key = "doc_id RJ idField" and ?f = "reindexSegment V R Z FJ U tok RJ B s spare name idField"
  obtain m1 where m1: "?f meta (mt, seen) = (Ok (), m1, seen \<union> ids_of ?key (view_live v))"
    "mt_AddAll R Z FJ U tok mt (dedup ?key seen (view_live v)) = (Ok (), m1)"
    using reindexSegment_view [OF store, OF R V Z Cons.hyps(1), of RJ spare idField mt seen] by blast
  obtain mt' where mt': "reindex_all ?f metas (m1, seen \<union> ids_of ?key (view_live v)) =
      (Ok (), mt', (seen \<union> ids_of ?key (view_live v)) \<union> ids_of ?key (concat (map view_live ws)))"
    "mt_AddAll R Z FJ U tok m1 (dedup ?key (seen \<union> ids_of ?key (view_live v)) (concat (map view_live ws))) = (Ok (), mt')"
    using Cons.IH [of m1 "seen \<union> ids_of ?key (view_live v)"] by blast
  show ?case using m1 mt' by (intro exI [of _ mt']) (simp add: dedup_append mt_AddAll_append Un_assoc)
qed simp

section \<open>The whole compaction\<close>

text \<open>The view of a segment, found by its identifier; the documents of the merged segment; and the
  views of the segments that are not merged.\<close>

definition view_of :: "SegmentMeta list \<Rightarrow> (bytes list \<times> u32 set) list \<Rightarrow> SegmentMeta \<Rightarrow> bytes list \<times> u32 set" where
  "view_of metas vs m = (case map_of (zip (map sm_ID metas) vs) (sm_ID m) of Some v \<Rightarrow> v | None \<Rightarrow> ([], {}))"

definition merged_docs ::
  "raw_json \<Rightarrow> string \<Rightarrow> SegmentMeta list \<Rightarrow> (bytes list \<times> u32 set) list \<Rightarrow> SegmentMeta list \<Rightarrow> bytes list" where
  "merged_docs RJ idField metas vs oldest_first =
     dedup (doc_id RJ idField) {} (concat (map (\<lambda>m. view_live (view_of metas vs m)) (rev oldest_first)))"

definition rest_views :: "string set \<Rightarrow> SegmentMeta list \<Rightarrow> (bytes list \<times> u32 set) list \<Rightarrow> (bytes list \<times> u32 set) list" where
  "rest_views ids metas vs = map snd (filter (\<lambda>p. sm_ID (fst p) \<notin> ids) (zip metas vs))"

lemma view_of_nth:
  assumes "distinct (map sm_ID metas)" and "length metas = length vs" and "i < length metas"
  shows "view_of metas vs (metas ! i) = vs ! i"
  using map_of_zip_nth [of "map sm_ID metas" vs i] assms by (simp add: view_of_def)

lemma views_of_subset:
  assumes view: "list_all2 P metas vs" and dist: "distinct (map sm_ID metas)" and sub: "set xs \<subseteq> set metas"
  shows "list_all2 P xs (map (view_of metas vs) xs)"
proof -
  have len: "length metas = length vs" using view by (rule list_all2_lengthD)
  have "P m (view_of metas vs m)" if "m \<in> set xs" for m
  proof -
    have "m \<in> set metas" using sub that by blast
    then obtain i where i: "i < length metas" "m = metas ! i" by (auto simp: in_set_conv_nth)
    show ?thesis using list_all2_nthD [OF view i(1)] view_of_nth [OF dist len i(1)] i(2) by simp
  qed
  then show ?thesis by (simp add: list_all2_conv_all_nth)
qed

lemma rest_views_hold:
  "list_all2 P metas vs \<Longrightarrow> list_all2 P (filter (\<lambda>m. sm_ID m \<notin> ids) metas) (rest_views ids metas vs)"
  by (induction metas vs rule: list_all2_induct) (simp_all add: rest_views_def)

lemma int_string_id_ok: "seg_id_ok (int_string i)"
  using dec_string_id_ok by (simp add: int_string_def seg_id_ok_def)

lemma ActiveSegments_mark:
  "ActiveSegments (next_manifest name now n (mark_ids ids (mf_Segments mf) @ xs)) =
    filter (\<lambda>m. sm_ID m \<notin> ids) (ActiveSegments mf) @ filter (\<lambda>m. \<not> sm_Deleted m) xs"
proof -
  have "filter (\<lambda>m. \<not> sm_Deleted m) (mark_ids ids segs) = filter (\<lambda>m. sm_ID m \<notin> ids) (filter (\<lambda>m. \<not> sm_Deleted m) segs)" for segs
    by (induction segs) (simp_all add: mark_ids_def)
  then show ?thesis by (simp add: ActiveSegments_def next_manifest_def)
qed

text \<open>Objects of a new segment do not disturb the others.\<close>

lemma holds_segment_frame:
  assumes hold: "holds_segment R Z V FJ U tok sc name objs meta v"
    and frame: "\<And>k. \<not> HasPrefix k (manifest_prefix name) \<Longrightarrow> k \<noteq> SegmentKey name i ''.seg'' \<Longrightarrow> k \<noteq> SegmentKey name i ''.hotcache'' \<Longrightarrow> objs' k = objs k"
    and i: "seg_id_ok i" "sm_ID meta \<noteq> i"
  shows "holds_segment R Z V FJ U tok sc name objs' meta v"
proof -
  have ok: "seg_id_ok (sm_ID meta)" using hold by (simp add: holds_segment_def)
  note keys = SegmentKey_inj [OF ok i(1), of name] SegmentKey_inj(3) [OF i(1) ok, of name, symmetric]
    delKey_not_segment not_manifest_key i(2)
  have "holds_segment R Z V FJ U tok sc name objs meta v = holds_segment R Z V FJ U tok sc name objs' meta v"
    by (rule holds_segment_cong; rule frame [symmetric]) (simp_all add: keys)
  then show ?thesis using hold by simp
qed

lemma new_segment_stored:
  assumes "schema_ok sc" and "docs_ok FJ U tok sc docs" and "built_from R Z V FJ U tok sc docs res"
    and "objs (SegmentKey name (newSegmentID nano) ''.seg'') = Some (SegBytes res)"
    and "objs (SegmentKey name (newSegmentID nano) ''.hotcache'') = Some (HotcacheBytes res)"
  shows "holds_segment R Z V FJ U tok sc name objs (new_meta nano millis res) (docs, {})"
  using assms by (auto simp: holds_segment_def new_meta_def stored_docs_def deleted_in_def newSegmentID_def int_string_id_ok)

lemma docs_ok_sub:
  "docs_ok FJ U tok sc ds \<Longrightarrow> d \<in> set ds \<Longrightarrow> parses FJ d \<and> length d \<le> ds_max_doc \<and>
    (\<forall>f \<in> set (sc_Fields sc). length (doc_tokens FJ U tok f d) \<le> max_u32_slice)"
  by (simp add: docs_ok_def)

lemma merged_docs_ok:
  assumes segs: "list_all2 (holds_segment R Z V FJ U tok sc name objs) metas ws"
    and small: "Suc (length (dedup key seen (concat (map view_live ws)))) < 2 ^ 29"
  shows "docs_ok FJ U tok sc (dedup key seen (concat (map view_live ws)))"
proof -
  have "parses FJ d \<and> length d \<le> ds_max_doc \<and> (\<forall>f \<in> set (sc_Fields sc). length (doc_tokens FJ U tok f d) \<le> max_u32_slice)"
    if d: "d \<in> set (dedup key seen (concat (map view_live ws)))" for d
  proof -
    obtain v where v: "v \<in> set ws" "d \<in> set (view_live v)" using d dedup_subset [of key seen] by fastforce
    then obtain m where "holds_segment R Z V FJ U tok sc name objs m v" using segs by (auto simp: list_all2_conv_all_nth in_set_conv_nth)
    then have "docs_ok FJ U tok sc (fst v)" by (simp add: holds_segment_def stored_docs_def)
    then show ?thesis using docs_ok_sub v(2) view_live_subset by blast
  qed
  then show ?thesis using small by (simp add: docs_ok_def)
qed

lemma memtable_count:
  assumes R: "roaring_ok R" and new: "NewMemtable Z sc = Ok mt" and sc: "schema_ok sc"
    and docs: "docs_ok FJ U tok sc docs" and add: "mt_AddAll R Z FJ U tok mt docs = (Ok (), mt')"
  shows "mt_DocCount mt' = 0 \<longleftrightarrow> docs = []"
proof -
  obtain w where w: "mt_holds R Z FJ U tok w [] mt" "mt_schema mt = sc" using NewMemtable_holds [OF new] by blast
  have "mt_holds R Z FJ U tok w docs mt'"
    using mt_AddAll_holds [OF R w(1), of docs] sc docs add w(2) by (auto simp: docs_ok_def)
  then have "mt_DocCount mt' = word_of_nat (length docs)" by (simp add: mt_holds_def mt_DocCount_def)
  moreover have "unat (word_of_nat (length docs) :: u32) = length docs" using docs by (simp add: docs_ok_def unat_u32_of_nat)
  ultimately have "unat (mt_DocCount mt') = length docs" by simp
  then show ?thesis using unat_eq_0 [of "mt_DocCount mt'"] by auto
qed

text \<open>The store after the new segment is uploaded and the manifest published.\<close>

lemma compact_publish:
  assumes store: "blob_store B objects" and log: "manifest_log J name (objects s) (ms @ [mf])" and len: "length ms + 2 < 10 ^ 6"
    and mf': "mf' = next_manifest name (now 4) (Suc (length ms)) (fn (mf_Segments mf))" and json: "mj_roundtrip J mf'"
  obtains s' where "ms_PublishTransform B J name now s fn 5 = (Ok mf', s')" "manifest_log J name (objects s') (ms @ [mf, mf'])"
    "\<And>k. \<not> HasPrefix k (manifest_prefix name) \<Longrightarrow> objects s' k = objects s k"
proof (rule blob_store.PublishTransform_log [OF store log, where r = 4 and now = now and fn = fn])
  show "Suc (length (ms @ [mf])) < 10 ^ 6" using len by simp
qed (use json that in \<open>simp_all add: log_last_def current_segments_def mf'\<close>)

lemma markDeleted_view:
  assumes store: "blob_store B objects" and log: "manifest_log J name (objects s) (ms @ [mf])" and len: "length ms + 2 < 10 ^ 6"
    and view: "list_all2 (holds_segment R Z V FJ U tok sc name (objects s)) (ActiveSegments mf) vs"
    and mf': "mf' = next_manifest name (now 4) (Suc (length ms)) (mark_ids (sm_ID ` set C) (mf_Segments mf))" and json: "mj_roundtrip J mf'"
  shows "\<exists>s'. markDeleted B J now name C s = (Ok (), s') \<and> manifest_log J name (objects s') (ms @ [mf, mf']) \<and>
    list_all2 (holds_segment R Z V FJ U tok sc name (objects s')) (ActiveSegments mf') (rest_views (sm_ID ` set C) (ActiveSegments mf) vs)"
proof -
  let ?ids = "sm_ID ` set C"
  obtain s' where s': "ms_PublishTransform B J name now s (mark_ids ?ids) 5 = (Ok mf', s')" "manifest_log J name (objects s') (ms @ [mf, mf'])"
    "\<And>k. \<not> HasPrefix k (manifest_prefix name) \<Longrightarrow> objects s' k = objects s k"
    using compact_publish [where fn = "mark_ids ?ids" and now = now, OF store, OF log len mf' json] by blast
  have "holds_segment R Z V FJ U tok sc name (objects s') m v" if "holds_segment R Z V FJ U tok sc name (objects s) m v" for m v
    using that holds_segment_cong [of "objects s" name m "objects s'" R Z V FJ U tok sc v] s'(3) not_manifest_key by simp
  then have "list_all2 (holds_segment R Z V FJ U tok sc name (objects s')) (ActiveSegments mf) vs"
    using view by (rule list_all2_mono [rotated])
  then have "list_all2 (holds_segment R Z V FJ U tok sc name (objects s')) (ActiveSegments mf') (rest_views ?ids (ActiveSegments mf) vs)"
    using rest_views_hold ActiveSegments_mark [of name "now 4" "Suc (length ms)" ?ids mf "[]"] unfolding mf' by fastforce
  then show ?thesis using s'(1,2) by (auto simp: markDeleted_def simp del: ms_PublishTransform.simps)
qed

lemma compact_merge_view:
  assumes store: "blob_store B objects" and R: "roaring_ok (R :: 'b roaring)" and V: "vellum_ok V" and Z: "zstd_ok Z" and srt: "slice_sort srt"
    and log: "manifest_log J name (objects s) (ms @ [mf])" and len: "length ms + 2 < 10 ^ 6"
    and dist: "distinct (map sm_ID (mf_Segments mf))"
    and view: "list_all2 (holds_segment R Z V FJ U tok sc name (objects s)) (ActiveSegments mf) vs"
    and C: "set C \<subseteq> set (ActiveSegments mf)" "C \<noteq> []"
    and docs: "docs = merged_docs RJ (sc_IDField sc) (ActiveSegments mf) vs (srt sm_CreatedAt C)" "Suc (length docs) < 2 ^ 29"
    and res: "docs \<noteq> [] \<longrightarrow> built_from R Z V FJ U tok sc docs res"
    and fresh: "newSegmentID nano \<notin> sm_ID ` set (mf_Segments mf)"
    and mf': "mf' = next_manifest name (now 4) (Suc (length ms))
      (mark_ids (sm_ID ` set C) (mf_Segments mf) @ (if docs = [] then [] else [new_meta nano millis res]))"
    and json: "mj_roundtrip J mf'"
  shows "\<exists>s'. compact_merge V R Z FJ U tok RJ B J spare srt now nano millis sc name C s = (Ok (), s') \<and>
    manifest_log J name (objects s') (ms @ [mf, mf']) \<and>
    list_all2 (holds_segment R Z V FJ U tok sc name (objects s')) (ActiveSegments mf')
      (rest_views (sm_ID ` set C) (ActiveSegments mf) vs @ (if docs = [] then [] else [(docs, {})]))"
proof -
  let ?act = "ActiveSegments mf" and ?old = "srt sm_CreatedAt C" and ?ids = "sm_ID ` set C"
  let ?f = "reindexSegment V R Z FJ U tok RJ B s spare name (sc_IDField sc)" and ?key = "doc_id RJ (sc_IDField sc)"
  have dista: "distinct (map sm_ID ?act)" using dist by (simp add: ActiveSegments_def distinct_map_filter)
  have set_old: "set ?old = set C" using srt by (metis slice_sort.sort_set)
  define ws where "ws = map (view_of ?act vs) (rev ?old)"
  have segs: "list_all2 (holds_segment R Z V FJ U tok sc name (objects s)) (rev ?old) ws"
    unfolding ws_def using view dista by (rule views_of_subset) (simp add: set_old C(1))
  have docs': "docs = dedup ?key {} (concat (map view_live ws))"
    by (simp add: docs(1) merged_docs_def ws_def comp_def)
  have ok: "docs_ok FJ U tok sc docs" using merged_docs_ok [OF segs] docs(2) unfolding docs' by blast
  obtain m v where "holds_segment R Z V FJ U tok sc name (objects s) m v"
    using C set_old segs by (cases "rev ?old") (auto simp: list_all2_Cons1)
  then obtain mt0 :: "'b Memtable" where sc: "schema_ok sc" and new: "NewMemtable Z sc = Ok mt0"
    by (auto simp: holds_segment_def stored_docs_def built_from_def)
  obtain mt' where re: "reindex_all ?f (rev ?old) (mt0, {}) = (Ok (), mt', ids_of ?key (concat (map view_live ws)))"
    and add: "mt_AddAll R Z FJ U tok mt0 docs = (Ok (), mt')"
    using reindex_all_view [OF store, OF R V Z segs, of RJ spare "sc_IDField sc" mt0 "{}"] unfolding docs' by auto
  have count: "mt_DocCount mt' = 0 \<longleftrightarrow> docs = []" by (rule memtable_count [OF R new sc ok add])
  show ?thesis
  proof (cases "docs = []")
    case True
    have "\<exists>s'. markDeleted B J now name ?old s = (Ok (), s') \<and> manifest_log J name (objects s') (ms @ [mf, mf']) \<and>
      list_all2 (holds_segment R Z V FJ U tok sc name (objects s')) (ActiveSegments mf') (rest_views (sm_ID ` set ?old) ?act vs)"
      by (rule markDeleted_view [OF store, OF log len view _ json]) (use mf' True set_old in simp)
    then show ?thesis using True new re count set_old by (auto simp: compact_merge_def Let_def)
  next
    case False
    have bres: "built_from R Z V FJ U tok sc docs res" using res False by blast
    then have build: "mt_Build R Z V mt' = Ok res" using new add by (auto simp: built_from_def)
    let ?sk = "SegmentKey name (newSegmentID nano) ''.seg''" and ?hk = "SegmentKey name (newSegmentID nano) ''.hotcache''"
    have id: "seg_id_ok (newSegmentID nano)" by (simp add: newSegmentID_def int_string_id_ok)
    obtain s1 where s1: "bs_Put B s ?sk (SegBytes res) no_opts = (Ok (), s1)" "objects s1 = (objects s)(?sk \<mapsto> SegBytes res)"
      using blob_store.Put_plain [OF store] by blast
    obtain s2 where s2: "bs_Put B s1 ?hk (HotcacheBytes res) no_opts = (Ok (), s2)" "objects s2 = (objects s1)(?hk \<mapsto> HotcacheBytes res)"
      using blob_store.Put_plain [OF store] by blast
    have "manifest_log J name (objects s2) (ms @ [mf])"
      unfolding s1(2) s2(2) using log by (intro manifest_log_other not_manifest_key(1))
    from compact_publish [where fn = "\<lambda>segs. mark_ids ?ids segs @ [new_meta nano millis res]" and now = now, OF store, OF this len _ json]
    obtain s' where s': "ms_PublishTransform B J name now s2 (\<lambda>segs. mark_ids ?ids segs @ [new_meta nano millis res]) 5 = (Ok mf', s')"
      "manifest_log J name (objects s') (ms @ [mf, mf'])" "\<And>k. \<not> HasPrefix k (manifest_prefix name) \<Longrightarrow> objects s' k = objects s2 k"
      using mf' False by auto
    have "holds_segment R Z V FJ U tok sc name (objects s') m v"
      if "m \<in> set ?act" "holds_segment R Z V FJ U tok sc name (objects s) m v" for m v
    proof (rule holds_segment_frame [OF that(2) _ id])
      show "sm_ID m \<noteq> newSegmentID nano" using that(1) fresh by (auto simp: ActiveSegments_def image_iff)
      show "objects s' k = objects s k" if "\<not> HasPrefix k (manifest_prefix name)" "k \<noteq> ?sk" "k \<noteq> ?hk" for k
        using that s'(3) s1(2) s2(2) by simp
    qed
    then have "list_all2 (holds_segment R Z V FJ U tok sc name (objects s')) ?act vs"
      using view by (auto simp: list_all2_conv_all_nth)
    moreover have "holds_segment R Z V FJ U tok sc name (objects s') (new_meta nano millis res) (docs, {})"
      using s'(3) [OF not_manifest_key(1)] SegmentKey_inj(3) [OF id id, of name]
      by (intro new_segment_stored [OF sc ok bres]) (simp_all add: s1(2) s2(2))
    moreover have "ActiveSegments mf' = filter (\<lambda>m. sm_ID m \<notin> ?ids) ?act @ [new_meta nano millis res]"
      using False ActiveSegments_mark [of name "now 4" "Suc (length ms)" ?ids mf "[new_meta nano millis res]"] unfolding mf'
      by (simp add: new_meta_def)
    ultimately have "list_all2 (holds_segment R Z V FJ U tok sc name (objects s')) (ActiveSegments mf')
        (rest_views ?ids ?act vs @ [(docs, {})])"
      by (simp add: list_all2_appendI rest_views_hold)
    then show ?thesis
      using False new re count build s1(1) s2(1) s'(1,2) set_old
      by (simp add: compact_merge_def Let_def del: ms_PublishTransform.simps)
  qed
qed

lemma merged_count:
  assumes dist: "distinct (map sm_ID xs)" and sub: "mset C \<subseteq># mset xs"
  shows "length (filter (\<lambda>m. sm_ID m \<notin> sm_ID ` set C) xs) + length C = length xs"
proof -
  let ?P = "\<lambda>m. sm_ID m \<notin> sm_ID ` set C"
  obtain ds where "mset ds = mset xs - mset C" using ex_mset by blast
  then have eq: "mset xs = mset (C @ ds)" using sub by simp
  have "mset (map sm_ID xs) = mset (map sm_ID (C @ ds))" using eq by (metis mset_map)
  then have "distinct (map sm_ID (C @ ds))" using dist by (metis mset_eq_imp_distinct_iff)
  then have "filter ?P ds = ds" "filter ?P C = []" by (auto simp: filter_id_conv filter_empty_conv)
  moreover have "length (filter ?P xs) = length (filter ?P (C @ ds))" using eq by (metis mset_filter size_mset)
  moreover have "length xs = length (C @ ds)" using eq by (metis size_mset)
  ultimately show ?thesis by simp
qed

lemma CompactOnce_view:
  assumes store: "blob_store B objects" and R: "roaring_ok (R :: 'b roaring)" and V: "vellum_ok V" and Z: "zstd_ok Z" and srt: "slice_sort srt"
    and log: "manifest_log J name (objects s) (ms @ [mf])" and len: "length ms + 2 < 10 ^ 6"
    and dist: "distinct (map sm_ID (mf_Segments mf))"
    and view: "index_view R Z V FJ U tok sc name (objects s) (ActiveSegments mf) vs"
    and order: "set order = seg_tier ` set (ActiveSegments mf)"
    and C: "C = pickMergeCandidates srt order (ActiveSegments mf)"
    and docs: "docs = merged_docs RJ (sc_IDField sc) (ActiveSegments mf) vs (srt sm_CreatedAt C)" "Suc (length docs) < 2 ^ 29"
    and res: "docs \<noteq> [] \<longrightarrow> built_from R Z V FJ U tok sc docs res"
    and fresh: "newSegmentID nano \<notin> sm_ID ` set (mf_Segments mf)"
    and mf': "mf' = next_manifest name (now 4) (Suc (length ms))
      (mark_ids (sm_ID ` set C) (mf_Segments mf) @ (if docs = [] then [] else [new_meta nano millis res]))"
    and json: "C \<noteq> [] \<longrightarrow> mj_roundtrip J mf'"
  shows "\<exists>s'. CompactOnce V R Z FJ U tok RJ B J spare srt order now nano millis sc name s = (Ok (), s') \<and>
    merge_choice (ActiveSegments mf) C \<and>
    (if C = [] then s' = s
     else manifest_log J name (objects s') (ms @ [mf, mf']) \<and>
       index_view R Z V FJ U tok sc name (objects s') (ActiveSegments mf')
         (rest_views (sm_ID ` set C) (ActiveSegments mf) vs @ (if docs = [] then [] else [(docs, {})])) \<and>
       length (ActiveSegments mf') + 3 \<le> length (ActiveSegments mf))"
proof -
  let ?act = "ActiveSegments mf"
  have dista: "distinct (map sm_ID ?act)" using dist by (simp add: ActiveSegments_def distinct_map_filter)
  have choice: "merge_choice ?act C" unfolding C using srt order by (rule pickMergeCandidates_choice)
  have latest: "ms_Latest B J name s = Ok (Some mf)" using blob_store.Latest_log [OF store, OF log] by (simp add: log_last_def)
  show ?thesis
  proof (cases "C = []")
    case True
    then show ?thesis using choice latest C by (auto simp: CompactOnce_def Let_def)
  next
    case False
    then have c: "mset C \<subseteq># mset ?act" "4 \<le> length C" using choice unfolding merge_choice_def by (auto split: if_splits)
    then have sub: "set C \<subseteq> set ?act" by (metis set_mset_mono set_mset_mset)
    have view': "list_all2 (holds_segment R Z V FJ U tok sc name (objects s)) ?act vs" using view by (simp add: index_view_def)
    obtain s' where s': "compact_merge V R Z FJ U tok RJ B J spare srt now nano millis sc name C s = (Ok (), s')"
      "manifest_log J name (objects s') (ms @ [mf, mf'])"
      "list_all2 (holds_segment R Z V FJ U tok sc name (objects s')) (ActiveSegments mf')
        (rest_views (sm_ID ` set C) ?act vs @ (if docs = [] then [] else [(docs, {})]))"
      using compact_merge_view [where spare = spare and now = now, OF store, OF R V Z srt log len dist view' sub False docs res fresh mf'] json False by blast
    have "length (ActiveSegments mf') \<le> Suc (length (filter (\<lambda>m. sm_ID m \<notin> sm_ID ` set C) ?act))"
      unfolding mf' ActiveSegments_mark by simp
    then have "length (ActiveSegments mf') + 3 \<le> length ?act" using merged_count [OF dista c(1)] c(2) by simp
    then show ?thesis
      using s' False choice latest C c(2) by (auto simp: CompactOnce_def Let_def index_view_def)
  qed
qed

section \<open>What garbage collection removes\<close>

definition gc_garbage :: "string set \<Rightarrow> string \<Rightarrow> string \<Rightarrow> bool" where
  "gc_garbage protected name k \<longleftrightarrow> HasPrefix k (segments_prefix name) \<and>
     extractSegIDFromKey k \<noteq> '''' \<and> extractSegIDFromKey k \<notin> protected"

context blob_store
begin

lemma gc_loop_removes:
  "\<exists>s'. gc_loop B protected keys s = (Ok (), s') \<and>
    objects s' = (\<lambda>k. if k \<in> set keys \<and> extractSegIDFromKey k \<noteq> '''' \<and> extractSegIDFromKey k \<notin> protected then None else objects s k)"
proof (induction keys arbitrary: s)
  case (Cons key keys)
  let ?i = "extractSegIDFromKey key"
  show ?case
  proof (cases "?i = '''' \<or> ?i \<in> protected")
    case True
    then show ?thesis using Cons [of s] by (auto simp: fun_eq_iff Let_def)
  next
    case False
    obtain s1 where s1: "bs_Delete B s key = (Ok (), s1)" "objects s1 = (objects s)(key := None)"
      using Delete_result [of s key] Delete_objects [of s key] by (cases "bs_Delete B s key") simp
    obtain s' where "gc_loop B protected keys s1 = (Ok (), s')"
      "objects s' = (\<lambda>k. if k \<in> set keys \<and> extractSegIDFromKey k \<noteq> '''' \<and> extractSegIDFromKey k \<notin> protected then None else objects s1 k)"
      using Cons [of s1] by blast
    then show ?thesis using False s1 by (auto simp: fun_eq_iff Let_def)
  qed
qed simp

lemma GC_removes:
  assumes log: "manifest_log J name (objects s) (ms @ [mf])"
  shows "\<exists>s'. GC B J name s = (Ok (), s') \<and>
    objects s' = (\<lambda>k. if gc_garbage (sm_ID ` set (ActiveSegments mf)) name k then None else objects s k)"
proof -
  have latest: "ms_Latest B J name s = Ok (Some mf)" using Latest_log [OF log] by (simp add: log_last_def)
  obtain keys where keys: "bs_List B s (segments_prefix name) = Ok keys" "set keys = {k \<in> dom (objects s). HasPrefix k (segments_prefix name)}"
    using List_keys by blast
  obtain s' where s': "gc_loop B (sm_ID ` set (ActiveSegments mf)) keys s = (Ok (), s')"
    "objects s' = (\<lambda>k. if k \<in> set keys \<and> extractSegIDFromKey k \<noteq> '''' \<and> extractSegIDFromKey k \<notin> sm_ID ` set (ActiveSegments mf) then None else objects s k)"
    using gc_loop_removes by blast
  have "objects s' k = (if gc_garbage (sm_ID ` set (ActiveSegments mf)) name k then None else objects s k)" for k
    using keys(2) by (auto simp: s'(2) gc_garbage_def domIff)
  then show ?thesis using latest keys(1) s'(1) by (auto simp: GC_def)
qed

end

lemma extractSegID_key:
  assumes "seg_id_ok i" and "CHR ''/'' \<notin> set x"
  shows "extractSegIDFromKey (segments_prefix name @ i @ CHR ''.'' # x) = i"
proof -
  have "CHR ''/'' \<notin> set (i @ CHR ''.'' # x)" using assms by (simp add: seg_id_ok_def)
  then have "LastIndexByte ((name @ ''/segments'') @ CHR ''/'' # (i @ CHR ''.'' # x)) (CHR ''/'') = Some (length (name @ ''/segments''))"
    by (rule LastIndexByte_append)
  then have "extractSegIDFromKey (segments_prefix name @ i @ CHR ''.'' # x) = takeWhile (\<lambda>c. c \<noteq> CHR ''.'') (i @ CHR ''.'' # x)"
    by (simp add: extractSegIDFromKey_def segments_prefix_def)
  also have "\<dots> = i" using assms(1) by (subst takeWhile_append2) (auto simp: seg_id_ok_def)
  finally show ?thesis .
qed

lemma active_not_garbage:
  assumes i: "seg_id_ok i" "i \<in> protected"
  shows "\<not> gc_garbage protected name (SegmentKey name i ''.seg'')" "\<not> gc_garbage protected name (SegmentKey name i ''.hotcache'')"
    "\<not> gc_garbage protected name (delKey name i v)"
proof -
  have "CHR ''/'' \<notin> set (int_string v)" using int_string_id_ok [of v] by (simp add: seg_id_ok_def)
  then show "\<not> gc_garbage protected name (SegmentKey name i ''.seg'')" "\<not> gc_garbage protected name (SegmentKey name i ''.hotcache'')"
    "\<not> gc_garbage protected name (delKey name i v)"
    using extractSegID_key [OF i(1), of "''seg''" name] extractSegID_key [OF i(1), of "''hotcache''" name]
      extractSegID_key [OF i(1), of "''del.'' @ int_string v" name] i(2)
    by (simp_all add: gc_garbage_def SegmentKey_def delKey_def segments_prefix_def)
qed

section \<open>Properties\<close>

text \<open>C6: A compaction replaces segments by one that holds their live documents. It does nothing to
  an index of fewer than four active segments. Otherwise it picks a whole size tier of at least four
  segments, with none larger, or else the four smallest segments; afterwards these are no longer
  active, the other segments are as before, and one new segment without deletes holds the live
  documents of the merged ones, newest segment first and the first of every identifier: no identifier
  is lost or doubled and documents without one are all kept. When no document is live there is no new
  segment. The number of active segments goes down by at least three.\<close>

theorem compaction_merges_live_documents:
  assumes "blob_store B objects" and "roaring_ok R" and "vellum_ok V" and "zstd_ok Z" and "slice_sort srt"
    and "manifest_log J name (objects s) (ms @ [mf])" and "length ms + 2 < 10 ^ 6"
    and "distinct (map sm_ID (mf_Segments mf))"
    and "index_view R Z V FJ U tok sc name (objects s) (ActiveSegments mf) vs"
    and "set order = seg_tier ` set (ActiveSegments mf)"
    and "C = pickMergeCandidates srt order (ActiveSegments mf)"
    and "live = concat (map (\<lambda>m. view_live (view_of (ActiveSegments mf) vs m)) (rev (srt sm_CreatedAt C)))"
    and "docs = dedup (doc_id RJ (sc_IDField sc)) {} live" and "Suc (length docs) < 2 ^ 29"
    and "docs \<noteq> [] \<longrightarrow> built_from R Z V FJ U tok sc docs res"
    and "newSegmentID nano \<notin> sm_ID ` set (mf_Segments mf)"
    and "mf' = next_manifest name (now 4) (Suc (length ms))
      (mark_ids (sm_ID ` set C) (mf_Segments mf) @ (if docs = [] then [] else [new_meta nano millis res]))"
    and "C \<noteq> [] \<longrightarrow> mj_roundtrip J mf'"
  shows "\<exists>s'. CompactOnce V R Z FJ U tok RJ B J spare srt order now nano millis sc name s = (Ok (), s') \<and>
    merge_choice (ActiveSegments mf) C \<and>
    set docs \<subseteq> set live \<and> ids_of (doc_id RJ (sc_IDField sc)) docs = ids_of (doc_id RJ (sc_IDField sc)) live \<and>
    distinct (filter (\<lambda>i. i \<noteq> '''') (map (doc_id RJ (sc_IDField sc)) docs)) \<and>
    filter (\<lambda>d. doc_id RJ (sc_IDField sc) d = '''') docs = filter (\<lambda>d. doc_id RJ (sc_IDField sc) d = '''') live \<and>
    (if C = [] then s' = s
     else manifest_log J name (objects s') (ms @ [mf, mf']) \<and>
       index_view R Z V FJ U tok sc name (objects s') (ActiveSegments mf')
         (rest_views (sm_ID ` set C) (ActiveSegments mf) vs @ (if docs = [] then [] else [(docs, {})])) \<and>
       length (ActiveSegments mf') + 3 \<le> length (ActiveSegments mf))"
proof -
  have "docs = merged_docs RJ (sc_IDField sc) (ActiveSegments mf) vs (srt sm_CreatedAt C)"
    using assms(12,13) by (simp add: merged_docs_def)
  from CompactOnce_view [where spare = spare and now = now, OF assms(1), OF assms(2-11) this assms(14-18)] show ?thesis
    unfolding assms(13) using dedup_subset [of _ "{}" live] dedup_ids [of _ "{}" live] dedup_distinct [of _ "{}" live] dedup_plain [of _ "{}" live]
    by simp
qed

text \<open>C13: Garbage collection removes exactly the objects under the segment prefix of the index that
  carry the identifier of a segment that is not active in the latest manifest (so also those of a
  segment that is uploaded but not published yet), and nothing else: the manifests and the documents
  and deletes of all active segments are as before.\<close>

theorem gc_removes_exactly_garbage:
  assumes "blob_store B objects" and "manifest_log J name (objects s) (ms @ [mf])"
    and "index_view R Z V FJ U tok sc name (objects s) (ActiveSegments mf) vs"
  shows "\<exists>s'. GC B J name s = (Ok (), s') \<and>
    objects s' = (\<lambda>k. if gc_garbage (sm_ID ` set (ActiveSegments mf)) name k then None else objects s k) \<and>
    manifest_log J name (objects s') (ms @ [mf]) \<and>
    index_view R Z V FJ U tok sc name (objects s') (ActiveSegments mf) vs"
proof -
  let ?ids = "sm_ID ` set (ActiveSegments mf)"
  obtain s' where s': "GC B J name s = (Ok (), s')" "objects s' = (\<lambda>k. if gc_garbage ?ids name k then None else objects s k)"
    using blob_store.GC_removes [OF assms(1), OF assms(2)] by blast
  have "manifest_log J name (objects s') (ms @ [mf])"
  proof (rule manifest_log_frame [OF _ assms(2)])
    fix k assume "HasPrefix k (manifest_prefix name)"
    then have "\<not> gc_garbage ?ids name k" by (auto simp: gc_garbage_def HasPrefix_iff manifest_prefix_def segments_prefix_def)
    then show "objects s' k = objects s k" by (simp add: s'(2))
  qed
  moreover have "holds_segment R Z V FJ U tok sc name (objects s') m v"
    if "m \<in> set (ActiveSegments mf)" "holds_segment R Z V FJ U tok sc name (objects s) m v" for m v
  proof -
    have "seg_id_ok (sm_ID m)" using that(2) by (simp add: holds_segment_def)
    then show ?thesis
      using holds_segment_cong [of "objects s" name m "objects s'" R Z V FJ U tok sc v] active_not_garbage [of "sm_ID m" ?ids name] that
      by (simp add: s'(2))
  qed
  then have "index_view R Z V FJ U tok sc name (objects s') (ActiveSegments mf) vs"
    using assms(3) by (auto simp: index_view_def list_all2_conv_all_nth)
  ultimately show ?thesis using s' by blast
qed


section \<open>Examples\<close>

definition same_id_json :: raw_json where
  "same_id_json = \<lparr>rj_Map = (\<lambda>_. Some (\<lambda>_. Some [])), rj_String = (\<lambda>_. Some ''a'')\<rparr>"


text \<open>Four segments of one document each, in one tier.\<close>

definition four_ids :: "string list" where
  "four_ids = [''1'', ''2'', ''3'', ''4'']"

definition four_metas :: "SegmentMeta list" where
  "four_metas = map (\<lambda>i. example_meta\<lparr>sm_ID := i\<rparr>) four_ids"

definition four_views :: "(bytes list \<times> u32 set) list" where
  "four_views = map (\<lambda>_. ([[0x31]], {})) four_ids"

lemma four_tier: "seg_tier ` set four_metas = {4}"
  by (simp add: seg_tier_def four_metas_def four_ids_def example_meta_def bit_len.simps)

lemma four_pick: "pickMergeCandidates insertion_sort [4] four_metas = four_metas"
proof -
  have "\<forall>m \<in> set four_metas. seg_tier m = 4" using four_tier by blast
  then have "filter (\<lambda>s. seg_tier s = 4) four_metas = four_metas" by (simp only: filter_id_conv)
  then have "tierMap four_metas 4 = four_metas" by (simp only: tierMap_filter)
  moreover have "length four_metas = 4" by (simp add: four_metas_def four_ids_def)
  ultimately show ?thesis by (simp add: pickMergeCandidates_def minMergeCount_def Let_def)
qed

lemma four_live:
  "concat (map (\<lambda>m. view_live (view_of four_metas four_views m)) (rev (insertion_sort sm_CreatedAt four_metas))) = [[0x31], [0x31], [0x31], [0x31]]"
  by (simp add: four_metas_def four_ids_def four_views_def insertion_sort_def view_of_def view_live_def)

theorem compaction_merges_live_documents_witness:
  "\<exists>J s s' mf'. CompactOnce list_vellum list_roaring id_zstd cat_json ascii (Tokenize ascii) same_id_json mem_BlobStore J
      (\<lambda>_. []) insertion_sort [4] (\<lambda>_. 9) 5 8 example_schema ''idx'' s = (Ok (), s') \<and>
    length (ActiveSegments (ids_manifest four_ids)) = 4 \<and>
    index_view list_roaring id_zstd list_vellum cat_json ascii (Tokenize ascii) example_schema ''idx''
      (mem_content s') (ActiveSegments mf') [([[0x31]], {})]"
proof -
  let ?mf = "ids_manifest four_ids"
  obtain res where res: "built_from list_roaring id_zstd list_vellum cat_json ascii (Tokenize ascii) example_schema [[0x31]] res"
    using example_built by blast
  let ?mf' = "next_manifest ''idx'' 9 1 (mark_ids (sm_ID ` set four_metas) (mf_Segments ?mf) @ [new_meta 5 8 res])"
  let ?J = "table_json [?mf, ?mf']" and ?docs = "dedup (doc_id same_id_json ''body'') {} [[0x31], [0x31], [0x31], [0x31]]"
  have ids: "\<forall>i \<in> set four_ids. seg_id_ok i" by (simp add: four_ids_def seg_id_ok_def)
  obtain s where log: "manifest_log ?J ''idx'' (mem_content s) ([] @ [?mf])"
    and view: "index_view list_roaring id_zstd list_vellum cat_json ascii (Tokenize ascii) example_schema ''idx''
      (mem_content s) (ActiveSegments ?mf) four_views"
    using ids_index [OF ids, of "[?mf']"] by (auto simp: four_views_def)
  have act: "ActiveSegments ?mf = four_metas" "mf_Segments ?mf = four_metas"
    by (simp_all add: ids_manifest_active ids_manifest_segments four_metas_def)
  have docs: "?docs = [[0x31]]" by (simp add: doc_id_def extractField_def same_id_json_def)
  have idf: "sc_IDField example_schema = ''body''" by (simp add: example_schema_def)
  have new: "newSegmentID 5 = ''5''" by code_simp
  have dist: "distinct (map sm_ID (mf_Segments ?mf))" "newSegmentID 5 \<notin> sm_ID ` set (mf_Segments ?mf)"
    unfolding act new by (simp_all add: four_metas_def four_ids_def)
  have rest: "rest_views (sm_ID ` set four_metas) four_metas four_views = []"
    by (simp add: rest_views_def four_metas_def four_ids_def four_views_def)
  have ne: "four_metas \<noteq> []" by (simp add: four_metas_def four_ids_def)
  have "\<exists>s'. CompactOnce list_vellum list_roaring id_zstd cat_json ascii (Tokenize ascii) same_id_json mem_BlobStore ?J
      (\<lambda>_. []) insertion_sort [4] (\<lambda>_. 9) 5 8 example_schema ''idx'' s = (Ok (), s') \<and>
    index_view list_roaring id_zstd list_vellum cat_json ascii (Tokenize ascii) example_schema ''idx'' (mem_content s') (ActiveSegments ?mf')
      (rest_views (sm_ID ` set four_metas) four_metas four_views @ (if ?docs = [] then [] else [(?docs, {})]))"
    using compaction_merges_live_documents [where spare = "\<lambda>_. []" and now = "\<lambda>_. 9" and nano = 5 and millis = 8 and RJ = same_id_json
      and order = "[4]" and C = four_metas and docs = ?docs and live = "[[0x31], [0x31], [0x31], [0x31]]" and res = res and mf' = ?mf',
      OF mem.blob_store_axioms, OF list_roaring_ok list_vellum_ok id_zstd_ok insertion.slice_sort_axioms log _ dist(1) view]
      four_tier four_pick four_live res dist(2) ne table_json_roundtrip [of "[?mf, ?mf']" ?mf']
    unfolding act idf docs by auto
  then show ?thesis unfolding rest docs using act(1) by (auto simp: four_metas_def four_ids_def)
qed

theorem gc_removes_exactly_garbage_witness:
  "\<exists>J s s'. GC mem_BlobStore J ''idx'' s = (Ok (), s') \<and> mem_content s' (SegmentKey ''idx'' ''s1'' ''.seg'') \<noteq> None"
proof -
  obtain s where log: "manifest_log (table_json [example_manifest]) ''idx'' (mem_content s) ([] @ [example_manifest])"
    and view: "index_view list_roaring id_zstd list_vellum cat_json ascii (Tokenize ascii) example_schema ''idx''
      (mem_content s) (ActiveSegments example_manifest) [([[0x31]], {})]"
    using example_index [of "[]"] by auto
  from gc_removes_exactly_garbage [OF mem.blob_store_axioms, OF log view] obtain s' where
    gc: "GC mem_BlobStore (table_json [example_manifest]) ''idx'' s = (Ok (), s')"
    and "index_view list_roaring id_zstd list_vellum cat_json ascii (Tokenize ascii) example_schema ''idx''
      (mem_content s') (ActiveSegments example_manifest) [([[0x31]], {})]" by blast
  moreover have "ActiveSegments example_manifest = [example_meta]" "sm_ID example_meta = ''s1''"
    by (simp_all add: ActiveSegments_def example_manifest_def next_manifest_def example_meta_def)
  ultimately have "mem_content s' (SegmentKey ''idx'' ''s1'' ''.seg'') \<noteq> None"
    by (auto simp: index_view_def holds_segment_def stored_docs_def)
  with gc show ?thesis by (intro exI [of _ "table_json [example_manifest]"] exI [of _ s] exI [of _ s'] conjI)
qed

end
