(* ===== verification/Ingest.thy ===== *)
theory Ingest
  imports Compactor Wal
begin

text \<open>
  The writing side of an index (\<open>src/pkg/index/index.go\<close>, with \<open>list.go\<close>): documents go to the
  write-ahead log and to a memtable; a full or old memtable is swapped for an empty one and flushed
  to a segment in the background, after which the log is cut at the offset taken at the swap.

  The mutex makes every operation one step on the index, except that the background flush
  (\<open>flushAsync\<close>) and the middle part of \<open>FlushNow\<close> run without it. The background goroutine works
  only on its snapshot and on the blob store until it takes the lock again, so it is one step too; a
  caller that waits for it (\<open>waitForFlushLocked\<close>) runs it. \<open>FlushNow\<close> is composed of its two locked
  parts and the flush between them. Clock readings are arguments, bundled in \<open>clock\<close>; the two
  uploads of a flush run in either order (\<open>hcFirst\<close>). The blob store and the operating system can
  fail at every call. Logging and metrics are left out.

  This theory has the operations and what a single one does on a log whose file holds whole records
  (\<open>wal_clean\<close>); a flush publishes one new segment that holds exactly the documents of the memtable.
  Runs of many operations, with crashes, are in \<open>Ingest_Runs\<close>.
\<close>

section \<open>The index\<close>

record FlushConfig =
  fc_MaxDocs :: u32
  fc_MaxBytes :: int
  fc_MaxAge :: int

definition DefaultFlushConfig :: FlushConfig where
  "DefaultFlushConfig = \<lparr>fc_MaxDocs = 100000, fc_MaxBytes = 128 * 1024 * 1024, fc_MaxAge = 60 * 10 ^ 9\<rparr>"

text \<open>\<open>ix_flushing\<close> and \<open>ix_flushOff\<close> are also the arguments of the background goroutine; the channel
  \<open>flushDone\<close> is open exactly while \<open>ix_flushing\<close> is set.\<close>

record 'b Index =
  ix_name :: string
  ix_schema :: Schema
  ix_memtable :: "'b Memtable"
  ix_wal :: WAL
  ix_lastFlush :: int
  ix_flushCfg :: FlushConfig
  ix_flushing :: "'b Memtable option"
  ix_flushOff :: int
  ix_flushErr :: "err option"

record clock =
  ck_now :: int
  ck_nano :: int
  ck_millis :: int
  ck_publish :: "nat \<Rightarrow> int"

definition on_wal :: "'b Index \<Rightarrow> (WAL \<Rightarrow> 'a result \<times> WAL) \<Rightarrow> 'a result \<times> 'b Index" where
  "on_wal ix op = (case op (ix_wal ix) of (r, w) \<Rightarrow> (r, ix\<lparr>ix_wal := w\<rparr>))"

definition on_memtable :: "'b Index \<Rightarrow> ('b Memtable \<Rightarrow> 'a result \<times> 'b Memtable) \<Rightarrow> 'a result \<times> 'b Index" where
  "on_memtable ix op = (case op (ix_memtable ix) of (r, m) \<Rightarrow> (r, ix\<lparr>ix_memtable := m\<rparr>))"

section \<open>Flushing\<close>

definition schema_key :: "string \<Rightarrow> string" where
  "schema_key name = name @ ''/schema.json''"

definition persistSchema :: "schema_json \<Rightarrow> 's BlobStore \<Rightarrow> string \<Rightarrow> Schema \<Rightarrow> 's \<Rightarrow> unit result \<times> 's" where
  "persistSchema SJ B name sc s =
     st_bind (sc_Marshal SJ sc, s) (\<lambda>data s.
     case bs_Put B s (schema_key name) data \<lparr>IfNoneMatch = ''*'', ContentType = ''application/json''\<rparr> of
       (Ok _, s) \<Rightarrow> (Ok (), s)
     | (Err e, s) \<Rightarrow> if as_precondition_failed e then (Ok (), s) else (Err e, s)
     | (Panic, s) \<Rightarrow> (Panic, s))"

definition LoadSchema :: "schema_json \<Rightarrow> 's BlobStore \<Rightarrow> string \<Rightarrow> 's \<Rightarrow> Schema result" where
  "LoadSchema SJ B indexName s =
     res_bind (res_wrap ''load schema'' (bs_Get B s (schema_key indexName))) (sc_Parse SJ)"

text \<open>The error group: both uploads run and the first error is the result.\<close>

definition both :: "('s \<Rightarrow> unit result \<times> 's) \<Rightarrow> ('s \<Rightarrow> unit result \<times> 's) \<Rightarrow> 's \<Rightarrow> unit result \<times> 's" where
  "both first second s =
     (case first s of
        (Panic, s) \<Rightarrow> (Panic, s)
      | (Ok _, s) \<Rightarrow> second s
      | (Err e, s) \<Rightarrow> (case second s of (Panic, s) \<Rightarrow> (Panic, s) | (_, s) \<Rightarrow> (Err e, s)))"

definition runFlush ::
  "'b roaring \<Rightarrow> zstd \<Rightarrow> ('w, 'f) vellum \<Rightarrow> 's BlobStore \<Rightarrow> manifest_json \<Rightarrow> bool \<Rightarrow> clock \<Rightarrow> string \<Rightarrow> 'b Memtable \<Rightarrow> 's
     \<Rightarrow> unit result \<times> 's" where
  "runFlush R Z V B J hcFirst ck name snap s =
     st_bind (res_wrap ''flush: build segment'' (mt_Build R Z V snap), s) (\<lambda>result s.
     let segID = newSegmentID (ck_nano ck);
         putSeg = (\<lambda>s. st_wrap ''flush: upload seg'' (bs_Put B s (SegmentKey name segID ''.seg'') (SegBytes result) no_opts));
         putHc = (\<lambda>s. st_wrap ''flush: upload hotcache''
           (bs_Put B s (SegmentKey name segID ''.hotcache'') (HotcacheBytes result) no_opts)) in
     st_bind (if hcFirst then both putHc putSeg s else both putSeg putHc s) (\<lambda>_ s.
     let meta = new_meta (ck_nano ck) (ck_millis ck) result in
     st_bind (st_wrap ''flush: publish manifest'' (ms_PublishWithRetry B J name (ck_publish ck) s meta 5)) (\<lambda>_ s.
     (Ok (), s))))"

definition shouldFlush :: "clock \<Rightarrow> 'b Index \<Rightarrow> bool" where
  "shouldFlush ck ix =
     (let m = ix_memtable ix in
      if fc_MaxDocs (ix_flushCfg ix) \<le> mt_DocCount m then True
      else if fc_MaxBytes (ix_flushCfg ix) \<le> mt_EstimatedBytes m then True
      else fc_MaxAge (ix_flushCfg ix) \<le> ck_now ck - ix_lastFlush ix)"

definition wouldTriggerAfterLocked :: "clock \<Rightarrow> 'b Index \<Rightarrow> nat \<Rightarrow> bool" where
  "wouldTriggerAfterLocked ck ix n =
     (let m = ix_memtable ix in
      if fc_MaxDocs (ix_flushCfg ix) \<le> word_of_int (uint (mt_DocCount m) + int n) then True
      else if fc_MaxBytes (ix_flushCfg ix) \<le> mt_EstimatedBytes m then True
      else fc_MaxAge (ix_flushCfg ix) \<le> ck_now ck - ix_lastFlush ix)"

definition consumeFlushErrLocked :: "'b Index \<Rightarrow> unit result \<times> 'b Index" where
  "consumeFlushErrLocked ix =
     (case ix_flushErr ix of Some e \<Rightarrow> (Err e, ix\<lparr>ix_flushErr := None\<rparr>) | None \<Rightarrow> (Ok (), ix))"

definition triggerAsyncFlushLocked :: "zstd \<Rightarrow> 'b Index \<Rightarrow> unit result \<times> 'b Index" where
  "triggerAsyncFlushLocked Z ix =
     st_bind (st_wrap ''wal position'' (on_wal ix wal_Position)) (\<lambda>walOff ix.
     st_bind (NewMemtable Z (ix_schema ix), ix) (\<lambda>newMt ix.
     (Ok (), ix\<lparr>ix_memtable := newMt, ix_flushing := Some (ix_memtable ix), ix_flushOff := walOff\<rparr>)))"

text \<open>The last part of a flush, under the lock: a failing truncation is logged.\<close>

definition cut_wal :: "clock \<Rightarrow> int \<Rightarrow> 'b Index \<Rightarrow> unit result \<times> 'b Index" where
  "cut_wal ck walOff ix =
     (case on_wal ix (\<lambda>w. wal_TruncatePrefix w walOff) of
        (Panic, ix) \<Rightarrow> (Panic, ix)
      | (_, ix) \<Rightarrow> (Ok (), ix\<lparr>ix_lastFlush := ck_now ck\<rparr>))"

definition flushAsync ::
  "'b roaring \<Rightarrow> zstd \<Rightarrow> ('w, 'f) vellum \<Rightarrow> 's BlobStore \<Rightarrow> manifest_json \<Rightarrow> bool \<Rightarrow> clock \<Rightarrow> 'b Memtable \<Rightarrow> int
     \<Rightarrow> 'b Index \<times> 's \<Rightarrow> unit result \<times> 'b Index \<times> 's" where
  "flushAsync R Z V B J hcFirst ck snap walOff st =
     (let (ix, s) = st in
      case runFlush R Z V B J hcFirst ck (ix_name ix) snap s of
        (Panic, s) \<Rightarrow> (Panic, ix, s)
      | (Err e, s) \<Rightarrow> (Ok (), ix\<lparr>ix_flushErr := Some e, ix_flushing := None\<rparr>, s)
      | (Ok _, s) \<Rightarrow> (case cut_wal ck walOff ix of (r, ix) \<Rightarrow> (r, ix\<lparr>ix_flushing := None\<rparr>, s)))"

definition waitForFlushLocked ::
  "'b roaring \<Rightarrow> zstd \<Rightarrow> ('w, 'f) vellum \<Rightarrow> 's BlobStore \<Rightarrow> manifest_json \<Rightarrow> bool \<Rightarrow> clock
     \<Rightarrow> 'b Index \<times> 's \<Rightarrow> unit result \<times> 'b Index \<times> 's" where
  "waitForFlushLocked R Z V B J hcFirst ck st =
     (case ix_flushing (fst st) of None \<Rightarrow> (Ok (), st)
      | Some snap \<Rightarrow> flushAsync R Z V B J hcFirst ck snap (ix_flushOff (fst st)) st)"

text \<open>The first locked part of \<open>FlushNow\<close>: nothing to do, or the snapshot and the log offset.\<close>

definition FlushNow_snapshot :: "zstd \<Rightarrow> 'b Index \<Rightarrow> ('b Memtable \<times> int) option result \<times> 'b Index" where
  "FlushNow_snapshot Z ix =
     st_bind (consumeFlushErrLocked ix) (\<lambda>_ ix.
     if mt_DocCount (ix_memtable ix) = 0 then (Ok None, ix)
     else st_bind (on_wal ix wal_Position) (\<lambda>walOff ix.
       st_bind (NewMemtable Z (ix_schema ix), ix) (\<lambda>newMt ix.
       (Ok (Some (ix_memtable ix, walOff)), ix\<lparr>ix_memtable := newMt\<rparr>))))"

text \<open>An operation on the index alone, and one on the store alone.\<close>

definition on_ix :: "('b Index \<Rightarrow> 'a result \<times> 'b Index) \<Rightarrow> 'b Index \<times> 's \<Rightarrow> 'a result \<times> 'b Index \<times> 's" where
  "on_ix op st = (case op (fst st) of (r, ix) \<Rightarrow> (r, ix, snd st))"

definition on_store :: "('s \<Rightarrow> 'a result \<times> 's) \<Rightarrow> 'b Index \<times> 's \<Rightarrow> 'a result \<times> 'b Index \<times> 's" where
  "on_store op st = (case op (snd st) of (r, s) \<Rightarrow> (r, fst st, s))"

definition FlushNow ::
  "'b roaring \<Rightarrow> zstd \<Rightarrow> ('w, 'f) vellum \<Rightarrow> 's BlobStore \<Rightarrow> manifest_json \<Rightarrow> bool \<Rightarrow> clock \<Rightarrow> bool \<Rightarrow> clock
     \<Rightarrow> 'b Index \<times> 's \<Rightarrow> unit result \<times> 'b Index \<times> 's" where
  "FlushNow R Z V B J hcFirst1 ck1 hcFirst ck st =
     st_bind (waitForFlushLocked R Z V B J hcFirst1 ck1 st) (\<lambda>_ st.
     st_bind (on_ix (FlushNow_snapshot Z) st) (\<lambda>what st.
     case what of None \<Rightarrow> (Ok (), st)
     | Some (snap, walOff) \<Rightarrow>
       st_bind (on_store (runFlush R Z V B J hcFirst ck (ix_name (fst st)) snap) st) (\<lambda>_ st.
       on_ix (cut_wal ck walOff) st)))"

definition ix_Close ::
  "'b roaring \<Rightarrow> zstd \<Rightarrow> ('w, 'f) vellum \<Rightarrow> 's BlobStore \<Rightarrow> manifest_json \<Rightarrow> bool \<Rightarrow> clock \<Rightarrow> bool \<Rightarrow> clock
     \<Rightarrow> 'b Index \<times> 's \<Rightarrow> unit result \<times> 'b Index \<times> 's" where
  "ix_Close R Z V B J hcFirst1 ck1 hcFirst ck st =
     (case FlushNow R Z V B J hcFirst1 ck1 hcFirst ck st of
        (Panic, st) \<Rightarrow> (Panic, st)
      | (_, st) \<Rightarrow> on_ix (\<lambda>ix. on_wal ix wal_Close) st)"

section \<open>Opening\<close>

text \<open>The log file is returned in every case; in the result it is also the log of the index.\<close>

definition ix_Open ::
  "'b roaring \<Rightarrow> zstd \<Rightarrow> 'v fastjson \<Rightarrow> unicode \<Rightarrow> (string \<Rightarrow> Token list) \<Rightarrow> schema_json \<Rightarrow> 's BlobStore \<Rightarrow> clock
     \<Rightarrow> string \<Rightarrow> Schema \<Rightarrow> string \<Rightarrow> FlushConfig \<Rightarrow> bool \<Rightarrow> os_file \<Rightarrow> 's \<Rightarrow> 'b Index result \<times> WAL \<times> 's" where
  "ix_Open R Z FJ U tok SJ B ck name sc walDir flushCfg locked f s =
     (case wal_Open walDir locked f of (r, w) \<Rightarrow>
      st_bind (res_wrap ''open wal'' r, w, s) (\<lambda>_ (w, s).
      st_bind (NewMemtable Z sc, w, s) (\<lambda>mt (w, s).
      case wal_IsEmpty w of (r, w) \<Rightarrow>
      st_bind (r, w, s) (\<lambda>empty (w, s).
      case (if empty then ((Ok (), w), mt) else wal_Replay w (\<lambda>rawJSON mt. mt_Add R Z FJ U tok mt rawJSON) mt) of ((r, w), mt) \<Rightarrow>
      st_bind (res_wrap ''wal replay'' r, w, s) (\<lambda>_ (w, s).
      case persistSchema SJ B name sc s of (r, s) \<Rightarrow>
      st_bind (r, w, s) (\<lambda>_ (w, s).
      (Ok \<lparr>ix_name = name, ix_schema = sc, ix_memtable = mt, ix_wal = w, ix_lastFlush = ck_now ck,
           ix_flushCfg = flushCfg, ix_flushing = None, ix_flushOff = 0, ix_flushErr = None\<rparr>, w, s)))))))"

section \<open>Adding documents\<close>

definition flush_if_due :: "zstd \<Rightarrow> clock \<Rightarrow> 'b Index \<Rightarrow> unit result \<times> 'b Index" where
  "flush_if_due Z ck ix =
     (if shouldFlush ck ix \<and> ix_flushing ix = None then triggerAsyncFlushLocked Z ix else (Ok (), ix))"

definition ix_Add ::
  "'b roaring \<Rightarrow> zstd \<Rightarrow> 'v fastjson \<Rightarrow> unicode \<Rightarrow> (string \<Rightarrow> Token list) \<Rightarrow> clock \<Rightarrow> bytes \<Rightarrow> 'b Index \<Rightarrow> unit result \<times> 'b Index" where
  "ix_Add R Z FJ U tok ck rawJSON ix =
     st_bind (consumeFlushErrLocked ix) (\<lambda>_ ix.
     st_bind (st_wrap ''wal append'' (on_wal ix (\<lambda>w. wal_Append w rawJSON))) (\<lambda>_ ix.
     st_bind (st_wrap ''wal flush'' (on_wal ix wal_Flush)) (\<lambda>_ ix.
     st_bind (st_wrap ''memtable add'' (on_memtable ix (\<lambda>m. mt_Add R Z FJ U tok m rawJSON))) (\<lambda>_ ix.
     flush_if_due Z ck ix))))"

definition discard :: "unit result \<times> 'b Index \<Rightarrow> unit result \<times> 'b Index" where
  "discard p = (case p of (Err e, ix) \<Rightarrow> (Err e, ix\<lparr>ix_wal := wal_DiscardBuffer (ix_wal ix)\<rparr>) | _ \<Rightarrow> p)"

fun batch_loop ::
  "'b roaring \<Rightarrow> zstd \<Rightarrow> 'v fastjson \<Rightarrow> unicode \<Rightarrow> (string \<Rightarrow> Token list) \<Rightarrow> bytes list \<Rightarrow> 'b Index \<Rightarrow> unit result \<times> 'b Index" where
  "batch_loop R Z FJ U tok [] ix = (Ok (), ix)"
| "batch_loop R Z FJ U tok (doc # docs) ix =
     st_bind (discard (on_wal ix (\<lambda>w. wal_Append w doc))) (\<lambda>_ ix.
     st_bind (discard (on_memtable ix (\<lambda>m. mt_Add R Z FJ U tok m doc))) (\<lambda>_ ix.
     batch_loop R Z FJ U tok docs ix))"

definition AddBatch ::
  "'b roaring \<Rightarrow> zstd \<Rightarrow> ('w, 'f) vellum \<Rightarrow> 'v fastjson \<Rightarrow> unicode \<Rightarrow> (string \<Rightarrow> Token list) \<Rightarrow> 's BlobStore \<Rightarrow> manifest_json
     \<Rightarrow> bool \<Rightarrow> clock \<Rightarrow> clock \<Rightarrow> bytes list \<Rightarrow> 'b Index \<times> 's \<Rightarrow> unit result \<times> 'b Index \<times> 's" where
  "AddBatch R Z V FJ U tok B J hcFirst ck1 ck docs st =
     st_bind (if ix_flushing (fst st) \<noteq> None \<and> wouldTriggerAfterLocked ck (fst st) (length docs)
              then waitForFlushLocked R Z V B J hcFirst ck1 st else (Ok (), st)) (\<lambda>_ st.
     on_ix (\<lambda>ix.
       st_bind (consumeFlushErrLocked ix) (\<lambda>_ ix.
       st_bind (batch_loop R Z FJ U tok docs ix) (\<lambda>_ ix.
       st_bind (on_wal ix wal_Flush) (\<lambda>_ ix.
       flush_if_due Z ck ix)))) st)"

section \<open>Listing indexes\<close>

text \<open>\<open>names\<close> in any order: the set of them.\<close>

definition index_of_key :: "string \<Rightarrow> string option" where
  "index_of_key k =
     (if HasSuffix k ''/schema.json'' then
        let name = take (length k - length ''/schema.json'') k in
        if CHR ''/'' \<notin> set name \<and> name \<noteq> '''' then Some name else None
      else None)"

definition ListIndexes :: "'s BlobStore \<Rightarrow> 's \<Rightarrow> string set result" where
  "ListIndexes B s = res_bind (bs_List B s '''') (\<lambda>keys. Ok (set (List.map_filter index_of_key keys)))"

section \<open>A flush publishes the memtable\<close>

definition memtable_of ::
  "'b roaring \<Rightarrow> zstd \<Rightarrow> 'v fastjson \<Rightarrow> unicode \<Rightarrow> (string \<Rightarrow> Token list) \<Rightarrow> Schema \<Rightarrow> bytes list \<Rightarrow> 'b Memtable \<Rightarrow> bool" where
  "memtable_of R Z FJ U tok sc docs mt \<longleftrightarrow>
     (\<exists>m. NewMemtable Z sc = Ok m \<and> mt_AddAll R Z FJ U tok m docs = (Ok (), mt))"

text \<open>The segments listed by the last manifest of a log that are active.\<close>

definition log_active :: "Manifest list \<Rightarrow> SegmentMeta list" where
  "log_active ms = filter (\<lambda>m. \<not> sm_Deleted m) (current_segments (log_last ms))"

lemma memtable_built:
  assumes "memtable_of R Z FJ U tok sc docs mt" and "mt_Build R Z V mt = Ok res"
    and "length (SegBytes res) < 2 ^ 63" and "length (HotcacheBytes res) < 2 ^ 32"
  shows "built_from R Z V FJ U tok sc docs res"
  using assms by (auto simp: memtable_of_def built_from_def)

context blob_store
begin

text \<open>Two plain uploads in either order have the same effect.\<close>

lemma both_Put:
  assumes "k1 \<noteq> k2"
  shows "\<exists>s'. (if swap then both (\<lambda>s. st_wrap m2 (bs_Put B s k2 b2 no_opts)) (\<lambda>s. st_wrap m1 (bs_Put B s k1 b1 no_opts)) s
      else both (\<lambda>s. st_wrap m1 (bs_Put B s k1 b1 no_opts)) (\<lambda>s. st_wrap m2 (bs_Put B s k2 b2 no_opts)) s) = (Ok (), s') \<and>
    objects s' = (objects s)(k1 \<mapsto> b1, k2 \<mapsto> b2)"
proof -
  obtain s1 where s1: "bs_Put B s k1 b1 no_opts = (Ok (), s1)" "objects s1 = (objects s)(k1 \<mapsto> b1)" by (rule Put_plain)
  obtain s2 where s2: "bs_Put B s1 k2 b2 no_opts = (Ok (), s2)" "objects s2 = (objects s1)(k2 \<mapsto> b2)" by (rule Put_plain)
  obtain t1 where t1: "bs_Put B s k2 b2 no_opts = (Ok (), t1)" "objects t1 = (objects s)(k2 \<mapsto> b2)" by (rule Put_plain)
  obtain t2 where t2: "bs_Put B t1 k1 b1 no_opts = (Ok (), t2)" "objects t2 = (objects t1)(k1 \<mapsto> b1)" by (rule Put_plain)
  show ?thesis
    using s1 s2 t1 t2 assms by (cases swap) (auto simp: both_def fun_upd_twist)
qed

lemma runFlush_log:
  assumes log: "manifest_log J name (objects s) ms" and len: "Suc (length ms) < 10 ^ 6"
    and build: "mt_Build R Z V snap = Ok res" and meta: "meta = new_meta (ck_nano ck) (ck_millis ck) res"
    and mf': "mf' = next_manifest name (ck_publish ck 4) (length ms) (current_segments (log_last ms) @ [meta])"
    and json: "mj_roundtrip J mf'"
  obtains s' where "runFlush R Z V B J hcFirst ck name snap s = (Ok (), s')" "manifest_log J name (objects s') (ms @ [mf'])"
    "objects s' (SegmentKey name (newSegmentID (ck_nano ck)) ''.seg'') = Some (SegBytes res)"
    "objects s' (SegmentKey name (newSegmentID (ck_nano ck)) ''.hotcache'') = Some (HotcacheBytes res)"
    "\<And>k. \<not> HasPrefix k (manifest_prefix name) \<Longrightarrow> k \<noteq> SegmentKey name (newSegmentID (ck_nano ck)) ''.seg'' \<Longrightarrow>
      k \<noteq> SegmentKey name (newSegmentID (ck_nano ck)) ''.hotcache'' \<Longrightarrow> objects s' k = objects s k"
proof -
  let ?i = "newSegmentID (ck_nano ck)"
  let ?sk = "SegmentKey name ?i ''.seg''" and ?hk = "SegmentKey name ?i ''.hotcache''"
  have id: "seg_id_ok ?i" by (simp add: newSegmentID_def int_string_id_ok)
  have neq: "?sk \<noteq> ?hk" using SegmentKey_inj(3) [OF id id] .
  obtain s1 where s1: "(if hcFirst
      then both (\<lambda>s. st_wrap ''flush: upload hotcache'' (bs_Put B s ?hk (HotcacheBytes res) no_opts)) (\<lambda>s. st_wrap ''flush: upload seg'' (bs_Put B s ?sk (SegBytes res) no_opts)) s
      else both (\<lambda>s. st_wrap ''flush: upload seg'' (bs_Put B s ?sk (SegBytes res) no_opts)) (\<lambda>s. st_wrap ''flush: upload hotcache'' (bs_Put B s ?hk (HotcacheBytes res) no_opts)) s) = (Ok (), s1)"
    "objects s1 = (objects s)(?sk \<mapsto> SegBytes res, ?hk \<mapsto> HotcacheBytes res)"
    using both_Put [OF neq, of hcFirst] by blast
  have log1: "manifest_log J name (objects s1) ms"
    unfolding s1(2) using log by (intro manifest_log_other not_manifest_key(1))
  obtain s' where s': "ms_PublishWithRetry B J name (ck_publish ck) s1 meta 5 = (Ok mf', s')" "manifest_log J name (objects s') (ms @ [mf'])"
    "\<And>k. \<not> HasPrefix k (manifest_prefix name) \<Longrightarrow> objects s' k = objects s1 k"
    by (rule PublishWithRetry_log [where r = 4 and now = "ck_publish ck" and newSeg = meta, OF log1 len])
      (use json in \<open>simp_all add: mf' del: ms_PublishWithRetry.simps\<close>)
  have "runFlush R Z V B J hcFirst ck name snap s = (Ok (), s')"
    using build s1(1) s'(1) by (simp add: runFlush_def Let_def meta)
  then show thesis
    using that [of s'] s'(2,3) neq not_manifest_key(1) by (simp add: s1(2))
qed

text \<open>A manifest that cannot be encoded makes the flush fail after its uploads.\<close>

lemma runFlush_unencodable:
  assumes log: "manifest_log J name (objects s) []" and build: "mt_Build R Z V snap = Ok res"
    and bad: "mj_Marshal J (next_manifest name (ck_publish ck 4) 0 [new_meta (ck_nano ck) (ck_millis ck) res]) = Err (ErrMsg msg)"
  shows "\<exists>e s'. runFlush R Z V B J hcFirst ck name snap s = (Err e, s') \<and> manifest_log J name (objects s') []"
proof -
  let ?i = "newSegmentID (ck_nano ck)" and ?meta = "new_meta (ck_nano ck) (ck_millis ck) res"
  let ?sk = "SegmentKey name ?i ''.seg''" and ?hk = "SegmentKey name ?i ''.hotcache''"
  have id: "seg_id_ok ?i" by (simp add: newSegmentID_def int_string_id_ok)
  obtain s1 where s1: "(if hcFirst
      then both (\<lambda>s. st_wrap ''flush: upload hotcache'' (bs_Put B s ?hk (HotcacheBytes res) no_opts)) (\<lambda>s. st_wrap ''flush: upload seg'' (bs_Put B s ?sk (SegBytes res) no_opts)) s
      else both (\<lambda>s. st_wrap ''flush: upload seg'' (bs_Put B s ?sk (SegBytes res) no_opts)) (\<lambda>s. st_wrap ''flush: upload hotcache'' (bs_Put B s ?hk (HotcacheBytes res) no_opts)) s) = (Ok (), s1)"
    "objects s1 = (objects s)(?sk \<mapsto> SegBytes res, ?hk \<mapsto> HotcacheBytes res)"
    using both_Put [OF SegmentKey_inj(3) [OF id id], of hcFirst] by blast
  have log1: "manifest_log J name (objects s1) []"
    unfolding s1(2) using log by (intro manifest_log_other not_manifest_key(1))
  have "ms_publishNext B J name (ck_publish ck 4) s1 None [?meta] = (Err (ErrMsg msg), s1)"
    using bad by (simp add: ms_publishNext_def next_manifest_def)
  then have "ms_PublishWithRetry B J name (ck_publish ck) s1 ?meta (Suc 4) = (Err (ErrMsg msg), s1)"
    using Latest_log [OF log1] by (subst ms_PublishWithRetry.simps(2)) (simp add: ms_Publish_def log_last_def current_segments_def)
  then have "runFlush R Z V B J hcFirst ck name snap s = (Err (ErrWrap ''flush: publish manifest'' (ErrMsg msg)), s1)"
    using build s1(1) by (simp add: runFlush_def Let_def)
  then show ?thesis using log1 by blast
qed

end

text \<open>The keys a flush may write: the manifests of the index and the two files of the new segment.\<close>

definition flush_keys :: "string \<Rightarrow> string \<Rightarrow> string set" where
  "flush_keys name i = {k. HasPrefix k (manifest_prefix name)} \<union> {SegmentKey name i ''.seg'', SegmentKey name i ''.hotcache''}"

lemma runFlush_view:
  assumes store: "blob_store B objects" and log: "manifest_log J name (objects s) ms" and len: "Suc (length ms) < 10 ^ 6"
    and view: "index_view R Z V FJ U tok sc name (objects s) (log_active ms) vs"
    and sc: "schema_ok sc" and ok: "docs_ok FJ U tok sc docs" and snap: "memtable_of R Z FJ U tok sc docs snap"
    and build: "mt_Build R Z V snap = Ok res" and size: "length (SegBytes res) < 2 ^ 63" "length (HotcacheBytes res) < 2 ^ 32"
    and fresh: "newSegmentID (ck_nano ck) \<notin> sm_ID ` set (log_active ms)"
    and mf': "mf' = next_manifest name (ck_publish ck 4) (length ms)
      (current_segments (log_last ms) @ [new_meta (ck_nano ck) (ck_millis ck) res])"
    and json: "mj_roundtrip J mf'"
  shows "\<exists>s'. runFlush R Z V B J hcFirst ck name snap s = (Ok (), s') \<and> manifest_log J name (objects s') (ms @ [mf']) \<and>
    index_view R Z V FJ U tok sc name (objects s') (ActiveSegments mf') (vs @ [(docs, {})]) \<and>
    (\<forall>k. k \<notin> flush_keys name (newSegmentID (ck_nano ck)) \<longrightarrow> objects s' k = objects s k)"
proof -
  let ?i = "newSegmentID (ck_nano ck)" and ?meta = "new_meta (ck_nano ck) (ck_millis ck) res"
  have id: "seg_id_ok ?i" by (simp add: newSegmentID_def int_string_id_ok)
  obtain s' where s': "runFlush R Z V B J hcFirst ck name snap s = (Ok (), s')" "manifest_log J name (objects s') (ms @ [mf'])"
    "objects s' (SegmentKey name ?i ''.seg'') = Some (SegBytes res)" "objects s' (SegmentKey name ?i ''.hotcache'') = Some (HotcacheBytes res)"
    and frame: "\<And>k. \<not> HasPrefix k (manifest_prefix name) \<Longrightarrow> k \<noteq> SegmentKey name ?i ''.seg'' \<Longrightarrow>
      k \<noteq> SegmentKey name ?i ''.hotcache'' \<Longrightarrow> objects s' k = objects s k"
    using blob_store.runFlush_log [where hcFirst = hcFirst, OF store, OF log len build refl mf' json] by blast
  have "holds_segment R Z V FJ U tok sc name (objects s') m v"
    if "m \<in> set (log_active ms)" "holds_segment R Z V FJ U tok sc name (objects s) m v" for m v
  proof (rule holds_segment_frame [OF that(2) _ id])
    show "sm_ID m \<noteq> ?i" using imageI [OF that(1), of sm_ID] fresh by auto
  qed (rule frame)
  then have "list_all2 (holds_segment R Z V FJ U tok sc name (objects s')) (log_active ms) vs"
    using view by (auto simp: index_view_def list_all2_conv_all_nth)
  moreover have "holds_segment R Z V FJ U tok sc name (objects s') ?meta (docs, {})"
    by (rule new_segment_stored [OF sc ok memtable_built [OF snap build size] s'(3,4)])
  moreover have "ActiveSegments mf' = log_active ms @ [?meta]"
    by (simp add: mf' ActiveSegments_def next_manifest_def log_active_def new_meta_def)
  moreover have "\<forall>k. k \<notin> flush_keys name ?i \<longrightarrow> objects s' k = objects s k" using frame by (simp add: flush_keys_def)
  ultimately show ?thesis using s'(1,2) by (auto simp: index_view_def intro: list_all2_appendI)
qed

section \<open>Operations on a clean log\<close>

text \<open>A log whose file holds exactly the given records, with nothing buffered.\<close>

definition wal_clean :: "string \<Rightarrow> bytes list \<Rightarrow> WAL \<Rightarrow> bool" where
  "wal_clean d ps w \<longleftrightarrow> w = mkwal d (wal_file ps) [] \<and> (\<forall>p \<in> set ps. record_wf p \<and> json_Compact p = Ok p)"

lemma wal_records_append [simp]: "wal_records (ps @ qs) = wal_records ps @ wal_records qs"
  by (simp add: wal_records_def)

lemma wal_file_append: "wal_file (ps @ qs) = wal_header @ wal_records ps @ wal_records qs"
  by (simp add: wal_file_def wal_records_def)

lemma wal_file_snoc: "wal_file (ps @ [p]) = wal_file ps @ enc_record p"
  by (simp add: wal_file_def wal_records_def)

lemma wal_TruncatePrefix_clean:
  "wal_TruncatePrefix (mkwal d (wal_header @ x @ y) []) (int (length (wal_header @ x))) = (Ok (), mkwal d (wal_header @ y) [])"
proof -
  let ?k = "\<lambda>w. st_bind (wal_writeHeader w) (\<lambda>_ w. st_bind (on_file w (\<lambda>f. f_Write f y)) (\<lambda>_ w.
    st_bind (on_file w f_SeekEnd) (\<lambda>_ w. on_file w f_Sync)))"
  consider "x = []" | "x \<noteq> []" "y = []" | "x \<noteq> []" "y \<noteq> []" by blast
  then show ?thesis
  proof cases
    case 2
    then show ?thesis
      using wal_Truncate_at [of d "wal_header @ x" "mkwal d (wal_header @ x) []"] by (simp add: wal_TruncatePrefix_def on_file_def)
  next
    case 3
    have "f_ReadAt (mkfile (wal_header @ x @ y)) (length y) (headerSize + length x) = Ok y" by (simp add: f_ReadAt_def)
    then have "wal_TruncatePrefix (mkwal d (wal_header @ x @ y) []) (int (length (wal_header @ x))) = ?k (mkwal d [] [])"
      using 3 clear_file [of d "wal_header @ x @ y" "[]" ?k] by (simp add: wal_TruncatePrefix_def on_file_def nat_add_distrib)
    then show ?thesis by (simp add: wal_writeHeader_empty on_file_def)
  qed (simp add: wal_TruncatePrefix_def)
qed

lemma cut_wal_clean:
  assumes "wal_clean d (ps @ qs) (ix_wal ix)"
  shows "cut_wal ck (int (length (wal_file ps))) ix =
      (Ok (), ix\<lparr>ix_wal := mkwal d (wal_file qs) [], ix_lastFlush := ck_now ck\<rparr>) \<and>
    wal_clean d qs (mkwal d (wal_file qs) [])"
  using assms wal_TruncatePrefix_clean [of d "wal_records ps" "wal_records qs"]
  by (simp add: wal_clean_def cut_wal_def on_wal_def wal_file_append) (simp add: wal_file_def)

lemma memtable_of_snoc:
  "memtable_of R Z FJ U tok sc ds m \<Longrightarrow> mt_Add R Z FJ U tok m d = (Ok (), m') \<Longrightarrow> memtable_of R Z FJ U tok sc (ds @ [d]) m'"
  by (auto simp: memtable_of_def mt_AddAll_append)

lemma memtable_of_new: "NewMemtable Z sc = Ok m \<Longrightarrow> memtable_of R Z FJ U tok sc [] m"
  by (auto simp: memtable_of_def)

lemma memtable_of_exists: "memtable_of R Z FJ U tok sc ds m \<Longrightarrow> \<exists>m0 :: 'b Memtable. NewMemtable Z sc = Ok m0"
  by (auto simp: memtable_of_def NewMemtable_def res_bind_eq_Ok)

lemma mt_Add_cases:
  obtains (added) m' where "parses FJ d" "mt_Add R Z FJ U tok m d = (Ok (), m')"
  | (rejected) r where "\<not> parses FJ d" "mt_Add R Z FJ U tok m d = (r, m)" "r \<noteq> Ok ()"
  by (cases "fj_ParseBytes FJ d") (auto simp: mt_Add_def parses_def Let_def)

lemma wal_Append_Flush_clean:
  assumes w: "wal_clean d ps w" and p: "json_Compact doc = Ok p" and len: "length doc < 2 ^ 32"
  obtains w1 where "wal_Append w doc = (Ok (), w1)" "wal_Flush w1 = (Ok (), mkwal d (wal_file (ps @ [p])) [])"
    "wal_clean d (ps @ [p]) (mkwal d (wal_file (ps @ [p])) [])"
proof -
  have "wal_at d (wal_file ps) w" using w by (simp add: wal_clean_def)
  then obtain w1 where "wal_Append w doc = (Ok (), w1)" "wal_at d (wal_file (ps @ [p])) w1"
    using p wal_file_snoc by (metis wal_Append_at)
  moreover have "record_wf p" using json_Compact_length [OF p] len by (simp add: record_wf_def)
  ultimately show thesis
    using that wal_Flush_at w json_Compact_idem [OF p] by (simp add: wal_clean_def)
qed

lemma wal_Position_clean: "wal_clean d ps w \<Longrightarrow> wal_Position w = (Ok (int (length (wal_file ps))), w)"
  using wal_Position_at [of d "wal_file ps" w] by (simp add: wal_clean_def)

lemma flush_if_due_at:
  assumes w: "ix_wal ix = mkwal d c []" and new: "NewMemtable Z (ix_schema ix) = Ok m0"
  obtains (none) "flush_if_due Z ck ix = (Ok (), ix)"
  | (swap) "ix_flushing ix = None"
      "flush_if_due Z ck ix = (Ok (), ix\<lparr>ix_memtable := m0, ix_flushing := Some (ix_memtable ix), ix_flushOff := int (length c)\<rparr>)"
proof (cases "shouldFlush ck ix \<and> ix_flushing ix = None")
  case True
  have "wal_Position (ix_wal ix) = (Ok (int (length c)), ix_wal ix)" using wal_Position_at [of d c "ix_wal ix"] w by simp
  then show thesis using True new swap by (simp add: flush_if_due_def triggerAsyncFlushLocked_def on_wal_def)
qed (auto simp: flush_if_due_def intro: none)

lemma flush_if_due_clean:
  assumes "wal_clean d ps (ix_wal ix)" and "NewMemtable Z (ix_schema ix) = Ok m0"
  obtains (none) "flush_if_due Z ck ix = (Ok (), ix)"
  | (swap) "ix_flushing ix = None"
      "flush_if_due Z ck ix = (Ok (), ix\<lparr>ix_memtable := m0, ix_flushing := Some (ix_memtable ix), ix_flushOff := int (length (wal_file ps))\<rparr>)"
proof -
  have "ix_wal ix = mkwal d (wal_file ps) []" using assms(1) by (simp add: wal_clean_def)
  from this assms(2) show thesis by (cases rule: flush_if_due_at [where ck = ck]) (use that in auto)
qed

end
