(* ===== verification/Ingest_Runs.thy ===== *)
theory Ingest_Runs
  imports Ingest
begin

text \<open>
  Runs of the writing side of an index: adds, batches, flushes, crashes and recoveries in any order,
  as a step relation with ghost components. The invariant \<open>run_inv\<close> says where every acknowledged
  document is. Results: no acknowledged document is lost as long as no flush succeeds after one that
  failed; a forced flush publishes exactly the memtable; and two runs that lose documents: a
  successful flush after a failed one, and a rejected batch that is larger than the buffer of the log.
\<close>

section \<open>Runs\<close>

text \<open>
  A run of the writer, with crashes. Ghost components: the documents whose \<open>Add\<close> or \<open>AddBatch\<close>
  returned without an error (in compact form), the memtables whose flush succeeded, and whether a
  flush failed since the index was opened.
\<close>

record ('b, 's) run_state =
  rn_ix :: "'b Index"
  rn_store :: 's
  rn_acked :: "bytes set"
  rn_flushed :: "'b Memtable list"
  rn_failed :: bool

text \<open>What a crash leaves of the log: the content of the file, without the buffer.\<close>

definition disk :: "WAL \<Rightarrow> os_file" where
  "disk w = \<lparr>f_data = f_data (wal_f w), f_pos = 0, f_faults = []\<rparr>"

text \<open>Batches that do not leave part of a record in the log: all documents are accepted, or the whole
  batch fits into the buffer of the log, which is discarded on an error.\<close>

definition batch_fits :: "'v fastjson \<Rightarrow> bytes list \<Rightarrow> bool" where
  "batch_fits FJ docs \<longleftrightarrow>
     (\<forall>d \<in> set docs. json_Valid d \<and> parses FJ d) \<or> length (wal_records (map compacted docs)) \<le> bw_size"

definition acked_after :: "unit result \<Rightarrow> bytes list \<Rightarrow> bytes set \<Rightarrow> bytes set" where
  "acked_after r docs A = (if r = Ok () then A \<union> compacted ` set docs else A)"

inductive run_step ::
  "'b roaring \<Rightarrow> zstd \<Rightarrow> ('w, 'f) vellum \<Rightarrow> 'v fastjson \<Rightarrow> unicode \<Rightarrow> (string \<Rightarrow> Token list) \<Rightarrow> schema_json \<Rightarrow> 's BlobStore
     \<Rightarrow> manifest_json \<Rightarrow> ('b, 's) run_state \<Rightarrow> ('b, 's) run_state \<Rightarrow> bool"
  for R Z V FJ U tok SJ B J
where
  add: "length doc < 2 ^ 32 \<Longrightarrow> ix_Add R Z FJ U tok ck doc (rn_ix st) = (r, ix) \<Longrightarrow>
    run_step R Z V FJ U tok SJ B J st (st\<lparr>rn_ix := ix, rn_acked := acked_after r [doc] (rn_acked st)\<rparr>)"
| batch: "\<forall>d \<in> set docs. length d < 2 ^ 32 \<Longrightarrow> batch_fits FJ docs \<Longrightarrow>
    ix_flushing (rn_ix st) = None \<or> \<not> wouldTriggerAfterLocked ck (rn_ix st) (length docs) \<Longrightarrow>
    AddBatch R Z V FJ U tok B J hcFirst ck1 ck docs (rn_ix st, rn_store st) = (r, ix, s) \<Longrightarrow>
    run_step R Z V FJ U tok SJ B J st (st\<lparr>rn_ix := ix, rn_store := s, rn_acked := acked_after r docs (rn_acked st)\<rparr>)"
| flush_ok: "\<not> rn_failed st \<Longrightarrow> ix_flushing (rn_ix st) = Some snap \<Longrightarrow>
    fst (runFlush R Z V B J hcFirst ck (ix_name (rn_ix st)) snap (rn_store st)) = Ok () \<Longrightarrow>
    flushAsync R Z V B J hcFirst ck snap (ix_flushOff (rn_ix st)) (rn_ix st, rn_store st) = (r, ix, s) \<Longrightarrow>
    run_step R Z V FJ U tok SJ B J st (st\<lparr>rn_ix := ix, rn_store := s, rn_flushed := snap # rn_flushed st\<rparr>)"
| flush_err: "ix_flushing (rn_ix st) = Some snap \<Longrightarrow>
    fst (runFlush R Z V B J hcFirst ck (ix_name (rn_ix st)) snap (rn_store st)) = Err e \<Longrightarrow>
    flushAsync R Z V B J hcFirst ck snap (ix_flushOff (rn_ix st)) (rn_ix st, rn_store st) = (r, ix, s) \<Longrightarrow>
    run_step R Z V FJ U tok SJ B J st (st\<lparr>rn_ix := ix, rn_store := s, rn_failed := True\<rparr>)"
| flush_now_ok: "\<not> rn_failed st \<Longrightarrow> ix_flushing (rn_ix st) = None \<Longrightarrow>
    FlushNow R Z V B J hcFirst1 ck1 hcFirst ck (rn_ix st, rn_store st) = (Ok (), ix, s) \<Longrightarrow>
    run_step R Z V FJ U tok SJ B J st (st\<lparr>rn_ix := ix, rn_store := s,
      rn_flushed := (if mt_DocCount (ix_memtable (rn_ix st)) = 0 then rn_flushed st else ix_memtable (rn_ix st) # rn_flushed st)\<rparr>)"
| flush_now_err: "ix_flushing (rn_ix st) = None \<Longrightarrow>
    FlushNow R Z V B J hcFirst1 ck1 hcFirst ck (rn_ix st, rn_store st) = (Err e, ix, s) \<Longrightarrow>
    run_step R Z V FJ U tok SJ B J st (st\<lparr>rn_ix := ix, rn_store := s, rn_failed := True\<rparr>)"
| others: "run_step R Z V FJ U tok SJ B J st (st\<lparr>rn_store := s\<rparr>)"
| crash: "ix_Open R Z FJ U tok SJ B ck name (ix_schema (rn_ix st)) dir cfg False (disk (ix_wal (rn_ix st))) (rn_store st) = (Ok ix, w, s) \<Longrightarrow>
    run_step R Z V FJ U tok SJ B J st (st\<lparr>rn_ix := ix, rn_store := s, rn_failed := False\<rparr>)"
| crash_published: "ix_flushing (rn_ix st) = Some snap \<Longrightarrow>
    runFlush R Z V B J hcFirst ck1 (ix_name (rn_ix st)) snap (rn_store st) = (Ok (), s1) \<Longrightarrow>
    ix_Open R Z FJ U tok SJ B ck name (ix_schema (rn_ix st)) dir cfg False (disk (ix_wal (rn_ix st))) s1 = (Ok ix, w, s) \<Longrightarrow>
    run_step R Z V FJ U tok SJ B J st (st\<lparr>rn_ix := ix, rn_store := s, rn_failed := False, rn_flushed := snap # rn_flushed st\<rparr>)"

text \<open>The documents of the flushed memtables, in compact form.\<close>

definition flushed_docs ::
  "'b roaring \<Rightarrow> zstd \<Rightarrow> 'v fastjson \<Rightarrow> unicode \<Rightarrow> (string \<Rightarrow> Token list) \<Rightarrow> Schema \<Rightarrow> 'b Memtable list \<Rightarrow> bytes set" where
  "flushed_docs R Z FJ U tok sc ms = {compacted d | d docs m. m \<in> set ms \<and> memtable_of R Z FJ U tok sc docs m \<and> d \<in> set docs}"

text \<open>
  The invariant. While no flush has failed, every acknowledged document is in a flushed memtable, or
  in the memtable being flushed and in the part of the log that its flush will cut off, or in the
  current memtable and in the rest of the log. After a failure only the log counts.
\<close>

definition docs_kept :: "'v fastjson \<Rightarrow> bytes set \<Rightarrow> bool" where
  "docs_kept FJ A \<longleftrightarrow> (\<forall>a \<in> A. parses FJ a \<and> json_Compact a = Ok a)"

inductive run_inv ::
  "'b roaring \<Rightarrow> zstd \<Rightarrow> 'v fastjson \<Rightarrow> unicode \<Rightarrow> (string \<Rightarrow> Token list) \<Rightarrow> Schema
     \<Rightarrow> bytes set \<Rightarrow> bytes set \<Rightarrow> 'b Index \<Rightarrow> bool \<Rightarrow> bool"
  for R Z FJ U tok sc A F
where
  idle: "ix_schema ix = sc \<Longrightarrow> docs_kept FJ A \<Longrightarrow> wal_clean d qs (ix_wal ix) \<Longrightarrow> memtable_of R Z FJ U tok sc ds (ix_memtable ix) \<Longrightarrow>
    ix_flushing ix = None \<Longrightarrow> A \<subseteq> F \<union> (compacted ` set ds \<inter> set qs) \<Longrightarrow> run_inv R Z FJ U tok sc A F ix False"
| flushing: "ix_schema ix = sc \<Longrightarrow> docs_kept FJ A \<Longrightarrow> wal_clean d (ps @ qs) (ix_wal ix) \<Longrightarrow> memtable_of R Z FJ U tok sc ds (ix_memtable ix) \<Longrightarrow>
    ix_flushing ix = Some snap \<Longrightarrow> memtable_of R Z FJ U tok sc fs snap \<Longrightarrow> ix_flushOff ix = int (length (wal_file ps)) \<Longrightarrow>
    A \<subseteq> F \<union> (compacted ` set fs \<inter> set ps) \<union> (compacted ` set ds \<inter> set qs) \<Longrightarrow> run_inv R Z FJ U tok sc A F ix False"
| failed: "ix_schema ix = sc \<Longrightarrow> docs_kept FJ A \<Longrightarrow> wal_clean d ps (ix_wal ix) \<Longrightarrow> memtable_of R Z FJ U tok sc ds (ix_memtable ix) \<Longrightarrow>
    A \<subseteq> F \<union> set ps \<Longrightarrow> run_inv R Z FJ U tok sc A F ix True"

text \<open>What every state that satisfies the invariant has: all other acknowledged documents are in the log.\<close>

lemma run_inv_log:
  assumes "run_inv R Z FJ U tok sc A F ix b"
  obtains d ps ds where "ix_schema ix = sc" "docs_kept FJ A" "wal_clean d ps (ix_wal ix)" "A \<subseteq> F \<union> set ps"
    "memtable_of R Z FJ U tok sc ds (ix_memtable ix)"
  using assms
proof cases
  case (idle d qs ds)
  then show thesis by (intro that [of d qs ds]) auto
next
  case (flushing d ps qs ds snap fs)
  then show thesis by (intro that [of d "ps @ qs" ds]) auto
qed (use that in blast)

lemma run_inv_failed: "run_inv R Z FJ U tok sc A F ix b \<Longrightarrow> run_inv R Z FJ U tok sc A F ix True"
  by (erule run_inv_log) (rule run_inv.failed)

text \<open>The invariant looks at few components of the index.\<close>

lemma run_inv_cong:
  assumes "run_inv R Z FJ U tok sc A F ix b" and "ix_schema ix' = ix_schema ix" "ix_wal ix' = ix_wal ix" "ix_memtable ix' = ix_memtable ix"
    and "b \<or> (ix_flushing ix' = ix_flushing ix \<and> ix_flushOff ix' = ix_flushOff ix)"
  shows "run_inv R Z FJ U tok sc A F ix' b"
  using assms(1)
proof cases
  case (idle d qs ds)
  with assms(2-5) show ?thesis by (auto intro: run_inv.idle)
next
  case (flushing d ps qs ds snap fs)
  with assms(2-5) show ?thesis by (auto intro: run_inv.flushing)
next
  case (failed d ps ds)
  with assms(2-5) show ?thesis by (auto intro: run_inv.failed)
qed

lemma run_inv_mono:
  assumes "run_inv R Z FJ U tok sc A F ix b" and "F \<subseteq> F'"
  shows "run_inv R Z FJ U tok sc A F' ix b"
  using assms(1)
proof cases
  case (idle d qs ds)
  moreover have "A \<subseteq> F' \<union> (compacted ` set ds \<inter> set qs)" using idle assms(2) by blast
  ultimately show ?thesis by (auto intro: run_inv.idle)
next
  case (flushing d ps qs ds snap fs)
  moreover have "A \<subseteq> F' \<union> (compacted ` set fs \<inter> set ps) \<union> (compacted ` set ds \<inter> set qs)" using flushing assms(2) by blast
  ultimately show ?thesis by (auto intro: run_inv.flushing)
next
  case (failed d ps ds)
  moreover have "A \<subseteq> F' \<union> set ps" using failed assms(2) by blast
  ultimately show ?thesis by (auto intro: run_inv.failed)
qed

section \<open>Every step keeps the invariant\<close>

text \<open>Records and documents that are appended at the end: \<open>new\<close> are those acknowledged.\<close>

lemma run_inv_append:
  assumes inv: "run_inv R Z FJ U tok sc A F ix b" and w: "wal_clean d ps (ix_wal ix)"
    and w': "wal_clean d (ps @ rs) (ix_wal ix')" and mt': "\<And>ds. memtable_of R Z FJ U tok sc ds (ix_memtable ix) \<Longrightarrow>
      memtable_of R Z FJ U tok sc (ds @ xs) (ix_memtable ix')"
    and same: "ix_schema ix' = ix_schema ix" "ix_flushing ix' = ix_flushing ix" "ix_flushOff ix' = ix_flushOff ix"
    and new: "new \<subseteq> compacted ` set xs \<inter> set rs" and keep: "docs_kept FJ new"
  shows "run_inv R Z FJ U tok sc (A \<union> new) F ix' b"
proof -
  have kept: "docs_kept FJ A \<Longrightarrow> docs_kept FJ (A \<union> new)" using keep by (auto simp: docs_kept_def)
  have recs: "wal_clean d' qs (ix_wal ix) \<Longrightarrow> d' = d \<and> wal_records qs = wal_records ps" for d' qs
    using w by (simp add: wal_clean_def wal_file_def)
  from inv show ?thesis
  proof cases
    case (idle d' qs ds)
    have "wal_clean d (qs @ rs) (ix_wal ix')"
      using recs [OF idle(4)] w' idle(4) by (auto simp: wal_clean_def wal_file_append)
    note wc = this
    show ?thesis
      unfolding idle(1) by (rule run_inv.idle [OF _ _ wc mt' [OF idle(5)]]) (use idle kept same new in auto)
  next
    case (flushing d' ps' qs ds snap fs)
    have "wal_clean d (ps' @ (qs @ rs)) (ix_wal ix')"
      using recs [OF flushing(4)] w' flushing(4) by (auto simp: wal_clean_def wal_file_append)
    note wc = this
    show ?thesis
      unfolding flushing(1) by (rule run_inv.flushing [OF _ _ wc mt' [OF flushing(5)] _ flushing(7)]) (use flushing kept same new in auto)
  next
    case (failed d' qs ds)
    have "wal_clean d (qs @ rs) (ix_wal ix')"
      using recs [OF failed(4)] w' failed(4) by (auto simp: wal_clean_def wal_file_append)
    note wc = this
    show ?thesis
      unfolding failed(1) by (rule run_inv.failed [OF _ _ wc mt' [OF failed(5)]]) (use failed kept same new in auto)
  qed
qed

lemma flush_if_due_inv:
  assumes inv: "run_inv (R :: 'b roaring) Z FJ U tok sc A F ix b" and res: "flush_if_due Z ck ix = (r, ix')"
  shows "r = Ok () \<and> run_inv R Z FJ U tok sc A F ix' b"
proof -
  obtain d ps ds where log: "ix_schema ix = sc" "docs_kept FJ A" "wal_clean d ps (ix_wal ix)" "A \<subseteq> F \<union> set ps"
    "memtable_of R Z FJ U tok sc ds (ix_memtable ix)" using inv by (rule run_inv_log)
  obtain m0 :: "'b Memtable" where m0: "NewMemtable Z (ix_schema ix) = Ok m0" using log(1,5) by (auto dest: memtable_of_exists)
  have new: "memtable_of R Z FJ U tok sc [] m0" using m0 log(1) by (simp add: memtable_of_new)
  from log(3) m0 show ?thesis
  proof (cases rule: flush_if_due_clean [where ck = ck])
    case none
    then show ?thesis using res inv by simp
  next
    case swap
    from inv show ?thesis
    proof cases
      case (idle d' qs ds')
      have "d' = d" "wal_records qs = wal_records ps" using log(3) idle(4) by (simp_all add: wal_clean_def wal_file_def)
      then have off: "int (length (wal_file ps)) = int (length (wal_file qs))" by (simp add: wal_file_def)
      have "run_inv R Z FJ U tok sc A F ix' False"
        by (rule run_inv.flushing [where ps = qs and qs = "[]" and ds = "[]" and fs = ds'])
          (use swap res idle new off in auto)
      then show ?thesis using swap res idle by simp
    next
      case (failed d' qs ds')
      have "run_inv R Z FJ U tok sc A F ix' True"
        by (rule run_inv.failed [where ps = qs and ds = "[]"]) (use swap res failed new in auto)
      then show ?thesis using swap res failed by simp
    qed (use swap in simp)
  qed
qed

text \<open>What the writer relies on of the JSON parser of the memtable: it does not panic, and it accepts
  the compact form of what it accepts.\<close>

definition fj_ok :: "'v fastjson \<Rightarrow> bool" where
  "fj_ok FJ \<longleftrightarrow> (\<forall>d. fj_ParseBytes FJ d \<noteq> Panic) \<and> (\<forall>d p. json_Compact d = Ok p \<longrightarrow> parses FJ d \<longrightarrow> parses FJ p)"

lemma compacted_kept: "fj_ok FJ \<Longrightarrow> json_Compact d = Ok p \<Longrightarrow> parses FJ d \<Longrightarrow> docs_kept FJ {p}"
  using json_Compact_idem by (auto simp: fj_ok_def docs_kept_def)

lemma accepted_kept:
  assumes "fj_ok FJ" and "\<forall>x \<in> set docs. json_Valid x \<and> parses FJ x"
  shows "docs_kept FJ (compacted ` set docs)"
proof -
  have "docs_kept FJ {compacted x}" if "x \<in> set docs" for x
  proof -
    have "json_Valid x" using assms(2) that by blast
    then obtain p where p: "json_Compact x = Ok p" by (auto simp: json_Valid_iff)
    then show ?thesis using compacted_kept [OF assms(1) p] assms(2) that by (simp add: compacted_def)
  qed
  then show ?thesis by (simp add: docs_kept_def)
qed

lemma run_inv_consume:
  assumes "run_inv R Z FJ U tok sc A F ix b"
  shows "run_inv R Z FJ U tok sc A F (snd (consumeFlushErrLocked ix)) b"
  by (rule run_inv_cong [OF assms]) (simp_all add: consumeFlushErrLocked_def split: option.split)

lemma consume_Ok: "consumeFlushErrLocked ix = (r, ix') \<Longrightarrow> (r = Ok () \<and> ix' = ix) \<or> (\<exists>e. r = Err e)"
  by (auto simp: consumeFlushErrLocked_def split: option.splits)

lemma ix_Add_inv:
  assumes FJ: "fj_ok FJ" and inv: "run_inv R Z FJ U tok sc A F ix b" and len: "length doc < 2 ^ 32"
    and add: "ix_Add R Z FJ U tok ck doc ix = (r, ix')"
  shows "run_inv R Z FJ U tok sc (acked_after r [doc] A) F ix' b"
proof (cases "ix_flushErr ix")
  case (Some e)
  then have "r = Err e" "ix' = snd (consumeFlushErrLocked ix)" using add by (simp_all add: ix_Add_def consumeFlushErrLocked_def)
  then show ?thesis using run_inv_consume [OF inv] by (simp add: acked_after_def)
next
  case None
  obtain d ps ds where w: "wal_clean d ps (ix_wal ix)" using inv by (rule run_inv_log)
  show ?thesis
  proof (cases "json_Compact doc")
    case (Ok p)
    let ?w = "mkwal d (wal_file (ps @ [p])) []"
    obtain w1 where w1: "wal_Append (ix_wal ix) doc = (Ok (), w1)" "wal_Flush w1 = (Ok (), ?w)" "wal_clean d (ps @ [p]) ?w"
      using w Ok len by (rule wal_Append_Flush_clean)
    have p: "compacted doc = p" using Ok by (simp add: compacted_def)
    have run: "(r, ix') = st_bind (st_wrap ''memtable add'' (on_memtable (ix\<lparr>ix_wal := ?w\<rparr>) (\<lambda>m. mt_Add R Z FJ U tok m doc))) (\<lambda>_. flush_if_due Z ck)"
      using add None w1(1,2) by (simp add: ix_Add_def consumeFlushErrLocked_def on_wal_def)
    show ?thesis
    proof (cases rule: mt_Add_cases [of FJ doc R Z U tok "ix_memtable ix"])
      case (added m')
      have i: "run_inv R Z FJ U tok sc (A \<union> {p}) F (ix\<lparr>ix_wal := ?w, ix_memtable := m'\<rparr>) b"
        using added(2) w1(3) p compacted_kept [OF FJ Ok added(1)] memtable_of_snoc
        by (intro run_inv_append [OF inv w, where rs = "[p]" and xs = "[doc]"]) auto
      have f: "flush_if_due Z ck (ix\<lparr>ix_wal := ?w, ix_memtable := m'\<rparr>) = (r, ix')"
        using run added(2) by (simp add: on_memtable_def)
      show ?thesis using flush_if_due_inv [OF i f] by (simp add: acked_after_def p)
    next
      case (rejected r1)
      have "run_inv R Z FJ U tok sc (A \<union> {}) F (ix\<lparr>ix_wal := ?w\<rparr>) b"
        using w1(3) by (intro run_inv_append [OF inv w, where rs = "[p]" and xs = "[]"]) (auto simp: docs_kept_def)
      moreover have "r \<noteq> Ok () \<and> ix' = ix\<lparr>ix_wal := ?w\<rparr>" using run rejected(2,3) by (cases r1) (auto simp: on_memtable_def)
      ultimately show ?thesis by (simp add: acked_after_def)
    qed
  next
    case (Err e)
    then have "r \<noteq> Ok () \<and> ix' = ix" using add None by (auto simp: ix_Add_def consumeFlushErrLocked_def on_wal_def wal_Append_def)
    then show ?thesis using inv by (simp add: acked_after_def)
  next
    case Panic
    then have "r \<noteq> Ok () \<and> ix' = ix" using add None by (auto simp: ix_Add_def consumeFlushErrLocked_def on_wal_def wal_Append_def)
    then show ?thesis using inv by (simp add: acked_after_def)
  qed
qed

subsection \<open>Batches\<close>

lemma compacted_Ok: "json_Compact x = Ok p \<Longrightarrow> compacted x = p"
  by (simp add: compacted_def)

lemma batch_loop_accepted:
  assumes docs: "\<forall>x \<in> set docs. json_Valid x \<and> parses FJ x"
  shows "wal_at d c (ix_wal ix) \<Longrightarrow> \<exists>w m. batch_loop R Z FJ U tok docs ix = (Ok (), ix\<lparr>ix_wal := w, ix_memtable := m\<rparr>) \<and>
    wal_at d (c @ wal_records (map compacted docs)) w \<and>
    (\<forall>ds. memtable_of R Z FJ U tok sc ds (ix_memtable ix) \<longrightarrow> memtable_of R Z FJ U tok sc (ds @ docs) m)"
  using docs
proof (induction docs arbitrary: ix c)
  case Nil
  then show ?case by (intro exI [of _ "ix_wal ix"] exI [of _ "ix_memtable ix"]) (simp add: wal_records_def)
next
  case (Cons x docs)
  obtain p where p: "json_Compact x = Ok p" using Cons.prems by (auto simp: json_Valid_iff)
  obtain w1 where w1: "wal_Append (ix_wal ix) x = (Ok (), w1)" "wal_at d (c @ enc_record p) w1"
    using Cons.prems(1) p by (rule wal_Append_at)
  obtain m1 where m1: "mt_Add R Z FJ U tok (ix_memtable ix) x = (Ok (), m1)" using mt_Add_parses Cons.prems(2) by fastforce
  let ?ix = "ix\<lparr>ix_wal := w1, ix_memtable := m1\<rparr>"
  obtain w m where wm: "batch_loop R Z FJ U tok docs ?ix = (Ok (), ?ix\<lparr>ix_wal := w, ix_memtable := m\<rparr>)"
    "wal_at d ((c @ enc_record p) @ wal_records (map compacted docs)) w"
    "\<forall>ds. memtable_of R Z FJ U tok sc ds m1 \<longrightarrow> memtable_of R Z FJ U tok sc (ds @ docs) m"
    using Cons.IH [of "c @ enc_record p" ?ix] w1(2) Cons.prems(2) by auto
  have "memtable_of R Z FJ U tok sc (ds @ x # docs) m" if "memtable_of R Z FJ U tok sc ds (ix_memtable ix)" for ds
    using wm(3) memtable_of_snoc [OF that m1] by (metis append_Cons append_Nil append_assoc)
  then show ?case
    using w1(1) m1 wm(1,2) p
    by (intro exI [of _ w] exI [of _ m]) (simp add: on_wal_def on_memtable_def discard_def wal_records_def compacted_Ok)
qed

text \<open>A failing batch that fits into the buffer leaves the file as it was.\<close>

lemma bw_Write_fits: "length b + length q \<le> bw_size \<Longrightarrow> bw_Write (mkwal d c b) q = (Ok (), mkwal d c (b @ q))"
proof -
  assume "length b + length q \<le> bw_size"
  then have "length q \<le> bw_size - length b" by linarith
  then show ?thesis by (simp add: bw_Write_def Let_def)
qed

lemma wal_Append_fits:
  assumes "length b + recordOverhead + length p \<le> bw_size" and "json_Compact x = Ok p"
  shows "wal_Append (mkwal d c b) x = (Ok (), mkwal d c (b @ enc_record p))"
proof -
  let ?hdr = "put_u32 (word_of_nat (length p)) @ put_u32 (ChecksumIEEE p)"
  have "bw_Write (mkwal d c b) ?hdr = (Ok (), mkwal d c (b @ ?hdr))" using assms(1) by (intro bw_Write_fits) (simp add: recordOverhead_def)
  moreover have "bw_Write (mkwal d c (b @ ?hdr)) p = (Ok (), mkwal d c ((b @ ?hdr) @ p))" using assms(1) by (intro bw_Write_fits) (simp add: recordOverhead_def)
  ultimately show ?thesis using assms(2) by (simp add: wal_Append_def enc_record_def)
qed

lemma batch_loop_rejected:
  assumes FJ: "fj_ok FJ" and docs: "\<not> (\<forall>x \<in> set docs. json_Valid x \<and> parses FJ x)"
  shows "ix_wal ix = mkwal d c b \<Longrightarrow> length b + length (wal_records (map compacted docs)) \<le> bw_size \<Longrightarrow>
    \<exists>e m xs. batch_loop R Z FJ U tok docs ix = (Err e, ix\<lparr>ix_wal := mkwal d c [], ix_memtable := m\<rparr>) \<and>
      (\<forall>ds. memtable_of R Z FJ U tok sc ds (ix_memtable ix) \<longrightarrow> memtable_of R Z FJ U tok sc (ds @ xs) m)"
  using docs
proof (induction docs arbitrary: ix b)
  case (Cons x docs)
  have discard [simp]: "wal_DiscardBuffer (mkwal d c b') = mkwal d c []" for b' by (simp add: wal_DiscardBuffer_def)
  show ?case
  proof (cases "json_Compact x")
    case (Ok p)
    have fit: "length b + recordOverhead + length p \<le> bw_size"
      using Cons.prems(2) Ok by (simp add: wal_records_def compacted_Ok)
    let ?w = "mkwal d c (b @ enc_record p)"
    have app: "wal_Append (ix_wal ix) x = (Ok (), ?w)" unfolding Cons.prems(1) using fit Ok by (rule wal_Append_fits)
    show ?thesis
    proof (cases rule: mt_Add_cases [of FJ x R Z U tok "ix_memtable ix"])
      case (added m1)
      let ?ix = "ix\<lparr>ix_wal := ?w, ix_memtable := m1\<rparr>"
      have "json_Valid x" using Ok by (auto simp: json_Valid_iff)
      then obtain e m xs where IH: "batch_loop R Z FJ U tok docs ?ix = (Err e, ?ix\<lparr>ix_wal := mkwal d c [], ix_memtable := m\<rparr>)"
        "\<forall>ds. memtable_of R Z FJ U tok sc ds m1 \<longrightarrow> memtable_of R Z FJ U tok sc (ds @ xs) m"
        using Cons.IH [of ?ix "b @ enc_record p"] Cons.prems added(1) Ok by (auto simp: wal_records_def compacted_Ok)
      have "memtable_of R Z FJ U tok sc (ds @ x # xs) m" if "memtable_of R Z FJ U tok sc ds (ix_memtable ix)" for ds
        using IH(2) memtable_of_snoc [OF that added(2)] by (metis append_Cons append_Nil append_assoc)
      then show ?thesis
        using app added(2) IH(1) by (intro exI [of _ e] exI [of _ m] exI [of _ "x # xs"]) (simp add: on_wal_def on_memtable_def discard_def)
    next
      case (rejected r1)
      obtain e where "r1 = Err e"
        using rejected FJ by (cases r1) (auto simp: mt_Add_def fj_ok_def Let_def split: result.splits)
      then show ?thesis
        using app rejected(2)
        by (intro exI [of _ e] exI [of _ "ix_memtable ix"] exI [of _ "[]"]) (simp add: on_wal_def on_memtable_def discard_def)
    qed
  next
    case (Err e)
    then show ?thesis
      using Cons.prems(1)
      by (intro exI [of _ "ErrWrap ''wal: invalid JSON'' e"] exI [of _ "ix_memtable ix"] exI [of _ "[]"])
        (simp add: on_wal_def discard_def wal_Append_def)
  qed (simp add: json_Compact_def split: option.splits prod.splits if_splits)
qed simp

lemma wal_clean_append:
  assumes w: "wal_clean d ps w" and docs: "\<forall>x \<in> set docs. json_Valid x \<and> length x < 2 ^ 32"
  shows "wal_clean d (ps @ map compacted docs) (mkwal d (wal_file ps @ wal_records (map compacted docs)) [])"
proof -
  have "record_wf (compacted x) \<and> json_Compact (compacted x) = Ok (compacted x)" if x: "x \<in> set docs" for x
  proof -
    obtain p where p: "json_Compact x = Ok p" using docs x by (auto simp: json_Valid_iff)
    show ?thesis using json_Compact_idem [OF p] json_Compact_length [OF p] docs x by (auto simp: compacted_Ok [OF p] record_wf_def)
  qed
  then show ?thesis using w by (auto simp: wal_clean_def wal_file_append wal_file_def)
qed

lemma AddBatch_inv:
  assumes FJ: "fj_ok FJ" and inv: "run_inv R Z FJ U tok sc A F ix b" and len: "\<forall>x \<in> set docs. length x < 2 ^ 32"
    and fits: "batch_fits FJ docs" and nowait: "ix_flushing ix = None \<or> \<not> wouldTriggerAfterLocked ck ix (length docs)"
    and add: "AddBatch R Z V FJ U tok B J hcFirst ck1 ck docs (ix, s) = (r, ix', s')"
  shows "s' = s \<and> run_inv R Z FJ U tok sc (acked_after r docs A) F ix' b"
proof (cases "ix_flushErr ix")
  case (Some e)
  then have "r = Err e" "ix' = snd (consumeFlushErrLocked ix)" "s' = s"
    using add nowait by (auto simp: AddBatch_def on_ix_def consumeFlushErrLocked_def)
  then show ?thesis using run_inv_consume [OF inv] by (simp add: acked_after_def)
next
  case None
  obtain d ps ds0 where w: "wal_clean d ps (ix_wal ix)" using inv by (rule run_inv_log)
  then have ixw: "ix_wal ix = mkwal d (wal_file ps) []" by (simp add: wal_clean_def)
  have run: "(r, ix') = st_bind (batch_loop R Z FJ U tok docs ix) (\<lambda>_ ix. st_bind (on_wal ix wal_Flush) (\<lambda>_. flush_if_due Z ck))" "s' = s"
    using add None nowait by (auto simp: AddBatch_def on_ix_def consumeFlushErrLocked_def split: prod.splits)
  show ?thesis
  proof (cases "\<forall>x \<in> set docs. json_Valid x \<and> parses FJ x")
    case True
    let ?w = "mkwal d (wal_file ps @ wal_records (map compacted docs)) []"
    have "wal_at d (wal_file ps) (ix_wal ix)" by (simp add: ixw)
    from batch_loop_accepted [OF True this, of R Z U tok sc] obtain w1 m where
      loop: "batch_loop R Z FJ U tok docs ix = (Ok (), ix\<lparr>ix_wal := w1, ix_memtable := m\<rparr>)"
      and w1: "wal_at d (wal_file ps @ wal_records (map compacted docs)) w1"
      and m: "\<forall>ds. memtable_of R Z FJ U tok sc ds (ix_memtable ix) \<longrightarrow> memtable_of R Z FJ U tok sc (ds @ docs) m" by blast
    let ?ix = "ix\<lparr>ix_wal := ?w, ix_memtable := m\<rparr>"
    have "on_wal (ix\<lparr>ix_wal := w1, ix_memtable := m\<rparr>) wal_Flush = (Ok (), ?ix)" using wal_Flush_at [OF w1] by (simp add: on_wal_def)
    then have f: "flush_if_due Z ck ?ix = (r, ix')" using run loop by simp
    have "docs_kept FJ (compacted ` set docs)"
      using True by (rule accepted_kept [OF FJ])
    then have i: "run_inv R Z FJ U tok sc (A \<union> compacted ` set docs) F ?ix b"
      using wal_clean_append [OF w] True len m
      by (intro run_inv_append [OF inv w, where rs = "map compacted docs" and xs = docs]) auto
    show ?thesis using flush_if_due_inv [OF i f] run(2) by (simp add: acked_after_def)
  next
    case False
    then have "length ([] :: bytes) + length (wal_records (map compacted docs)) \<le> bw_size" using fits unfolding batch_fits_def by auto
    from batch_loop_rejected [OF FJ False ixw this, of R Z U tok sc] obtain e m xs where
      loop: "batch_loop R Z FJ U tok docs ix = (Err e, ix\<lparr>ix_wal := mkwal d (wal_file ps) [], ix_memtable := m\<rparr>)"
      and m: "\<forall>ds. memtable_of R Z FJ U tok sc ds (ix_memtable ix) \<longrightarrow> memtable_of R Z FJ U tok sc (ds @ xs) m" by blast
    let ?ix = "ix\<lparr>ix_wal := mkwal d (wal_file ps) [], ix_memtable := m\<rparr>"
    have "run_inv R Z FJ U tok sc (A \<union> {}) F ?ix b"
      using w ixw m by (intro run_inv_append [OF inv w, where rs = "[]" and xs = xs]) (auto simp: docs_kept_def)
    then show ?thesis using run loop by (simp add: acked_after_def)
  qed
qed

subsection \<open>Flushes\<close>

lemma flushAsync_ok_inv:
  assumes inv: "run_inv R Z FJ U tok sc A F ix False" and snap: "ix_flushing ix = Some snap"
    and ok: "fst (runFlush R Z V B J hcFirst ck (ix_name ix) snap s) = Ok ()"
    and fl: "flushAsync R Z V B J hcFirst ck snap (ix_flushOff ix) (ix, s) = (r, ix', s')"
    and F': "F \<subseteq> F'" "\<And>docs. memtable_of R Z FJ U tok sc docs snap \<Longrightarrow> compacted ` set docs \<subseteq> F'"
  shows "run_inv R Z FJ U tok sc A F' ix' False"
proof -
  obtain s1 where s1: "runFlush R Z V B J hcFirst ck (ix_name ix) snap s = (Ok (), s1)"
    using ok by (cases "runFlush R Z V B J hcFirst ck (ix_name ix) snap s") simp
  from inv show ?thesis
  proof cases
    case (flushing d ps qs ds snap' fs)
    let ?w = "mkwal d (wal_file qs) []"
    have cut: "cut_wal ck (ix_flushOff ix) ix = (Ok (), ix\<lparr>ix_wal := ?w, ix_lastFlush := ck_now ck\<rparr>)" "wal_clean d qs ?w"
      using cut_wal_clean [OF flushing(3)] flushing(7) by simp_all
    then have ix': "ix' = ix\<lparr>ix_wal := ?w, ix_lastFlush := ck_now ck, ix_flushing := None\<rparr>"
      using fl s1 by (simp add: flushAsync_def Let_def)
    have "compacted ` set fs \<subseteq> F'" using F'(2) [of fs] flushing(5,6) snap by simp
    then have "A \<subseteq> F' \<union> (compacted ` set ds \<inter> set qs)" using flushing(8) F'(1) by blast
    then show ?thesis
      by (intro run_inv.idle [where ds = ds and qs = qs and d = d]) (use ix' cut(2) flushing in auto)
  qed (use snap in simp_all)
qed

lemma flushAsync_err_inv:
  assumes inv: "run_inv R Z FJ U tok sc A F ix b"
    and err: "fst (runFlush R Z V B J hcFirst ck (ix_name ix) snap s) = Err e"
    and fl: "flushAsync R Z V B J hcFirst ck snap off (ix, s) = (r, ix', s')"
  shows "run_inv R Z FJ U tok sc A F ix' True"
proof -
  have "ix' = ix\<lparr>ix_flushErr := Some e, ix_flushing := None\<rparr>"
    using err fl by (auto simp: flushAsync_def Let_def split: prod.splits)
  then show ?thesis by (intro run_inv_cong [OF run_inv_failed [OF inv]]) simp_all
qed

lemma FlushNow_idle:
  "ix_flushing ix = None \<Longrightarrow> ix_flushErr ix = None \<Longrightarrow> wal_clean d ps (ix_wal ix) \<Longrightarrow> NewMemtable Z (ix_schema ix) = Ok m0 \<Longrightarrow>
    FlushNow R Z V B J hcFirst1 ck1 hcFirst ck (ix, s) =
      (if mt_DocCount (ix_memtable ix) = 0 then (Ok (), ix, s)
       else st_bind (on_store (runFlush R Z V B J hcFirst ck (ix_name ix) (ix_memtable ix)) (ix\<lparr>ix_memtable := m0\<rparr>, s))
         (\<lambda>_. on_ix (cut_wal ck (int (length (wal_file ps))))))"
  using wal_Position_clean [of d ps "ix_wal ix"]
  by (simp add: FlushNow_def waitForFlushLocked_def on_ix_def FlushNow_snapshot_def consumeFlushErrLocked_def on_wal_def)

lemma FlushNow_inv:
  assumes inv: "run_inv (R :: 'b roaring) Z FJ U tok sc A F ix b" and idle: "ix_flushing ix = None"
    and fl: "FlushNow R Z V B J hcFirst1 ck1 hcFirst ck (ix, s) = (r, ix', s')" and np: "r \<noteq> Panic"
    and F': "F \<subseteq> F'" "\<And>docs. mt_DocCount (ix_memtable ix) \<noteq> 0 \<Longrightarrow> memtable_of R Z FJ U tok sc docs (ix_memtable ix) \<Longrightarrow> compacted ` set docs \<subseteq> F'"
  shows "if r = Ok () then b \<or> run_inv R Z FJ U tok sc A F' ix' False else run_inv R Z FJ U tok sc A F ix' True"
proof (cases "ix_flushErr ix")
  case (Some e)
  then have "r = Err e" "ix' = snd (consumeFlushErrLocked ix)"
    using fl idle by (simp_all add: FlushNow_def waitForFlushLocked_def on_ix_def FlushNow_snapshot_def consumeFlushErrLocked_def)
  then show ?thesis using run_inv_consume [OF run_inv_failed [OF inv]] by simp
next
  case None
  obtain d ps ds where log: "ix_schema ix = sc" "docs_kept FJ A" "wal_clean d ps (ix_wal ix)" "A \<subseteq> F \<union> set ps"
    "memtable_of R Z FJ U tok sc ds (ix_memtable ix)" using inv by (rule run_inv_log)
  obtain m0 :: "'b Memtable" where m0: "NewMemtable Z (ix_schema ix) = Ok m0" using log(1,5) by (auto dest: memtable_of_exists)
  have new: "memtable_of R Z FJ U tok sc [] m0" using m0 log(1) by (simp add: memtable_of_new)
  note FN = FlushNow_idle [OF idle None log(3) m0, of R V B J hcFirst1 ck1 hcFirst ck s]
  show ?thesis
  proof (cases "mt_DocCount (ix_memtable ix) = 0")
    case True
    then show ?thesis using FN fl inv run_inv_mono [OF inv F'(1)] by (cases b) auto
  next
    case False
    obtain r1 s1 where rf: "runFlush R Z V B J hcFirst ck (ix_name ix) (ix_memtable ix) s = (r1, s1)" by fastforce
    show ?thesis
    proof (cases r1)
      case (Ok u)
      let ?w = "mkwal d (wal_file []) []"
      have "wal_clean d (ps @ []) (ix_wal (ix\<lparr>ix_memtable := m0\<rparr>))" using log(3) by simp
      from cut_wal_clean [OF this] have cut: "cut_wal ck (int (length (wal_file ps))) (ix\<lparr>ix_memtable := m0\<rparr>) =
          (Ok (), ix\<lparr>ix_memtable := m0, ix_wal := ?w, ix_lastFlush := ck_now ck\<rparr>)" "wal_clean d [] ?w" by simp_all
      then have ix': "r = Ok ()" "ix' = ix\<lparr>ix_memtable := m0, ix_wal := ?w, ix_lastFlush := ck_now ck\<rparr>"
        using FN fl False rf Ok by (simp_all add: on_store_def on_ix_def)
      have "run_inv R Z FJ U tok sc A F' ix' False" if "\<not> b"
        using inv
      proof cases
        case i: (idle d' qs ds')
        have "A \<subseteq> F'" using i F'(1) F'(2) [OF False i(5)] by blast
        then show ?thesis
          by (intro run_inv.idle [where ds = "[]" and qs = "[]" and d = d]) (use ix' cut(2) log idle new in auto)
      qed (use idle that in auto)
      then show ?thesis using ix' by auto
    next
      case (Err e)
      then have "r = Err e" "ix' = ix\<lparr>ix_memtable := m0\<rparr>" using FN fl False rf by (simp_all add: on_store_def)
      moreover have "run_inv R Z FJ U tok sc A F (ix\<lparr>ix_memtable := m0\<rparr>) True"
        by (rule run_inv.failed [where ps = ps and ds = "[]"]) (use log new in auto)
      ultimately show ?thesis by simp
    next
      case Panic
      then show ?thesis using FN fl False rf np by (simp add: on_store_def)
    qed
  qed
qed

subsection \<open>Recovery\<close>

lemma replay_memtable:
  assumes "memtable_of R Z FJ U tok sc [] m0" and "\<forall>p \<in> set ps. json_Compact p = Ok p"
  shows "memtable_of R Z FJ U tok sc (filter (parses FJ) ps) (replay_fold (\<lambda>raw m. mt_Add R Z FJ U tok m raw) ps m0)"
  using assms(2)
proof (induction ps rule: rev_induct)
  case Nil
  then show ?case using assms(1) by (simp add: replay_fold_def)
next
  case (snoc p ps)
  let ?m = "replay_fold (\<lambda>raw m. mt_Add R Z FJ U tok m raw) ps m0"
  have IH: "memtable_of R Z FJ U tok sc (filter (parses FJ) ps) ?m" using snoc by simp
  have "json_Valid p" using snoc(2) by (auto simp: json_Valid_iff)
  then have step: "replay_fold (\<lambda>raw m. mt_Add R Z FJ U tok m raw) (ps @ [p]) m0 = snd (mt_Add R Z FJ U tok ?m p)"
    by (simp add: replay_fold_def)
  show ?case
    unfolding step
  proof (cases rule: mt_Add_cases [of FJ p R Z U tok ?m])
    case (added m')
    then show "memtable_of R Z FJ U tok sc (filter (parses FJ) (ps @ [p])) (snd (mt_Add R Z FJ U tok ?m p))"
      using memtable_of_snoc [OF IH added(2)] by simp
  next
    case (rejected r)
    then show "memtable_of R Z FJ U tok sc (filter (parses FJ) (ps @ [p])) (snd (mt_Add R Z FJ U tok ?m p))"
      using IH by simp
  qed
qed

text \<open>Opening on the file of a clean log gives an index with all records the parser accepts.\<close>

lemma ix_Open_clean:
  assumes FJ: "fj_ok FJ" and w: "wal_clean d ps w" and new: "NewMemtable Z sc = Ok (m0 :: 'b Memtable)"
  shows "\<exists>mt. memtable_of R Z FJ U tok sc (filter (parses FJ) ps) mt \<and>
    ix_Open (R :: 'b roaring) Z FJ U tok SJ B ck name sc dir cfg False (disk w) s =
      (case persistSchema SJ B name sc s of (r, s') \<Rightarrow> st_bind (r, mkwal dir (wal_file ps) [], s') (\<lambda>_ st.
        (Ok \<lparr>ix_name = name, ix_schema = sc, ix_memtable = mt, ix_wal = mkwal dir (wal_file ps) [], ix_lastFlush = ck_now ck,
           ix_flushCfg = cfg, ix_flushing = None, ix_flushOff = 0, ix_flushErr = None\<rparr>, st)))"
proof -
  let ?fn = "\<lambda>raw m. mt_Add R Z FJ U tok m raw" and ?w = "\<lambda>dir. mkwal dir (wal_file ps) []"
  let ?mt = "replay_fold ?fn ps m0"
  have np: "no_panic ?fn" using FJ by (auto simp: no_panic_def mt_Add_def fj_ok_def Let_def split: result.splits)
  have rec: "\<forall>p \<in> set ps. record_wf p" "\<forall>p \<in> set ps. json_Compact p = Ok p" "w = mkwal d (wal_file ps) []"
    using w by (auto simp: wal_clean_def)
  have open_ok: "wal_Open dir False (disk w) = (Ok (), ?w dir)" for dir
    using wal_Open_existing [of "disk w" "wal_records ps" dir] by (simp add: disk_def rec(3) wal_file_def)
  have empty: "wal_IsEmpty (?w dir) = (Ok (ps = []), ?w dir)" for dir
    using wal_records_ne [of ps] by (auto simp: wal_IsEmpty_def on_file_def wal_file_def wal_records_def)
  have replay: "(if ps = [] then ((Ok (), ?w dir), m0) else wal_Replay (?w dir) ?fn m0) = ((Ok (), ?w dir), ?mt)" for dir
    using wal_Replay_file [OF np rec(1)] by (simp add: replay_fold_def)
  have "memtable_of R Z FJ U tok sc (filter (parses FJ) ps) ?mt"
    using replay_memtable [OF memtable_of_new [OF new] rec(2)] .
  moreover have "ix_Open R Z FJ U tok SJ B ck name sc dir cfg False (disk w) s =
      (case persistSchema SJ B name sc s of (r, s') \<Rightarrow> st_bind (r, ?w dir, s') (\<lambda>_ st.
        (Ok \<lparr>ix_name = name, ix_schema = sc, ix_memtable = ?mt, ix_wal = ?w dir, ix_lastFlush = ck_now ck,
           ix_flushCfg = cfg, ix_flushing = None, ix_flushOff = 0, ix_flushErr = None\<rparr>, st)))"
    by (cases "persistSchema SJ B name sc s"; cases "fst (persistSchema SJ B name sc s)")
      (simp_all add: ix_Open_def open_ok new empty replay)
  ultimately show ?thesis by blast
qed

lemma ix_Open_recovers:
  assumes FJ: "fj_ok FJ" and w: "wal_clean d ps w" and new: "NewMemtable Z sc = Ok (m0 :: 'b Memtable)"
    and sch: "persistSchema SJ B name sc s = (Ok (), s')"
  shows "\<exists>ix'. ix_Open (R :: 'b roaring) Z FJ U tok SJ B ck name sc dir cfg False (disk w) s = (Ok ix', ix_wal ix', s') \<and>
    memtable_of R Z FJ U tok sc (filter (parses FJ) ps) (ix_memtable ix')"
proof -
  obtain mt where "memtable_of R Z FJ U tok sc (filter (parses FJ) ps) mt"
    "ix_Open R Z FJ U tok SJ B ck name sc dir cfg False (disk w) s =
      (Ok \<lparr>ix_name = name, ix_schema = sc, ix_memtable = mt, ix_wal = mkwal dir (wal_file ps) [], ix_lastFlush = ck_now ck,
           ix_flushCfg = cfg, ix_flushing = None, ix_flushOff = 0, ix_flushErr = None\<rparr>, mkwal dir (wal_file ps) [], s')"
    using ix_Open_clean [OF FJ w new, of R U tok SJ B ck name dir cfg s] sch by auto
  then show ?thesis by simp
qed

lemma ix_Open_inv:
  assumes FJ: "fj_ok FJ" and inv: "run_inv (R :: 'b roaring) Z FJ U tok sc A F ix b"
    and opened: "ix_Open R Z FJ U tok SJ B ck name sc dir cfg False (disk (ix_wal ix)) s = (Ok ix', w, s')"
  shows "run_inv R Z FJ U tok sc A F ix' False"
proof -
  obtain d ps ds where log: "docs_kept FJ A" "wal_clean d ps (ix_wal ix)" "A \<subseteq> F \<union> set ps"
    "memtable_of R Z FJ U tok sc ds (ix_memtable ix)" using inv by (rule run_inv_log)
  obtain m0 :: "'b Memtable" where m0: "NewMemtable Z sc = Ok m0" using log(4) by (auto dest: memtable_of_exists)
  obtain mt where mt: "memtable_of R Z FJ U tok sc (filter (parses FJ) ps) mt"
    and run: "ix_Open R Z FJ U tok SJ B ck name sc dir cfg False (disk (ix_wal ix)) s =
      (case persistSchema SJ B name sc s of (r, s') \<Rightarrow> st_bind (r, mkwal dir (wal_file ps) [], s') (\<lambda>_ st.
        (Ok \<lparr>ix_name = name, ix_schema = sc, ix_memtable = mt, ix_wal = mkwal dir (wal_file ps) [], ix_lastFlush = ck_now ck,
           ix_flushCfg = cfg, ix_flushing = None, ix_flushOff = 0, ix_flushErr = None\<rparr>, st)))"
    using ix_Open_clean [OF FJ log(2) m0, of R U tok SJ B ck name dir cfg s] by blast
  have ix': "ix' = \<lparr>ix_name = name, ix_schema = sc, ix_memtable = mt, ix_wal = mkwal dir (wal_file ps) [], ix_lastFlush = ck_now ck,
      ix_flushCfg = cfg, ix_flushing = None, ix_flushOff = 0, ix_flushErr = None\<rparr>"
    using opened run by (cases "persistSchema SJ B name sc s"; cases "fst (persistSchema SJ B name sc s)") auto
  have "a \<in> compacted ` set (filter (parses FJ) ps)" if "a \<in> A" "a \<in> set ps" for a
    using that log(1) by (intro image_eqI [of _ _ a]) (auto simp: docs_kept_def compacted_Ok)
  then have "A \<subseteq> F \<union> (compacted ` set (filter (parses FJ) ps) \<inter> set ps)" using log(3) by blast
  then show ?thesis
    by (intro run_inv.idle [where ds = "filter (parses FJ) ps" and qs = ps and d = dir])
      (use ix' log mt in \<open>simp_all add: wal_clean_def\<close>)
qed

definition st_inv ::
  "'b roaring \<Rightarrow> zstd \<Rightarrow> 'v fastjson \<Rightarrow> unicode \<Rightarrow> (string \<Rightarrow> Token list) \<Rightarrow> Schema \<Rightarrow> ('b, 's) run_state \<Rightarrow> bool" where
  "st_inv R Z FJ U tok sc st \<longleftrightarrow>
     run_inv R Z FJ U tok sc (rn_acked st) (flushed_docs R Z FJ U tok sc (rn_flushed st)) (rn_ix st) (rn_failed st)"

lemma flushed_docs_Cons:
  "flushed_docs R Z FJ U tok sc ms \<subseteq> flushed_docs R Z FJ U tok sc (m # ms)"
  "memtable_of R Z FJ U tok sc docs m \<Longrightarrow> compacted ` set docs \<subseteq> flushed_docs R Z FJ U tok sc (m # ms)"
  by (auto simp: flushed_docs_def)

lemma run_inv_schema: "run_inv R Z FJ U tok sc A F ix b \<Longrightarrow> ix_schema ix = sc"
  by (erule run_inv.cases) simp_all

lemma run_step_inv:
  assumes FJ: "fj_ok FJ"
  shows "run_step R Z V FJ U tok SJ B J st st' \<Longrightarrow> st_inv R Z FJ U tok sc st \<Longrightarrow> st_inv R Z FJ U tok sc st'"
proof (induction rule: run_step.induct)
  case (add doc ck st r ix)
  then show ?case using ix_Add_inv [OF FJ] by (simp add: st_inv_def)
next
  case (batch docs st ck hcFirst ck1 r ix s)
  then show ?case using AddBatch_inv [OF FJ _ batch(1,2,3,4)] by (simp add: st_inv_def)
next
  case (flush_ok st snap hcFirst ck r ix s)
  then show ?case using flushAsync_ok_inv [OF _ flush_ok(2,3,4) flushed_docs_Cons] by (simp add: st_inv_def)
next
  case (flush_err st snap hcFirst ck e r ix s)
  then show ?case using flushAsync_err_inv [OF _ flush_err(2,3)] by (simp add: st_inv_def)
next
  case (flush_now_ok st hcFirst1 ck1 hcFirst ck ix s)
  let ?F = "flushed_docs R Z FJ U tok sc (if mt_DocCount (ix_memtable (rn_ix st)) = 0 then rn_flushed st else ix_memtable (rn_ix st) # rn_flushed st)"
  have "flushed_docs R Z FJ U tok sc (rn_flushed st) \<subseteq> ?F" "\<And>docs. mt_DocCount (ix_memtable (rn_ix st)) \<noteq> 0 \<Longrightarrow>
      memtable_of R Z FJ U tok sc docs (ix_memtable (rn_ix st)) \<Longrightarrow> compacted ` set docs \<subseteq> ?F"
    by (cases "mt_DocCount (ix_memtable (rn_ix st)) = 0", simp_all add: flushed_docs_Cons)
  then show ?case
    using FlushNow_inv [of R Z FJ U tok sc _ _ _ False, OF _ flush_now_ok(2,3)] flush_now_ok(1,4) unfolding st_inv_def by fastforce
next
  case (flush_now_err st hcFirst1 ck1 hcFirst ck e ix s)
  then show ?case
    using FlushNow_inv [where F' = UNIV, OF _ flush_now_err(1,2)] by (fastforce simp: st_inv_def)
next
  case (others st s)
  then show ?case by (simp add: st_inv_def)
next
  case (crash ck name st dir cfg ix w s)
  then have inv: "run_inv R Z FJ U tok sc (rn_acked st) (flushed_docs R Z FJ U tok sc (rn_flushed st)) (rn_ix st) (rn_failed st)"
    by (simp add: st_inv_def)
  show ?case using ix_Open_inv [OF FJ inv crash(1) [unfolded run_inv_schema [OF inv]]] by (simp add: st_inv_def)
next
  case (crash_published st snap hcFirst ck1 s1 ck name dir cfg ix w s)
  have inv: "run_inv R Z FJ U tok sc (rn_acked st) (flushed_docs R Z FJ U tok sc (snap # rn_flushed st)) (rn_ix st) (rn_failed st)"
    by (rule run_inv_mono [OF crash_published(4) [unfolded st_inv_def] flushed_docs_Cons(1)])
  show ?case using ix_Open_inv [OF FJ inv crash_published(3) [unfolded run_inv_schema [OF inv]]] by (simp add: st_inv_def)
qed

text \<open>A valid document is accepted when no error of a flush is pending.\<close>

lemma ix_Add_accepts:
  assumes w: "wal_clean d ps (ix_wal (ix :: 'b Index))" and new: "NewMemtable Z (ix_schema ix) = Ok (m0 :: 'b Memtable)"
    and err: "ix_flushErr ix = None"
    and doc: "json_Compact doc = Ok p" "length doc < 2 ^ 32" and mt: "mt_Add R Z FJ U tok (ix_memtable ix) doc = (Ok (), m')"
  shows "\<exists>ix'. ix_Add R Z FJ U tok ck doc ix = (Ok (), ix')"
proof -
  let ?w = "mkwal d (wal_file (ps @ [p])) []"
  obtain w1 where w1: "wal_Append (ix_wal ix) doc = (Ok (), w1)" "wal_Flush w1 = (Ok (), ?w)" "wal_clean d (ps @ [p]) ?w"
    using w doc by (rule wal_Append_Flush_clean)
  let ?ix = "ix\<lparr>ix_wal := ?w, ix_memtable := m'\<rparr>"
  have run: "ix_Add R Z FJ U tok ck doc ix = flush_if_due Z ck ?ix"
    using w1 err mt by (simp add: ix_Add_def consumeFlushErrLocked_def on_wal_def on_memtable_def)
  have "wal_clean d (ps @ [p]) (ix_wal ?ix)" "NewMemtable Z (ix_schema ?ix) = Ok m0" using w1(3) new by simp_all
  then show ?thesis by (cases rule: flush_if_due_clean [where ck = ck]) (simp_all add: run)
qed

lemma run_inv_start:
  assumes f: "f_data f = []" "f_faults f = []"
    and opened: "ix_Open (R :: 'b roaring) Z FJ U tok SJ B ck name sc dir cfg False f s = (Ok ix, w, s')"
  shows "run_inv R Z FJ U tok sc {} F ix False"
proof -
  obtain m0 :: "'b Memtable" where m0: "NewMemtable Z sc = Ok m0" and ix: "ix_schema ix = sc" "ix_memtable ix = m0"
    "ix_wal ix = mkwal dir (wal_file []) []" "ix_flushing ix = None"
    using opened unfolding ix_Open_def wal_Open_fresh [OF f]
    by (cases "NewMemtable Z sc :: 'b Memtable result"; cases "persistSchema SJ B name sc s"; cases "fst (persistSchema SJ B name sc s)")
      (auto simp: wal_IsEmpty_def on_file_def wal_file_def wal_records_def)
  show ?thesis
    by (rule run_inv.idle [where d = dir and qs = "[]" and ds = "[]"])
      (use ix memtable_of_new [OF m0] in \<open>simp_all add: docs_kept_def wal_clean_def\<close>)
qed

lemma run_steps_inv:
  assumes "fj_ok FJ" and "(run_step R Z V FJ U tok SJ B J)\<^sup>*\<^sup>* st st'" and "st_inv R Z FJ U tok sc st"
  shows "st_inv R Z FJ U tok sc st'"
  using assms(2,3) by (induction rule: rtranclp_induct) (auto intro: run_step_inv [OF assms(1)])

section \<open>A rejected batch that does not fit into the buffer\<close>

lemma bw_Write_spills:
  assumes "h \<noteq> []" and n: "n = bw_size - length h" and "length h \<le> bw_size" and "n < length p" and "length p \<le> bw_size + n"
  shows "bw_Write (mkwal d c h) p = (Ok (), mkwal d (c @ h @ take n p) (drop n p))"
proof -
  have "length (drop n p) \<le> bw_size" using assms(5) by simp
  then have "bw_Write_empty (mkwal d (c @ h @ take n p) []) (drop n p) = (Ok (), mkwal d (c @ h @ take n p) (drop n p))"
    by (simp add: bw_Write_empty_def)
  then show ?thesis using assms(1,4) by (simp add: bw_Write_def Let_def flip: n)
qed

lemma wal_Append_spills:
  assumes p: "json_Compact x = Ok p" and len: "bw_size - recordOverhead < length p" "length p \<le> 2 * bw_size - recordOverhead"
  shows "wal_Append (mkwal d c []) x = (Ok (), mkwal d (c @ take bw_size (enc_record p)) (drop bw_size (enc_record p)))"
proof -
  let ?hdr = "put_u32 (word_of_nat (length p)) @ put_u32 (ChecksumIEEE p)" and ?n = "bw_size - recordOverhead"
  have hdr: "length ?hdr = recordOverhead" "?hdr \<noteq> []" by (simp_all add: recordOverhead_def flip: length_0_conv)
  have n: "recordOverhead \<le> bw_size" by (simp add: bw_size_def recordOverhead_def)
  have rec: "take bw_size (enc_record p) = ?hdr @ take ?n p" "drop bw_size (enc_record p) = drop ?n p"
    using hdr(1) n by (simp_all add: enc_record_def flip: append_assoc)
  have "bw_Write (mkwal d c []) ?hdr = (Ok (), mkwal d c ?hdr)" using bw_Write_fits [of "[]" ?hdr d c] hdr n by simp
  moreover have "bw_Write (mkwal d c ?hdr) p = (Ok (), mkwal d (c @ ?hdr @ take ?n p) (drop ?n p))"
    using hdr n len by (intro bw_Write_spills) (simp_all add: recordOverhead_def)
  ultimately show ?thesis using p unfolding rec by (simp add: wal_Append_def)
qed

text \<open>Replay stops at the partial record and drops everything after it.\<close>

lemma wal_Replay_partial:
  assumes np: "no_panic fn" and ps: "\<forall>p \<in> set ps. record_wf p" and p: "record_wf p" "bw_size + length q < length p"
  shows "wal_Replay (mkwal d (wal_file ps @ take bw_size (enc_record p) @ enc_record q) []) fn m =
    ((Ok (), mkwal d (wal_file ps) []), replay_fold fn ps m)"
proof -
  let ?t = "take bw_size (enc_record p) @ enc_record q" and ?n = "bw_size - recordOverhead"
  have n: "recordOverhead \<le> bw_size" by (simp add: bw_size_def recordOverhead_def)
  have "take bw_size (enc_record p) = put_u32 (word_of_nat (length p)) @ put_u32 (ChecksumIEEE p) @ take ?n p"
    using n by (simp add: enc_record_def recordOverhead_def)
  then have "?t = put_u32 (word_of_nat (length p)) @ put_u32 (ChecksumIEEE p) @ take ?n p @ enc_record q" by simp
  moreover have "length (take ?n p @ enc_record q) < length p" using p(2) n by simp
  ultimately have "read_frame ?t = FrameTorn"
    by (simp only: read_frame_header [OF p(1)] if_True)
  then have "replay_loop fn (wal_records ps @ ?t) headerSize m = (ReplayTorn (headerSize + length (wal_records ps)), replay_fold fn ps m)"
    by (simp add: replay_loop_records [OF np ps] replay_loop_end)
  then show ?thesis
    using truncateToOffset_mkwal [of d "wal_header @ wal_records ps" ?t "[]"] by (simp add: wal_file_def wal_Replay_mkwal)
qed

section \<open>Properties\<close>


lemma FlushNow_view:
  assumes "blob_store B objects" and "roaring_ok R" and "manifest_log J (ix_name ix) (objects s) ms" and "Suc (length ms) < 10 ^ 6"
    and "index_view R Z V FJ U tok sc (ix_name ix) (objects s) (log_active ms) vs"
    and "schema_ok sc" and "docs_ok FJ U tok sc docs" and "docs \<noteq> []"
    and "ix_schema ix = sc" and "memtable_of R Z FJ U tok sc docs (ix_memtable ix)"
    and "ix_flushing ix = None" and "ix_flushErr ix = None" and "wal_clean d ps (ix_wal ix)"
    and "mt_Build R Z V (ix_memtable ix) = Ok res" and "length (SegBytes res) < 2 ^ 63" and "length (HotcacheBytes res) < 2 ^ 32"
    and "newSegmentID (ck_nano ck) \<notin> sm_ID ` set (log_active ms)"
    and "mf' = next_manifest (ix_name ix) (ck_publish ck 4) (length ms)
      (current_segments (log_last ms) @ [new_meta (ck_nano ck) (ck_millis ck) res])"
    and "mj_roundtrip J mf'"
  shows "\<exists>ix' s'. FlushNow R Z V B J hcFirst1 ck1 hcFirst ck (ix, s) = (Ok (), ix', s') \<and>
    manifest_log J (ix_name ix) (objects s') (ms @ [mf']) \<and>
    index_view R Z V FJ U tok sc (ix_name ix) (objects s') (ActiveSegments mf') (vs @ [(docs, {})]) \<and>
    wal_clean d [] (ix_wal ix') \<and> memtable_of R Z FJ U tok sc [] (ix_memtable ix') \<and> ix_lastFlush ix' = ck_now ck \<and>
    (\<forall>k. k \<notin> flush_keys (ix_name ix) (newSegmentID (ck_nano ck)) \<longrightarrow> objects s' k = objects s k)"
proof -
  obtain m0 where m0: "NewMemtable Z sc = Ok m0" and add: "mt_AddAll R Z FJ U tok m0 docs = (Ok (), ix_memtable ix)"
    using assms(10) by (auto simp: memtable_of_def)
  have count: "mt_DocCount (ix_memtable ix) \<noteq> 0" using memtable_count [OF assms(2) m0 assms(6,7) add] assms(8) by simp
  obtain s' where s': "runFlush R Z V B J hcFirst ck (ix_name ix) (ix_memtable ix) s = (Ok (), s')"
    "manifest_log J (ix_name ix) (objects s') (ms @ [mf'])"
    "index_view R Z V FJ U tok sc (ix_name ix) (objects s') (ActiveSegments mf') (vs @ [(docs, {})])"
    and frame: "\<forall>k. k \<notin> flush_keys (ix_name ix) (newSegmentID (ck_nano ck)) \<longrightarrow> objects s' k = objects s k"
    using runFlush_view [where ck = ck and hcFirst = hcFirst, OF assms(1), OF assms(3-7) assms(10) assms(14-19)] by blast
  have "wal_clean d (ps @ []) (ix_wal (ix\<lparr>ix_memtable := m0\<rparr>))" using assms(13) by simp
  from cut_wal_clean [OF this] FlushNow_idle [OF assms(11-13), of Z m0 R V B J hcFirst1 ck1 hcFirst ck s]
  show ?thesis using m0 assms(9) count s' frame memtable_of_new [OF m0] by (simp add: on_store_def on_ix_def)
qed

text \<open>C7: A forced flush publishes exactly the memtable. On an index that is not flushing, with a
  memtable of at least one document and a working store, \<open>FlushNow\<close> succeeds; the new manifest lists
  the segments of the one before and one new segment without deletes that holds the documents of the
  memtable in order; the other segments are as before, the log is empty and a new memtable is in
  place.\<close>

theorem flush_publishes_memtable:
  assumes "blob_store B objects" and "roaring_ok R" and "manifest_log J (ix_name ix) (objects s) ms" and "Suc (length ms) < 10 ^ 6"
    and "index_view R Z V FJ U tok sc (ix_name ix) (objects s) (log_active ms) vs"
    and "schema_ok sc" and "docs_ok FJ U tok sc docs" and "docs \<noteq> []"
    and "ix_schema ix = sc" and "memtable_of R Z FJ U tok sc docs (ix_memtable ix)"
    and "ix_flushing ix = None" and "ix_flushErr ix = None" and "wal_clean d ps (ix_wal ix)"
    and "mt_Build R Z V (ix_memtable ix) = Ok res" and "length (SegBytes res) < 2 ^ 63" and "length (HotcacheBytes res) < 2 ^ 32"
    and "newSegmentID (ck_nano ck) \<notin> sm_ID ` set (log_active ms)"
    and "mf' = next_manifest (ix_name ix) (ck_publish ck 4) (length ms)
      (current_segments (log_last ms) @ [new_meta (ck_nano ck) (ck_millis ck) res])"
    and "mj_roundtrip J mf'"
  shows "\<exists>ix' s'. FlushNow R Z V B J hcFirst1 ck1 hcFirst ck (ix, s) = (Ok (), ix', s') \<and>
    manifest_log J (ix_name ix) (objects s') (ms @ [mf']) \<and>
    index_view R Z V FJ U tok sc (ix_name ix) (objects s') (ActiveSegments mf') (vs @ [(docs, {})]) \<and>
    wal_clean d [] (ix_wal ix') \<and> memtable_of R Z FJ U tok sc [] (ix_memtable ix') \<and> ix_lastFlush ix' = ck_now ck"
  using FlushNow_view [OF assms(1), OF assms(2-19)] by blast


text \<open>C16: A rejected batch can make later documents unreadable. When a batch starts with a document that
  is larger than the buffer of the log and then has one that is not JSON, \<open>AddBatch\<close> reports an error
  and discards the buffer, but the beginning of the large record is already in the file. A document
  that is added and acknowledged afterwards follows it, and the next replay stops at the partial
  record and truncates the file there: the reopened index has only the documents from before the
  batch.\<close>

theorem rejected_batch_corrupts_log:
  assumes "fj_ok FJ" and "wal_clean d ps (ix_wal ix)" and "ix_flushErr ix = None" and "ix_flushing ix = None"
    and "NewMemtable Z (ix_schema ix) = Ok (m0 :: 'b Memtable)"
    and "json_Compact big = Ok p" and "bw_size + length q < length p" and "length p \<le> 2 * bw_size - recordOverhead" and "parses FJ big"
    and "json_Compact bad = Err e" and "json_Compact doc = Ok q" and "parses FJ doc"
    and "persistSchema SJ B name (ix_schema ix) s = (Ok (), s')"
  shows "\<exists>e' ix1 ix2 ix3. AddBatch (R :: 'b roaring) Z V FJ U tok B J hcFirst ck1 ck [big, bad] (ix, s) = (Err e', ix1, s) \<and>
    ix_Add R Z FJ U tok ck2 doc ix1 = (Ok (), ix2) \<and>
    ix_Open R Z FJ U tok SJ B ck3 name (ix_schema ix) dir cfg False (disk (ix_wal ix2)) s = (Ok ix3, ix_wal ix3, s') \<and>
    f_data (wal_f (ix_wal ix3)) = wal_file ps \<and>
    memtable_of R Z FJ U tok (ix_schema ix) (filter (parses FJ) ps) (ix_memtable ix3)"
proof -
  let ?c = "wal_file ps @ take bw_size (enc_record p)" and ?fn = "\<lambda>raw m. mt_Add R Z FJ U tok m raw"
  have ixw: "ix_wal ix = mkwal d (wal_file ps) []" and ps: "\<forall>p \<in> set ps. record_wf p" "\<forall>p \<in> set ps. json_Compact p = Ok p"
    using assms(2) by (simp_all add: wal_clean_def)
  have wf: "record_wf p" using assms(8) by (simp add: record_wf_def bw_size_def)
  have "bw_size - recordOverhead < length p" using assms(7) by simp
  then have app: "wal_Append (ix_wal ix) big = (Ok (), mkwal d ?c (drop bw_size (enc_record p)))"
    unfolding ixw using assms(6,8) by (intro wal_Append_spills)
  obtain m1 where m1: "mt_Add R Z FJ U tok (ix_memtable ix) big = (Ok (), m1)" using mt_Add_parses [OF assms(9)] by blast
  let ?ix1 = "ix\<lparr>ix_memtable := m1, ix_wal := mkwal d ?c []\<rparr>"
  have batch: "AddBatch R Z V FJ U tok B J hcFirst ck1 ck [big, bad] (ix, s) = (Err (ErrWrap ''wal: invalid JSON'' e), ?ix1, s)"
    using app m1 assms(3,4,10) by (simp add: AddBatch_def on_ix_def consumeFlushErrLocked_def on_wal_def on_memtable_def discard_def
      wal_Append_def [of _ bad] wal_DiscardBuffer_def)
  have "wal_at d ?c (ix_wal ?ix1)" by simp
  then obtain w1 where w1: "wal_Append (ix_wal ?ix1) doc = (Ok (), w1)" "wal_at d (?c @ enc_record q) w1" using assms(11) by (rule wal_Append_at)
  obtain m2 where m2: "mt_Add R Z FJ U tok m1 doc = (Ok (), m2)" using mt_Add_parses [OF assms(12)] by blast
  let ?w2 = "mkwal d (?c @ enc_record q) []" let ?ix = "?ix1\<lparr>ix_wal := ?w2, ix_memtable := m2\<rparr>"
  have run: "ix_Add R Z FJ U tok ck2 doc ?ix1 = flush_if_due Z ck2 ?ix"
    using w1(1) wal_Flush_at [OF w1(2)] m2 assms(3) by (simp add: ix_Add_def consumeFlushErrLocked_def on_wal_def on_memtable_def)
  have "ix_wal ?ix = ?w2" "NewMemtable Z (ix_schema ?ix) = Ok m0" using assms(5) by simp_all
  then obtain ix2 where ix2: "ix_Add R Z FJ U tok ck2 doc ?ix1 = (Ok (), ix2)" "ix_wal ix2 = ?w2"
    by (cases rule: flush_if_due_at [where ck = ck2]) (simp_all add: run)
  have np: "no_panic ?fn" using assms(1) by (auto simp: no_panic_def mt_Add_def fj_ok_def Let_def split: result.splits)
  let ?w = "mkwal dir (wal_file ps @ take bw_size (enc_record p) @ enc_record q) []"
  have "wal_Open dir False (disk (ix_wal ix2)) = (Ok (), ?w)"
    using wal_Open_existing [of "disk (ix_wal ix2)" "wal_records ps @ take bw_size (enc_record p) @ enc_record q" dir]
    by (simp add: disk_def ix2(2) wal_file_def)
  moreover have "wal_IsEmpty ?w = (Ok False, ?w)"
    by (simp add: wal_IsEmpty_def on_file_def wal_file_def recordOverhead_def)
  moreover have "wal_Replay ?w ?fn m0 = ((Ok (), mkwal dir (wal_file ps) []), replay_fold ?fn ps m0)"
    using wal_Replay_partial [OF np ps(1) wf assms(7)] by simp
  moreover have "memtable_of R Z FJ U tok (ix_schema ix) (filter (parses FJ) ps) (replay_fold ?fn ps m0)"
    using replay_memtable [OF memtable_of_new [OF assms(5)] ps(2)] .
  ultimately have "\<exists>ix3. ix_Open R Z FJ U tok SJ B ck3 name (ix_schema ix) dir cfg False (disk (ix_wal ix2)) s = (Ok ix3, ix_wal ix3, s') \<and>
    f_data (wal_f (ix_wal ix3)) = wal_file ps \<and> memtable_of R Z FJ U tok (ix_schema ix) (filter (parses FJ) ps) (ix_memtable ix3)"
    using assms(5,13) by (simp add: ix_Open_def)
  then show ?thesis using batch ix2(1) by blast
qed

section \<open>Examples\<close>

definition one_schema :: schema_json where
  "one_schema = \<lparr>sj_Unmarshal = (\<lambda>_. Ok example_schema), sj_MarshalIndent = (\<lambda>_. Ok [])\<rparr>"

definition schema_store :: MemStore where
  "schema_store = \<lparr>ms_objects = [(schema_key ''idx'', [])], ms_RangeLog = []\<rparr>"

definition clock_at :: "int \<Rightarrow> clock" where
  "clock_at t = \<lparr>ck_now = t, ck_nano = t, ck_millis = t, ck_publish = (\<lambda>_. t)\<rparr>"

lemma persist_example:
  "persistSchema one_schema mem_BlobStore ''idx'' example_schema NewMemStore = (Ok (), schema_store)"
  "persistSchema one_schema mem_BlobStore ''idx'' example_schema schema_store = (Ok (), schema_store)"
  by (simp_all add: persistSchema_def one_schema_def sc_Marshal_def mem_BlobStore_def mem_Put_def NewMemStore_def schema_store_def)

lemma cat_json_ok: "fj_ok cat_json"
  by (simp add: fj_ok_def cat_json_def parses_def)

lemma one_compact: "json_Compact [0x31] = Ok [0x31]"
  by code_simp


lemma example_flush:
  obtains mt res where "memtable_of list_roaring id_zstd cat_json ascii (Tokenize ascii) example_schema [[0x31]] mt"
    "mt_Build list_roaring id_zstd list_vellum mt = Ok res" "length (SegBytes res) < 2 ^ 63" "length (HotcacheBytes res) < 2 ^ 32"
  using example_built by (auto simp: built_from_def memtable_of_def)

definition example_ix :: "'b Memtable \<Rightarrow> 'b Memtable option \<Rightarrow> 'b Index" where
  "example_ix mt fl = \<lparr>ix_name = ''idx'', ix_schema = example_schema, ix_memtable = mt, ix_wal = mkwal ''wal'' (wal_file [[0x31]]) [],
     ix_lastFlush = 0, ix_flushCfg = DefaultFlushConfig, ix_flushing = fl, ix_flushOff = 0, ix_flushErr = None\<rparr>"

lemma example_ix_clean: "wal_clean ''wal'' [[0x31]] (ix_wal (example_ix mt fl))"
  by (simp add: example_ix_def wal_clean_def one_compact record_wf_def)

theorem flush_publishes_memtable_witness:
  "\<exists>mt J mf ix' s'. FlushNow list_roaring id_zstd list_vellum mem_BlobStore J False (clock_at 1) False (clock_at 2)
      (example_ix mt None, NewMemStore) = (Ok (), ix', s') \<and>
    index_view list_roaring id_zstd list_vellum cat_json ascii (Tokenize ascii) example_schema ''idx'' (mem_content s')
      (ActiveSegments mf) [([[0x31]], {})] \<and> wal_clean ''wal'' [] (ix_wal ix')"
proof -
  obtain mt res where mt: "memtable_of list_roaring id_zstd cat_json ascii (Tokenize ascii) example_schema [[0x31]] mt"
    and res: "mt_Build list_roaring id_zstd list_vellum mt = Ok res" "length (SegBytes res) < 2 ^ 63" "length (HotcacheBytes res) < 2 ^ 32"
    by (rule example_flush)
  let ?mf = "next_manifest ''idx'' 2 0 [new_meta 2 2 res]"
  have log: "manifest_log (table_json [?mf]) (ix_name (example_ix mt None)) (mem_content NewMemStore) []"
    using empty_log by (simp add: example_ix_def)
  have "\<exists>ix' s'. FlushNow list_roaring id_zstd list_vellum mem_BlobStore (table_json [?mf]) False (clock_at 1) False (clock_at 2)
      (example_ix mt None, NewMemStore) = (Ok (), ix', s') \<and>
    index_view list_roaring id_zstd list_vellum cat_json ascii (Tokenize ascii) example_schema ''idx'' (mem_content s')
      (ActiveSegments ?mf) ([] @ [([[0x31]], {})]) \<and> wal_clean ''wal'' [] (ix_wal ix')"
    using flush_publishes_memtable [where ck = "clock_at 2" and ?ck1.0 = "clock_at 1" and hcFirst = False and ?hcFirst1.0 = False and mf' = ?mf
        and vs = "[]" and V = list_vellum, OF mem.blob_store_axioms, OF list_roaring_ok log _ _ example_schema_ok example_docs_ok _ _ _ _ _ example_ix_clean]
      mt res table_json_roundtrip [of "[?mf]" ?mf]
    by (simp add: log_active_def log_last_def current_segments_def index_view_def clock_at_def) (simp add: example_ix_def, blast)
  then show ?thesis unfolding append_Nil by (intro exI [of _ mt] exI [of _ "table_json [?mf]"] exI [of _ ?mf])
qed


text \<open>A number of many digits.\<close>

lemma jcompact_digits:
  "jstep st = S1 \<Longrightarrow> jcompact st (replicate n 0x31) = Some (st, replicate n 0x31)"
proof (induction n)
  case (Suc n)
  have "st\<lparr>jstep := S1\<rparr> = st" using Suc.prems by (cases st) simp
  then have "jscan st 0x31 = (st, ScanKeep)" using Suc.prems by (simp add: jscan_def jgo_def jdigit_def)
  then show ?case using Suc by simp
qed simp

lemma digits_compact: "json_Compact (replicate (Suc n) 0x31) = Ok (replicate (Suc n) 0x31)"
proof -
  let ?s = "jreset\<lparr>jstep := S1\<rparr>"
  have "jscan jreset 0x31 = (?s, ScanKeep)" by code_simp
  then have "jcompact jreset (replicate (Suc n) 0x31) = Some (?s, replicate (Suc n) 0x31)"
    using jcompact_digits [of ?s n] by simp
  moreover have "jeof ?s" by code_simp
  ultimately show ?thesis unfolding json_Compact_def by simp
qed

theorem rejected_batch_corrupts_log_witness:
  "\<exists>mt e ix1 ix2 ix3. AddBatch list_roaring id_zstd list_vellum cat_json ascii (Tokenize ascii) mem_BlobStore (table_json [])
      False (clock_at 1) (clock_at 1) [replicate 65700 0x31, [0x78]] (example_ix mt None, schema_store) = (Err e, ix1, schema_store) \<and>
    ix_Add list_roaring id_zstd cat_json ascii (Tokenize ascii) (clock_at 2) [0x32] ix1 = (Ok (), ix2) \<and>
    ix_Open list_roaring id_zstd cat_json ascii (Tokenize ascii) one_schema mem_BlobStore (clock_at 3) ''idx'' example_schema
      ''wal'' DefaultFlushConfig False (disk (ix_wal ix2)) schema_store = (Ok ix3, ix_wal ix3, schema_store) \<and>
    memtable_of list_roaring id_zstd cat_json ascii (Tokenize ascii) example_schema [[0x31]] (ix_memtable ix3)"
proof -
  obtain m0 where m0: "NewMemtable id_zstd example_schema = Ok (m0 :: u32 list Memtable)" using example_memtable by blast
  let ?ix = "example_ix m0 None"
  have sch: "ix_schema ?ix = example_schema" by (simp add: example_ix_def)
  have "(65700 :: nat) = Suc 65699" by simp
  then have big: "json_Compact (replicate 65700 0x31) = Ok (replicate 65700 0x31)" using digits_compact by metis
  have two: "json_Compact [0x32] = Ok [0x32]" by code_simp
  have bad: "json_Compact [0x78] = Err (ErrMsg ''json: syntax error'')" by code_simp
  have "\<exists>e' ix1 ix2 ix3. AddBatch list_roaring id_zstd list_vellum cat_json ascii (Tokenize ascii) mem_BlobStore (table_json [])
      False (clock_at 1) (clock_at 1) [replicate 65700 0x31, [0x78]] (?ix, schema_store) = (Err e', ix1, schema_store) \<and>
    ix_Add list_roaring id_zstd cat_json ascii (Tokenize ascii) (clock_at 2) [0x32] ix1 = (Ok (), ix2) \<and>
    ix_Open list_roaring id_zstd cat_json ascii (Tokenize ascii) one_schema mem_BlobStore (clock_at 3) ''idx'' (ix_schema ?ix)
      ''wal'' DefaultFlushConfig False (disk (ix_wal ix2)) schema_store = (Ok ix3, ix_wal ix3, schema_store) \<and>
    f_data (wal_f (ix_wal ix3)) = wal_file [[0x31]] \<and>
    memtable_of list_roaring id_zstd cat_json ascii (Tokenize ascii) (ix_schema ?ix) (filter (parses cat_json) [[0x31]]) (ix_memtable ix3)"
    using m0 persist_example(2)
    by (intro rejected_batch_corrupts_log [OF cat_json_ok example_ix_clean _ _ _ big _ _ _ bad two])
      (simp_all add: sch bw_size_def recordOverhead_def parses_def cat_json_def, simp_all add: example_ix_def)
  moreover have "filter (parses cat_json) [[0x31]] = [[0x31]]" by (simp add: parses_def cat_json_def)
  ultimately show ?thesis unfolding sch by metis
qed

end
