(* ===== verification/Minio.thy ===== *)
theory Minio
  imports Manifest
begin

text \<open>
  The blob store on a MinIO or S3 server (\<open>src/pkg/store/minio.go\<close>). The client library is the
  parameter \<open>M\<close>, a record of its calls over the state \<open>'c\<close> of the server; an object handle is a
  value of type \<open>'o\<close>. A conditional put is two calls, a check that the key is free and a put, and
  other clients may run between them, so the two are separate definitions and \<open>minio_Put\<close> composes
  them. What the server promises is the predicate \<open>server_ok\<close>.

  Results: as long as calls run one after the other the store meets the contract \<open>blob_store\<close>, so
  that everything proved from it holds on this store; with two writers that both check before either
  writes, both report success and one of the two manifests is gone.
\<close>

section \<open>The client library\<close>

record MinioConfig =
  mc_Endpoint :: string
  mc_AccessKey :: string
  mc_SecretKey :: string
  mc_Bucket :: string
  mc_UseSSL :: bool

text \<open>\<open>mn_Response\<close> is \<open>errors.As\<close> to \<open>minio.ErrorResponse\<close>: the status code and the code. The
  options of a read are the range header, of type \<open>'h\<close>.\<close>

record ('c, 'o, 'h) minio =
  mn_New :: "MinioConfig \<Rightarrow> unit result"
  mn_NoOptions :: 'h
  mn_SetRange :: "int \<Rightarrow> int \<Rightarrow> 'h result"
  mn_GetObject :: "'c \<Rightarrow> string \<Rightarrow> string \<Rightarrow> 'h \<Rightarrow> 'o result"
  mn_ReadAll :: "'c \<Rightarrow> 'o \<Rightarrow> bytes result"
  mn_StatObject :: "'c \<Rightarrow> string \<Rightarrow> string \<Rightarrow> int result"
  mn_PutObject :: "'c \<Rightarrow> string \<Rightarrow> string \<Rightarrow> bytes \<Rightarrow> string \<Rightarrow> unit result \<times> 'c"
  mn_RemoveObject :: "'c \<Rightarrow> string \<Rightarrow> string \<Rightarrow> unit result \<times> 'c"
  mn_ListObjects :: "'c \<Rightarrow> string \<Rightarrow> string \<Rightarrow> (string \<times> err option) list"
  mn_Response :: "err \<Rightarrow> (int \<times> string) option"

section \<open>The store\<close>

definition mapErr :: "('c, 'o, 'h) minio \<Rightarrow> string \<Rightarrow> err \<Rightarrow> err" where
  "mapErr M key e =
     (case mn_Response M e of
        Some (status, code) \<Rightarrow> if status = 404 \<or> code = ''NoSuchKey'' then ErrNotFound key else e
      | None \<Rightarrow> e)"

definition res_map_err :: "(err \<Rightarrow> err) \<Rightarrow> 'a result \<Rightarrow> 'a result" where
  "res_map_err f r = (case r of Err e \<Rightarrow> Err (f e) | _ \<Rightarrow> r)"

definition NewMinioStore :: "('c, 'o, 'h) minio \<Rightarrow> MinioConfig \<Rightarrow> string result" where
  "NewMinioStore M cfg = res_bind (res_wrap ''minio'' (mn_New M cfg)) (\<lambda>_. Ok (mc_Bucket cfg))"

definition minio_Get :: "('c, 'o, 'h) minio \<Rightarrow> string \<Rightarrow> 'c \<Rightarrow> string \<Rightarrow> bytes result" where
  "minio_Get M bucket s key =
     res_bind (res_map_err (mapErr M key) (mn_GetObject M s bucket key (mn_NoOptions M))) (mn_ReadAll M s)"

definition minio_GetRange :: "('c, 'o, 'h) minio \<Rightarrow> string \<Rightarrow> 'c \<Rightarrow> string \<Rightarrow> int \<Rightarrow> int \<Rightarrow> bytes result" where
  "minio_GetRange M bucket s key off len =
     res_bind (mn_SetRange M off (off + len - 1)) (\<lambda>opts.
     res_bind (res_map_err (mapErr M key) (mn_GetObject M s bucket key opts)) (mn_ReadAll M s))"

text \<open>The check of a conditional put: every error of \<open>StatObject\<close> counts as a free key.\<close>

definition minio_put_check :: "('c, 'o, 'h) minio \<Rightarrow> string \<Rightarrow> string \<Rightarrow> PutOpts \<Rightarrow> 'c \<Rightarrow> unit result" where
  "minio_put_check M bucket key opts s =
     (if IfNoneMatch opts = ''*'' then
        (case mn_StatObject M s bucket key of
           Ok _ \<Rightarrow> Err (ErrPreconditionFailed key) | Err _ \<Rightarrow> Ok () | Panic \<Rightarrow> Panic)
      else Ok ())"

definition minio_put_write :: "('c, 'o, 'h) minio \<Rightarrow> string \<Rightarrow> string \<Rightarrow> bytes \<Rightarrow> PutOpts \<Rightarrow> 'c \<Rightarrow> unit result \<times> 'c" where
  "minio_put_write M bucket key body opts s =
     (let contentType = (if ContentType opts \<noteq> '''' then ContentType opts else ''application/octet-stream'') in
      st_wrap ''put'' (mn_PutObject M s bucket key body contentType))"

definition minio_Put :: "('c, 'o, 'h) minio \<Rightarrow> string \<Rightarrow> 'c \<Rightarrow> string \<Rightarrow> bytes \<Rightarrow> PutOpts \<Rightarrow> unit result \<times> 'c" where
  "minio_Put M bucket s key body opts =
     st_bind (minio_put_check M bucket key opts s, s) (\<lambda>_ s. minio_put_write M bucket key body opts s)"

definition minio_Delete :: "('c, 'o, 'h) minio \<Rightarrow> string \<Rightarrow> 'c \<Rightarrow> string \<Rightarrow> unit result \<times> 'c" where
  "minio_Delete M bucket s key = mn_RemoveObject M s bucket key"

fun list_keys :: "(string \<times> err option) list \<Rightarrow> string list result" where
  "list_keys [] = Ok []"
| "list_keys ((key, e) # objs) =
     (case e of Some e \<Rightarrow> Err e | None \<Rightarrow> res_bind (list_keys objs) (\<lambda>keys. Ok (key # keys)))"

definition minio_List :: "('c, 'o, 'h) minio \<Rightarrow> string \<Rightarrow> 'c \<Rightarrow> string \<Rightarrow> string list result" where
  "minio_List M bucket s prefix = list_keys (mn_ListObjects M s bucket prefix)"

definition minio_Head :: "('c, 'o, 'h) minio \<Rightarrow> string \<Rightarrow> 'c \<Rightarrow> string \<Rightarrow> int result" where
  "minio_Head M bucket s key = res_map_err (mapErr M key) (mn_StatObject M s bucket key)"

definition minio_BlobStore :: "('c, 'o, 'h) minio \<Rightarrow> string \<Rightarrow> 'c BlobStore" where
  "minio_BlobStore M bucket =
     \<lparr>bs_Get = minio_Get M bucket, bs_GetRange = minio_GetRange M bucket, bs_Put = minio_Put M bucket,
      bs_Delete = minio_Delete M bucket, bs_List = minio_List M bucket, bs_Head = minio_Head M bucket\<rparr>"

section \<open>Two writers\<close>

text \<open>Two conditional puts of one key, interleaved: every writer makes its two calls in order.\<close>

datatype put_pc = PutStart | PutChecked | PutDone "unit result"
datatype writer = First | Second

definition put_step :: "('c, 'o, 'h) minio \<Rightarrow> string \<Rightarrow> string \<Rightarrow> PutOpts \<Rightarrow> bytes \<Rightarrow> put_pc \<Rightarrow> 'c \<Rightarrow> put_pc \<times> 'c" where
  "put_step M bucket key opts body pc s =
     (case pc of
        PutStart \<Rightarrow> (case minio_put_check M bucket key opts s of Ok _ \<Rightarrow> (PutChecked, s) | Err e \<Rightarrow> (PutDone (Err e), s) | Panic \<Rightarrow> (PutDone Panic, s))
      | PutChecked \<Rightarrow> (case minio_put_write M bucket key body opts s of (r, s) \<Rightarrow> (PutDone r, s))
      | PutDone r \<Rightarrow> (PutDone r, s))"

fun run_puts ::
  "('c, 'o, 'h) minio \<Rightarrow> string \<Rightarrow> string \<Rightarrow> PutOpts \<Rightarrow> bytes \<Rightarrow> bytes \<Rightarrow> writer list \<Rightarrow> put_pc \<times> put_pc \<times> 'c \<Rightarrow> put_pc \<times> put_pc \<times> 'c" where
  "run_puts M bucket key opts m1 m2 [] st = st"
| "run_puts M bucket key opts m1 m2 (First # ws) (pc1, pc2, s) =
     (case put_step M bucket key opts m1 pc1 s of (pc1, s) \<Rightarrow> run_puts M bucket key opts m1 m2 ws (pc1, pc2, s))"
| "run_puts M bucket key opts m1 m2 (Second # ws) (pc1, pc2, s) =
     (case put_step M bucket key opts m2 pc2 s of (pc2, s) \<Rightarrow> run_puts M bucket key opts m1 m2 ws (pc1, pc2, s))"

section \<open>What the server promises\<close>

text \<open>A server that is reachable, with the content as a map for every bucket: \<open>StatObject\<close> fails
  exactly for keys that do not exist; reading an object gives its bytes, and reading a range of it
  that is not empty gives the bytes from the first to the last position; a missing object is an error of
  the call or of the read; \<open>PutObject\<close> stores, \<open>RemoveObject\<close> removes, and \<open>ListObjects\<close> lists the keys
  with a prefix.\<close>

definition stat_ok :: "('c, 'o, 'h) minio \<Rightarrow> ('c \<Rightarrow> string \<Rightarrow> string \<rightharpoonup> bytes) \<Rightarrow> bool" where
  "stat_ok M content \<longleftrightarrow> (\<forall>s b k. case content s b k of
     Some body \<Rightarrow> mn_StatObject M s b k = Ok (int (length body))
   | None \<Rightarrow> (\<exists>e. mn_StatObject M s b k = Err e \<and> mn_Response M e = Some (404, ''NoSuchKey'')))"

definition read_ok :: "('c, 'o, 'h) minio \<Rightarrow> ('c \<Rightarrow> string \<Rightarrow> string \<rightharpoonup> bytes) \<Rightarrow> bool" where
  "read_ok M content \<longleftrightarrow> (\<forall>s b k. case content s b k of
     Some body \<Rightarrow> res_bind (mn_GetObject M s b k (mn_NoOptions M)) (mn_ReadAll M s) = Ok body
   | None \<Rightarrow> (\<exists>e. res_bind (mn_GetObject M s b k (mn_NoOptions M)) (mn_ReadAll M s) = Err e))"

definition range_ok :: "('c, 'o, 'h) minio \<Rightarrow> ('c \<Rightarrow> string \<Rightarrow> string \<rightharpoonup> bytes) \<Rightarrow> bool" where
  "range_ok M content \<longleftrightarrow> (\<forall>s b k body i j. content s b k = Some body \<longrightarrow> i \<le> j \<longrightarrow> j < length body \<longrightarrow>
     (\<exists>h. mn_SetRange M (int i) (int j) = Ok h \<and>
       res_bind (mn_GetObject M s b k h) (mn_ReadAll M s) = Ok (take (Suc j - i) (drop i body))))"

definition write_ok :: "('c, 'o, 'h) minio \<Rightarrow> ('c \<Rightarrow> string \<Rightarrow> string \<rightharpoonup> bytes) \<Rightarrow> bool" where
  "write_ok M content \<longleftrightarrow> (\<forall>s b k body ct.
     fst (mn_PutObject M s b k body ct) = Ok () \<and> content (snd (mn_PutObject M s b k body ct)) b = (content s b)(k \<mapsto> body) \<and>
     fst (mn_RemoveObject M s b k) = Ok () \<and> content (snd (mn_RemoveObject M s b k)) b = (content s b)(k := None))"

definition list_ok :: "('c, 'o, 'h) minio \<Rightarrow> ('c \<Rightarrow> string \<Rightarrow> string \<rightharpoonup> bytes) \<Rightarrow> bool" where
  "list_ok M content \<longleftrightarrow> (\<forall>s b p. (\<forall>x \<in> set (mn_ListObjects M s b p). snd x = None) \<and>
     distinct (map fst (mn_ListObjects M s b p)) \<and>
     fst ` set (mn_ListObjects M s b p) = {k \<in> dom (content s b). HasPrefix k p})"

definition server_ok :: "('c, 'o, 'h) minio \<Rightarrow> ('c \<Rightarrow> string \<Rightarrow> string \<rightharpoonup> bytes) \<Rightarrow> bool" where
  "server_ok M content \<longleftrightarrow> stat_ok M content \<and> read_ok M content \<and> range_ok M content \<and> write_ok M content \<and> list_ok M content"

lemma server_Stat:
  assumes "server_ok M content"
  shows "content s b k = Some body \<Longrightarrow> mn_StatObject M s b k = Ok (int (length body))"
    and "content s b k = None \<Longrightarrow> \<exists>e. mn_StatObject M s b k = Err e \<and> mn_Response M e = Some (404, ''NoSuchKey'')"
proof -
  have *: "case content s b k of
      Some body \<Rightarrow> mn_StatObject M s b k = Ok (int (length body))
    | None \<Rightarrow> (\<exists>e. mn_StatObject M s b k = Err e \<and> mn_Response M e = Some (404, ''NoSuchKey''))"
    using assms by (simp add: server_ok_def stat_ok_def)
  show "content s b k = Some body \<Longrightarrow> mn_StatObject M s b k = Ok (int (length body))" using * by simp
  show "content s b k = None \<Longrightarrow> \<exists>e. mn_StatObject M s b k = Err e \<and> mn_Response M e = Some (404, ''NoSuchKey'')" using * by simp
qed

lemma server_Put:
  assumes "server_ok M content"
  obtains s' where "mn_PutObject M s b k body ct = (Ok (), s')" "content s' b = (content s b)(k \<mapsto> body)"
proof -
  have "fst (mn_PutObject M s b k body ct) = Ok ()" "content (snd (mn_PutObject M s b k body ct)) b = (content s b)(k \<mapsto> body)"
    using assms by (simp_all add: server_ok_def write_ok_def)
  then show thesis using that by (cases "mn_PutObject M s b k body ct") simp
qed

lemma minio_write:
  assumes "server_ok M content"
  obtains s' where "minio_put_write M b k body opts s = (Ok (), s')" "content s' b = (content s b)(k \<mapsto> body)"
proof -
  let ?ct = "if ContentType opts \<noteq> '''' then ContentType opts else ''application/octet-stream''"
  obtain s' where s': "mn_PutObject M s b k body ?ct = (Ok (), s')" "content s' b = (content s b)(k \<mapsto> body)"
    using assms by (rule server_Put)
  have "minio_put_write M b k body opts s = (Ok (), s')"
    unfolding minio_put_write_def Let_def s'(1) by simp
  then show thesis using s'(2) by (rule that)
qed

lemma minio_check:
  assumes "server_ok M content"
  shows "minio_put_check M b k opts s =
    (if IfNoneMatch opts = ''*'' \<and> content s b k \<noteq> None then Err (ErrPreconditionFailed k) else Ok ())"
proof (cases "content s b k")
  case None
  then show ?thesis using server_Stat(2) [OF assms None] by (auto simp: minio_put_check_def)
next
  case (Some body)
  then show ?thesis using server_Stat(1) [OF assms Some] by (simp add: minio_put_check_def)
qed

lemma list_keys_ok: "\<forall>x \<in> set objs. snd x = None \<Longrightarrow> list_keys objs = Ok (map fst objs)"
  by (induction objs rule: list_keys.induct) simp_all

lemma map_err_Ok: "res_bind (res_map_err f r) g = Ok x \<longleftrightarrow> res_bind r g = Ok x"
  by (cases r) (simp_all add: res_map_err_def)

lemma map_err_Err: "res_bind r g = Err e \<Longrightarrow> \<exists>e. res_bind (res_map_err f r) g = Err e"
  by (cases r) (simp_all add: res_map_err_def)

lemma minio_Head_content:
  assumes "server_ok M content"
  shows "minio_Head M b s k = (case content s b k of None \<Rightarrow> Err (ErrNotFound k) | Some body \<Rightarrow> Ok (int (length body)))"
  using server_Stat [OF assms, of s b k] by (cases "content s b k") (auto simp: minio_Head_def res_map_err_def mapErr_def)

lemma minio_Get_content:
  assumes "server_ok M content"
  shows "content s b k = Some body \<Longrightarrow> minio_Get M b s k = Ok body" and "content s b k = None \<Longrightarrow> \<exists>e. minio_Get M b s k = Err e"
proof -
  have read: "case content s b k of
      Some body \<Rightarrow> res_bind (mn_GetObject M s b k (mn_NoOptions M)) (mn_ReadAll M s) = Ok body
    | None \<Rightarrow> (\<exists>e. res_bind (mn_GetObject M s b k (mn_NoOptions M)) (mn_ReadAll M s) = Err e)"
    using assms by (simp add: server_ok_def read_ok_def)
  show "content s b k = Some body \<Longrightarrow> minio_Get M b s k = Ok body" using read by (simp add: minio_Get_def map_err_Ok)
  show "content s b k = None \<Longrightarrow> \<exists>e. minio_Get M b s k = Err e" using read by (auto simp: minio_Get_def map_err_Err)
qed

lemma minio_GetRange_content:
  assumes "server_ok M content" and "content s b k = Some body" and "0 < n" and "off + n \<le> length body"
  shows "minio_GetRange M b s k (int off) (int n) = Ok (take n (drop off body))"
proof -
  have "off \<le> off + n - 1" "off + n - 1 < length body" using assms(3,4) by simp_all
  then obtain h where "mn_SetRange M (int off) (int (off + n - 1)) = Ok h"
    "res_bind (mn_GetObject M s b k h) (mn_ReadAll M s) = Ok (take (Suc (off + n - 1) - off) (drop off body))"
    using assms(1,2) unfolding server_ok_def range_ok_def by blast
  moreover have "int off + int n - 1 = int (off + n - 1)" "Suc (off + n - 1) - off = n" using assms(3) by simp_all
  ultimately show ?thesis
    unfolding minio_GetRange_def by (simp only: map_err_Ok res_bind_simps)
qed

lemma minio_Put_content:
  assumes "server_ok M content"
  shows "IfNoneMatch opts = ''*'' \<Longrightarrow> content s b k \<noteq> None \<Longrightarrow> minio_Put M b s k body opts = (Err (ErrPreconditionFailed k), s)"
    and "IfNoneMatch opts \<noteq> ''*'' \<or> content s b k = None \<Longrightarrow>
      \<exists>s'. minio_Put M b s k body opts = (Ok (), s') \<and> content s' b = (content s b)(k \<mapsto> body)"
proof -
  obtain s' where "minio_put_write M b k body opts s = (Ok (), s')" "content s' b = (content s b)(k \<mapsto> body)"
    using assms by (rule minio_write)
  then show "IfNoneMatch opts \<noteq> ''*'' \<or> content s b k = None \<Longrightarrow>
      \<exists>s'. minio_Put M b s k body opts = (Ok (), s') \<and> content s' b = (content s b)(k \<mapsto> body)"
    using minio_check [OF assms, of b k opts s] by (auto simp: minio_Put_def)
qed (use minio_check [OF assms, of b k opts s] in \<open>simp add: minio_Put_def\<close>)

lemma minio_List_content:
  assumes "server_ok M content"
  shows "\<exists>ks. minio_List M b s p = Ok ks \<and> distinct ks \<and> set ks = {k \<in> dom (content s b). HasPrefix k p}"
proof -
  have "(\<forall>x \<in> set (mn_ListObjects M s b p). snd x = None) \<and> distinct (map fst (mn_ListObjects M s b p)) \<and>
      fst ` set (mn_ListObjects M s b p) = {k \<in> dom (content s b). HasPrefix k p}"
    using assms by (simp add: server_ok_def list_ok_def)
  then show ?thesis by (simp add: minio_List_def list_keys_ok)
qed

section \<open>Properties\<close>

text \<open>C9: The store on a MinIO server meets the contract that the index, the searcher and the compactor
  are proved from, as long as its calls run one after the other on a reachable server: reads give
  the stored bytes, ranges their slices, a conditional put of an existing key fails with
  \<open>ErrPreconditionFailed\<close> and changes nothing, other puts store, deletes remove, listings give
  exactly the keys with the prefix, and a size query distinguishes missing objects.\<close>

theorem minio_store_meets_contract:
  assumes "server_ok M content"
  shows "blob_store (minio_BlobStore M b) (\<lambda>s. content s b)"
proof
  fix opts :: PutOpts and s k body
  assume "IfNoneMatch opts \<noteq> ''*'' \<or> content s b k = None"
  from minio_Put_content(2) [OF assms this, of body]
  show "fst (bs_Put (minio_BlobStore M b) s k body opts) = Ok ()"
    and "content (snd (bs_Put (minio_BlobStore M b) s k body opts)) b = (content s b)(k \<mapsto> body)"
    by (auto simp: minio_BlobStore_def)
next
  fix s k
  show "fst (bs_Delete (minio_BlobStore M b) s k) = Ok ()"
    and "content (snd (bs_Delete (minio_BlobStore M b) s k)) b = (content s b)(k := None)"
    using assms by (simp_all add: minio_BlobStore_def minio_Delete_def server_ok_def write_ok_def)
qed (simp_all add: minio_BlobStore_def minio_Get_content [OF assms] minio_GetRange_content [OF assms] minio_Put_content(1) [OF assms]
    minio_List_content [OF assms] minio_Head_content [OF assms])

text \<open>C14: The conditional put is not atomic. Let two writers put different manifests under the same free
  key. When one finishes before the other starts, the second gets \<open>ErrPreconditionFailed\<close> and the
  first manifest stays. When both have checked the key before either has written it, in whichever
  order they then write, both puts report success and only the one written last is stored: the other
  update is lost and no conflict is reported.\<close>

theorem minio_put_race_loses_update:
  assumes "server_ok M content" and "content s b k = None" and "IfNoneMatch opts = ''*''"
  shows "(\<exists>s'. run_puts M b k opts m1 m2 [First, First, Second, Second] (PutStart, PutStart, s) =
      (PutDone (Ok ()), PutDone (Err (ErrPreconditionFailed k)), s') \<and> content s' b k = Some m1) \<and>
    (\<exists>s'. run_puts M b k opts m1 m2 [First, Second, First, Second] (PutStart, PutStart, s) =
      (PutDone (Ok ()), PutDone (Ok ()), s') \<and> content s' b k = Some m2) \<and>
    (\<exists>s'. run_puts M b k opts m1 m2 [First, Second, Second, First] (PutStart, PutStart, s) =
      (PutDone (Ok ()), PutDone (Ok ()), s') \<and> content s' b k = Some m1)"
proof -
  note check = minio_check [OF assms(1)]
  obtain s1 where s1: "minio_put_write M b k m1 opts s = (Ok (), s1)" "content s1 b = (content s b)(k \<mapsto> m1)"
    using assms(1) by (rule minio_write)
  obtain s2 where s2: "minio_put_write M b k m2 opts s1 = (Ok (), s2)" "content s2 b = (content s1 b)(k \<mapsto> m2)"
    using assms(1) by (rule minio_write)
  obtain t1 where t1: "minio_put_write M b k m2 opts s = (Ok (), t1)" "content t1 b = (content s b)(k \<mapsto> m2)"
    using assms(1) by (rule minio_write)
  obtain t2 where t2: "minio_put_write M b k m1 opts t1 = (Ok (), t2)" "content t2 b = (content t1 b)(k \<mapsto> m1)"
    using assms(1) by (rule minio_write)
  show ?thesis using s1 s2 t1 t2 assms(2,3) by (simp add: check put_step_def)
qed

section \<open>An example\<close>

text \<open>A server with one bucket. An object handle is what reading gives, a range its two ends.\<close>

definition mem_minio :: "(MemStore, bytes result, (int \<times> int) option) minio" where
  "mem_minio = \<lparr>mn_New = (\<lambda>_. Ok ()), mn_NoOptions = None, mn_SetRange = (\<lambda>i j. Ok (Some (i, j))),
     mn_GetObject = (\<lambda>s b k h. Ok (case h of None \<Rightarrow> bs_Get mem_BlobStore s k | Some (i, j) \<Rightarrow> bs_GetRange mem_BlobStore s k i (j + 1 - i))),
     mn_ReadAll = (\<lambda>s r. r), mn_StatObject = (\<lambda>s b k. bs_Head mem_BlobStore s k),
     mn_PutObject = (\<lambda>s b k x ct. bs_Put mem_BlobStore s k x no_opts), mn_RemoveObject = (\<lambda>s b k. bs_Delete mem_BlobStore s k),
     mn_ListObjects = (\<lambda>s b p. case bs_List mem_BlobStore s p of Ok ks \<Rightarrow> map (\<lambda>k. (k, None)) ks | _ \<Rightarrow> []),
     mn_Response = (\<lambda>e. Some (404, ''NoSuchKey''))\<rparr>"

lemma mem_minio_ok: "server_ok mem_minio (\<lambda>s b. mem_content s)"
proof -
  have "stat_ok mem_minio (\<lambda>s b. mem_content s)"
    by (simp add: stat_ok_def mem_minio_def mem.Head_size split: option.split)
  moreover have "read_ok mem_minio (\<lambda>s b. mem_content s)"
    by (simp add: read_ok_def mem_minio_def mem.Get_Some mem.Get_None split: option.split)
  moreover have "range_ok mem_minio (\<lambda>s b. mem_content s)"
  proof -
    have "bs_GetRange mem_BlobStore s k (int i) (int j + 1 - int i) = Ok (take (Suc j - i) (drop i body))"
      if "mem_content s k = Some body" "i \<le> j" "j < length body" for s k body i j
      using mem.GetRange_in [of s k body "Suc j - i" i] that by (simp add: of_nat_diff add.commute)
    then show ?thesis by (simp add: range_ok_def mem_minio_def)
  qed
  moreover have "write_ok mem_minio (\<lambda>s b. mem_content s)"
    by (simp add: write_ok_def mem_minio_def mem.Put_result mem.Put_objects mem.Delete_result mem.Delete_objects no_opts_def)
  moreover have "list_ok mem_minio (\<lambda>s b. mem_content s)"
    unfolding list_ok_def
  proof (intro allI)
    fix s b p
    obtain ks where "bs_List mem_BlobStore s p = Ok ks" "distinct ks" "set ks = {k \<in> dom (mem_content s). HasPrefix k p}"
      using mem.List_keys by blast
    then show "(\<forall>x \<in> set (mn_ListObjects mem_minio s b p). snd x = None) \<and> distinct (map fst (mn_ListObjects mem_minio s b p)) \<and>
        fst ` set (mn_ListObjects mem_minio s b p) = {k \<in> dom (mem_content s). HasPrefix k p}"
      by (simp add: mem_minio_def image_image comp_def)
  qed
  ultimately show ?thesis by (simp add: server_ok_def)
qed

theorem minio_store_meets_contract_witness:
  "blob_store (minio_BlobStore mem_minio ''b'') mem_content"
  using minio_store_meets_contract [OF mem_minio_ok, of "''b''"] by simp

theorem minio_put_race_loses_update_witness:
  "\<exists>s'. run_puts mem_minio ''b'' ''k'' \<lparr>IfNoneMatch = ''*'', ContentType = ''''\<rparr> [1] [2] [First, Second, First, Second] (PutStart, PutStart, NewMemStore) =
    (PutDone (Ok ()), PutDone (Ok ()), s') \<and> mem_content s' ''k'' = Some [2]"
proof -
  have "mem_content NewMemStore ''k'' = None" by (simp add: mem_content_def NewMemStore_def)
  from minio_put_race_loses_update [OF mem_minio_ok, OF this, where b = "''b''" and opts = "\<lparr>IfNoneMatch = ''*'', ContentType = ''''\<rparr>"
      and ?m1.0 = "[1]" and ?m2.0 = "[2]"]
  show ?thesis by (simp del: run_puts.simps)
qed

end
