(* ===== verification/Server.thy ===== *)
theory Server
  imports Ingest_Runs Searcher
begin

text \<open>
  The HTTP server (\<open>src/pkg/server/server.go\<close>) and the bearer token middleware
  (\<open>src/pkg/auth/auth.go\<close>): routing, the handlers and the table of open indexes. A handler maps a
  request and the state of the server to a response and a new state. The state has the open indexes,
  the cache of the searcher, the blob store, the log files on disk and the set of locked log
  directories. All parameters of the components are bundled in \<open>env\<close>, and what one request observes
  of the clock and of scheduling in \<open>moment\<close>.

  JSON bodies of responses are constructors of \<open>body\<close> (their encoding is Go's reflection), request
  paths are canonical (the mux redirects others), and an error message is represented by its fixed
  prefix. One request is handled after the other: concurrent requests meet only in the operations
  below, which have their own locks, and in \<open>openIndex\<close>, where \<open>singleflight\<close> makes concurrent loads
  of one index a single one. Metrics and logging are left out, and so is \<open>ListenAndServe\<close>, which
  runs the handler behind a socket.
\<close>

section \<open>Requests and responses\<close>

datatype body = BodyText string | BodyBytes bytes | BodyUI | BodyMetrics | BodyCreated string | BodyIndexed nat
  | BodySearch Response | BodyDeleted u64 | BodyStatusOK | BodyEmpty

record http_request =
  rq_Method :: string
  rq_Path :: string
  rq_Header :: "string \<rightharpoonup> string"
  rq_Body :: "bytes \<times> err option"

record http_response =
  hr_Status :: nat
  hr_Header :: "(string \<times> string) list"
  hr_Body :: body

definition http_error :: "string \<Rightarrow> nat \<Rightarrow> http_response" where
  "http_error msg code = \<lparr>hr_Status = code,
     hr_Header = [(''Content-Type'', ''text/plain; charset=utf-8''), (''X-Content-Type-Options'', ''nosniff'')],
     hr_Body = BodyText msg\<rparr>"

definition http_json :: "body \<Rightarrow> http_response" where
  "http_json b = \<lparr>hr_Status = 200, hr_Header = [(''Content-Type'', ''application/json'')], hr_Body = b\<rparr>"

text \<open>\<open>io.ReadAll\<close>.\<close>

definition read_all :: "bytes \<times> err option \<Rightarrow> bytes result" where
  "read_all b = (case snd b of None \<Rightarrow> Ok (fst b) | Some e \<Rightarrow> Err e)"

section \<open>The server\<close>

record ('w, 'f, 'b, 'v, 's) env =
  en_V :: "('w, 'f) vellum"
  en_R :: "'b roaring"
  en_Z :: zstd
  en_FJ :: "'v fastjson"
  en_U :: unicode
  en_tok :: "string \<Rightarrow> Token list"
  en_SJ :: schema_json
  en_QJ :: query_json
  en_RJ :: raw_json
  en_J :: manifest_json
  en_B :: "'s BlobStore"
  en_spare :: "string \<Rightarrow> bytes"
  en_srtHits :: "(Hit \<Rightarrow> real) \<Rightarrow> Hit list \<Rightarrow> Hit list"
  en_srtSegs :: "(SegmentMeta \<Rightarrow> int) \<Rightarrow> SegmentMeta list \<Rightarrow> SegmentMeta list"

record moment =
  mo_ck1 :: "nat \<Rightarrow> clock"
  mo_ck :: "nat \<Rightarrow> clock"
  mo_hcFirst1 :: "nat \<Rightarrow> bool"
  mo_hcFirst :: bool
  mo_order :: "nat list"
  mo_tiers :: "nat list"

record server_config =
  cf_Addr :: string
  cf_AuthToken :: string
  cf_WalDir :: string
  cf_FlushCfg :: FlushConfig

record ('f, 'b, 's) server =
  sv_cfg :: server_config
  sv_cache :: "'f Hotcache HotcacheLRU"
  sv_indexes :: "string \<rightharpoonup> 'b Index"
  sv_store :: 's
  sv_files :: "string \<Rightarrow> os_file"
  sv_locks :: "string set"

definition New_server :: "server_config \<Rightarrow> 's \<Rightarrow> (string \<Rightarrow> os_file) \<Rightarrow> string set \<Rightarrow> ('f, 'b, 's) server" where
  "New_server cfg s files locks =
     \<lparr>sv_cfg = cfg, sv_cache = New_cache 256, sv_indexes = Map.empty, sv_store = s, sv_files = files, sv_locks = locks\<rparr>"

definition wal_dir_of :: "('f, 'b, 's) server \<Rightarrow> string \<Rightarrow> string" where
  "wal_dir_of sv name = cf_WalDir (sv_cfg sv) @ ''/'' @ name"

text \<open>\<open>index.Open\<close> from the server: the lock of the log directory is held once the log is open, also
  when a later step fails. The index is entered into the table by the caller.\<close>

definition sv_open ::
  "('w, 'f, 'b, 'v, 's) env \<Rightarrow> moment \<Rightarrow> string \<Rightarrow> Schema \<Rightarrow> ('f, 'b, 's) server \<Rightarrow> 'b Index result \<times> ('f, 'b, 's) server" where
  "sv_open E mo name sc sv =
     (let dir = wal_dir_of sv name; locked = dir \<in> sv_locks sv; f = sv_files sv dir in
      case ix_Open (en_R E) (en_Z E) (en_FJ E) (en_U E) (en_tok E) (en_SJ E) (en_B E) (mo_ck mo 0) name sc dir
             (cf_FlushCfg (sv_cfg sv)) locked f (sv_store sv) of
        (r, w, s) \<Rightarrow> (r, sv\<lparr>sv_store := s, sv_files := (sv_files sv)(dir := wal_f w),
          sv_locks := (if fst (wal_Open dir locked f) = Ok () then insert dir (sv_locks sv) else sv_locks sv)\<rparr>))"

definition openIndex ::
  "('w, 'f, 'b, 'v, 's) env \<Rightarrow> moment \<Rightarrow> string \<Rightarrow> ('f, 'b, 's) server \<Rightarrow> 'b Index result \<times> ('f, 'b, 's) server" where
  "openIndex E mo name sv =
     (case sv_indexes sv name of
        Some idx \<Rightarrow> (Ok idx, sv)
      | None \<Rightarrow>
          st_bind (LoadSchema (en_SJ E) (en_B E) name (sv_store sv), sv) (\<lambda>sc sv.
          st_bind (sv_open E mo name sc sv) (\<lambda>idx sv.
          (Ok idx, sv\<lparr>sv_indexes := (sv_indexes sv)(name \<mapsto> idx)\<rparr>))))"

text \<open>Names come in any order (\<open>names\<close> lists the set); a failing open is logged.\<close>

fun preload :: "('w, 'f, 'b, 'v, 's) env \<Rightarrow> moment \<Rightarrow> string list \<Rightarrow> ('f, 'b, 's) server \<Rightarrow> unit result \<times> ('f, 'b, 's) server" where
  "preload E mo [] sv = (Ok (), sv)"
| "preload E mo (name # names) sv =
     (case openIndex E mo name sv of (Panic, sv) \<Rightarrow> (Panic, sv) | (_, sv) \<Rightarrow> preload E mo names sv)"

definition PreloadIndexes ::
  "('w, 'f, 'b, 'v, 's) env \<Rightarrow> moment \<Rightarrow> (string set \<Rightarrow> string list) \<Rightarrow> ('f, 'b, 's) server \<Rightarrow> unit result \<times> ('f, 'b, 's) server" where
  "PreloadIndexes E mo listing sv =
     (case ListIndexes (en_B E) (sv_store sv) of
        Err e \<Rightarrow> (Ok (), sv) | Panic \<Rightarrow> (Panic, sv) | Ok names \<Rightarrow> preload E mo (listing names) sv)"

text \<open>An operation on an open index, which the table refers to.\<close>

definition with_index ::
  "string \<Rightarrow> ('b Index \<times> 's \<Rightarrow> 'a result \<times> 'b Index \<times> 's) \<Rightarrow> 'b Index \<Rightarrow> ('f, 'b, 's) server \<Rightarrow> 'a result \<times> ('f, 'b, 's) server" where
  "with_index name op idx sv =
     (case op (idx, sv_store sv) of (r, idx, s) \<Rightarrow> (r, sv\<lparr>sv_indexes := (sv_indexes sv)(name \<mapsto> idx), sv_store := s\<rparr>))"

section \<open>Handlers\<close>

text \<open>A result with an error message; a panic of a handler is answered by no response at all.\<close>

definition respond ::
  "string \<Rightarrow> nat \<Rightarrow> 'a result \<times> 'st \<Rightarrow> ('a \<Rightarrow> 'st \<Rightarrow> http_response result \<times> 'st) \<Rightarrow> http_response result \<times> 'st" where
  "respond msg code p k =
     (case p of (Ok x, sv) \<Rightarrow> k x sv | (Err e, sv) \<Rightarrow> (Ok (http_error msg code), sv) | (Panic, sv) \<Rightarrow> (Panic, sv))"

definition handleCreateIndex ::
  "('w, 'f, 'b, 'v, 's) env \<Rightarrow> moment \<Rightarrow> http_request \<Rightarrow> string \<Rightarrow> ('f, 'b, 's) server \<Rightarrow> http_response result \<times> ('f, 'b, 's) server" where
  "handleCreateIndex E mo r name sv =
     respond ''read body: '' 400 (read_all (rq_Body r), sv) (\<lambda>body sv.
     respond ''invalid schema: '' 400 (sc_Parse (en_SJ E) body, sv) (\<lambda>sc sv.
     respond ''create index: '' 500 (sv_open E mo name sc sv) (\<lambda>idx sv.
     (Ok \<lparr>hr_Status = 201, hr_Header = [], hr_Body = BodyCreated name\<rparr>, sv\<lparr>sv_indexes := (sv_indexes sv)(name \<mapsto> idx)\<rparr>))))"

definition streamBatchSize :: nat where "streamBatchSize = 5000"
definition ingest_max_line :: nat where "ingest_max_line = 16 * 1024 * 1024"

text \<open>The closure \<open>flush\<close>; the number of documents so far counts the calls of the clock.\<close>

definition ingest_flush ::
  "('w, 'f, 'b, 'v, 's) env \<Rightarrow> moment \<Rightarrow> bytes list \<Rightarrow> nat \<Rightarrow> 'b Index \<times> 's \<Rightarrow> nat result \<times> 'b Index \<times> 's" where
  "ingest_flush E mo batch totalIndexed st =
     (if batch = [] then (Ok totalIndexed, st)
      else st_bind (AddBatch (en_R E) (en_Z E) (en_V E) (en_FJ E) (en_U E) (en_tok E) (en_B E) (en_J E)
             (mo_hcFirst1 mo totalIndexed) (mo_ck1 mo totalIndexed) (mo_ck mo totalIndexed) batch st) (\<lambda>_ st. (Ok (totalIndexed + length batch), st)))"

text \<open>The scan loop over the lines; \<open>tooLong\<close> ends it. The two error messages are told apart by the
  status code.\<close>

fun ingest_loop ::
  "('w, 'f, 'b, 'v, 's) env \<Rightarrow> moment \<Rightarrow> err option \<Rightarrow> bytes list \<Rightarrow> bytes list \<Rightarrow> nat \<Rightarrow> 'b Index \<times> 's
     \<Rightarrow> http_response result \<times> 'b Index \<times> 's" where
  "ingest_loop E mo readErr [] batch totalIndexed st =
     (if readErr \<noteq> None then (Ok (http_error ''read body: '' 400), st)
      else respond ''ingest error: '' 500 (ingest_flush E mo batch totalIndexed st) (\<lambda>totalIndexed st.
        (Ok \<lparr>hr_Status = 200, hr_Header = [], hr_Body = BodyIndexed totalIndexed\<rparr>, st)))"
| "ingest_loop E mo readErr (l # ls) batch totalIndexed st =
     (if ingest_max_line \<le> length l then (Ok (http_error ''read body: '' 400), st)
      else let line = TrimSpace (string_of (dropCR l)) in
        if line = '''' then ingest_loop E mo readErr ls batch totalIndexed st
        else let batch = batch @ [bytes_of line] in
          if streamBatchSize \<le> length batch
          then respond ''ingest error: '' 500 (ingest_flush E mo batch totalIndexed st) (\<lambda>totalIndexed st. ingest_loop E mo readErr ls [] totalIndexed st)
          else ingest_loop E mo readErr ls batch totalIndexed st)"

definition handleIngest ::
  "('w, 'f, 'b, 'v, 's) env \<Rightarrow> moment \<Rightarrow> http_request \<Rightarrow> string \<Rightarrow> ('f, 'b, 's) server \<Rightarrow> http_response result \<times> ('f, 'b, 's) server" where
  "handleIngest E mo r name sv =
     respond ''index not found: '' 404 (openIndex E mo name sv) (\<lambda>idx sv.
     with_index name (ingest_loop E mo (snd (rq_Body r)) (scan_lines (fst (rq_Body r))) [] 0) idx sv)"

definition handleGetIndex ::
  "('w, 'f, 'b, 'v, 's) env \<Rightarrow> string \<Rightarrow> ('f, 'b, 's) server \<Rightarrow> http_response result \<times> ('f, 'b, 's) server" where
  "handleGetIndex E name sv =
     (case sv_indexes sv name of
        None \<Rightarrow> (Ok (http_error ''not found'' 404), sv)
      | Some idx \<Rightarrow>
          (case sc_Marshal (en_SJ E) (ix_schema idx) of
             Ok sc \<Rightarrow> (Ok (http_json (BodyBytes sc)), sv)
           | Err e \<Rightarrow> (Ok (http_json (BodyBytes [])), sv)
           | Panic \<Rightarrow> (Panic, sv)))"

definition handleSearch ::
  "('w, 'f, 'b, 'v, 's) env \<Rightarrow> moment \<Rightarrow> http_request \<Rightarrow> string \<Rightarrow> ('f, 'b, 's) server \<Rightarrow> http_response result \<times> ('f, 'b, 's) server" where
  "handleSearch E mo r name sv =
     respond ''read body'' 400 (read_all (rq_Body r), sv) (\<lambda>body sv.
     respond ''parse query: '' 400 (ParseRequest (en_QJ E) body, sv) (\<lambda>params sv.
     case Search (en_V E) (en_R E) (en_Z E) (en_srtHits E) (en_B E) (en_J E) (sv_store sv) (en_spare E) (en_tok E) (mo_order mo)
            \<lparr>rq_Index = name, req_Query = sp_Query params, req_Size = sp_Size params, req_From = sp_From params\<rparr> (sv_cache sv) of
       (res, h) \<Rightarrow> respond ''search error: '' 500 (res, sv\<lparr>sv_cache := h\<rparr>) (\<lambda>resp sv. (Ok (http_json (BodySearch resp)), sv))))"

definition handleDeleteByQuery ::
  "('w, 'f, 'b, 'v, 's) env \<Rightarrow> moment \<Rightarrow> http_request \<Rightarrow> string \<Rightarrow> ('f, 'b, 's) server \<Rightarrow> http_response result \<times> ('f, 'b, 's) server" where
  "handleDeleteByQuery E mo r name sv =
     respond ''read body'' 400 (read_all (rq_Body r), sv) (\<lambda>body sv.
     respond ''parse query: '' 400 (ParseRequest (en_QJ E) body, sv) (\<lambda>params sv.
     case DeleteByQuery (en_V E) (en_R E) (en_B E) (en_J E) (en_spare E) (ck_publish (mo_ck mo 0)) (en_tok E) name
            (sp_Query params) (sv_store sv) of
       (res, s) \<Rightarrow> respond ''delete: '' 500 (res, sv\<lparr>sv_store := s\<rparr>) (\<lambda>deleted sv. (Ok (http_json (BodyDeleted deleted)), sv))))"

definition not_found_index :: http_response where "not_found_index = http_error ''index not found: '' 404"

definition handleCompact ::
  "('w, 'f, 'b, 'v, 's) env \<Rightarrow> moment \<Rightarrow> string \<Rightarrow> ('f, 'b, 's) server \<Rightarrow> http_response result \<times> ('f, 'b, 's) server" where
  "handleCompact E mo name sv =
     (case sv_indexes sv name of
        None \<Rightarrow> (Ok not_found_index, sv)
      | Some idx \<Rightarrow>
          (case CompactOnce (en_V E) (en_R E) (en_Z E) (en_FJ E) (en_U E) (en_tok E) (en_RJ E) (en_B E) (en_J E) (en_spare E) (en_srtSegs E)
                  (mo_tiers mo) (ck_publish (mo_ck mo 0)) (ck_nano (mo_ck mo 0)) (ck_millis (mo_ck mo 0)) (ix_schema idx) (ix_name idx) (sv_store sv) of
             (res, s) \<Rightarrow> respond ''compact: '' 500 (res, sv\<lparr>sv_store := s\<rparr>) (\<lambda>_ sv. (Ok (http_json BodyStatusOK), sv))))"

definition handleGC ::
  "('w, 'f, 'b, 'v, 's) env \<Rightarrow> string \<Rightarrow> ('f, 'b, 's) server \<Rightarrow> http_response result \<times> ('f, 'b, 's) server" where
  "handleGC E name sv =
     (case sv_indexes sv name of
        None \<Rightarrow> (Ok not_found_index, sv)
      | Some idx \<Rightarrow>
          (case GC (en_B E) (en_J E) (ix_name idx) (sv_store sv) of
             (res, s) \<Rightarrow> respond ''gc: '' 500 (res, sv\<lparr>sv_store := s\<rparr>) (\<lambda>_ sv. (Ok (http_json BodyStatusOK), sv))))"

definition handleFlush ::
  "('w, 'f, 'b, 'v, 's) env \<Rightarrow> moment \<Rightarrow> string \<Rightarrow> ('f, 'b, 's) server \<Rightarrow> http_response result \<times> ('f, 'b, 's) server" where
  "handleFlush E mo name sv =
     (case sv_indexes sv name of
        None \<Rightarrow> (Ok not_found_index, sv)
      | Some idx \<Rightarrow>
          respond ''flush: '' 500 (with_index name (FlushNow (en_R E) (en_Z E) (en_V E) (en_B E) (en_J E)
              (mo_hcFirst1 mo 0) (mo_ck1 mo 0) (mo_hcFirst mo) (mo_ck mo 0)) idx sv)
            (\<lambda>_ sv. (Ok (http_json BodyStatusOK), sv)))"

section \<open>Routing\<close>

text \<open>\<open>strings.SplitN(path, "/", 2)\<close>: the part before the first slash, and the rest if there is one.\<close>

definition split_slash :: "string \<Rightarrow> string \<times> string option" where
  "split_slash path =
     (let first = takeWhile (\<lambda>c. c \<noteq> CHR ''/'') path; rest = dropWhile (\<lambda>c. c \<noteq> CHR ''/'') path in
      (first, if rest = [] then None else Some (tl rest)))"

definition trim_slashes :: "string \<Rightarrow> string" where
  "trim_slashes s = rev (dropWhile (\<lambda>c. c = CHR ''/'') (rev (dropWhile (\<lambda>c. c = CHR ''/'') s)))"

definition routeIndex ::
  "('w, 'f, 'b, 'v, 's) env \<Rightarrow> moment \<Rightarrow> http_request \<Rightarrow> ('f, 'b, 's) server \<Rightarrow> http_response result \<times> ('f, 'b, 's) server" where
  "routeIndex E mo r sv =
     (let path = TrimPrefix (rq_Path r) ''/index/''; (indexName, rest) = split_slash path;
          sub = (case rest of None \<Rightarrow> '''' | Some x \<Rightarrow> x); m = rq_Method r in
      if indexName = '''' then (Ok (http_error ''index name required'' 400), sv)
      else if m = ''PUT'' \<and> sub = '''' then handleCreateIndex E mo r indexName sv
      else if m = ''POST'' \<and> sub = ''docs'' then handleIngest E mo r indexName sv
      else if m = ''DELETE'' \<and> sub = ''docs'' then handleDeleteByQuery E mo r indexName sv
      else if m = ''POST'' \<and> sub = ''_compact'' then handleCompact E mo indexName sv
      else if m = ''POST'' \<and> sub = ''_gc'' then handleGC E indexName sv
      else if m = ''POST'' \<and> sub = ''_flush'' then handleFlush E mo indexName sv
      else if m = ''GET'' \<and> sub = '''' then handleGetIndex E indexName sv
      else (Ok (http_error ''not found'' 404), sv))"

definition routeSearch ::
  "('w, 'f, 'b, 'v, 's) env \<Rightarrow> moment \<Rightarrow> http_request \<Rightarrow> ('f, 'b, 's) server \<Rightarrow> http_response result \<times> ('f, 'b, 's) server" where
  "routeSearch E mo r sv =
     (if rq_Method r \<noteq> ''POST'' then (Ok (http_error ''method not allowed'' 405), sv)
      else let indexName = trim_slashes (TrimPrefix (rq_Path r) ''/search/'') in
        if indexName = '''' then (Ok (http_error ''index name required'' 400), sv)
        else handleSearch E mo r indexName sv)"

text \<open>The middlewares: \<open>corsMiddleware\<close> sets its headers before the handler writes.\<close>

definition add_headers :: "(string \<times> string) list \<Rightarrow> http_response \<Rightarrow> http_response" where
  "add_headers hs r = r\<lparr>hr_Header := hs @ hr_Header r\<rparr>"

definition cors_headers :: "(string \<times> string) list" where
  "cors_headers = [(''Access-Control-Allow-Origin'', ''*''),
     (''Access-Control-Allow-Methods'', ''GET, POST, PUT, DELETE, OPTIONS''),
     (''Access-Control-Allow-Headers'', ''Content-Type, Authorization'')]"

definition corsMiddleware ::
  "(http_request \<Rightarrow> 'st \<Rightarrow> http_response result \<times> 'st) \<Rightarrow> http_request \<Rightarrow> 'st \<Rightarrow> http_response result \<times> 'st" where
  "corsMiddleware next r sv =
     (if rq_Method r = ''OPTIONS'' then (Ok \<lparr>hr_Status = 204, hr_Header = cors_headers, hr_Body = BodyEmpty\<rparr>, sv)
      else st_bind (next r sv) (\<lambda>resp sv. (Ok (add_headers cors_headers resp), sv)))"

definition auth_Middleware ::
  "string \<Rightarrow> (http_request \<Rightarrow> 'st \<Rightarrow> http_response result \<times> 'st) \<Rightarrow> http_request \<Rightarrow> 'st \<Rightarrow> http_response result \<times> 'st" where
  "auth_Middleware token next =
     (if token = '''' then next
      else (\<lambda>r sv.
        let authHeader = (case rq_Header r ''Authorization'' of None \<Rightarrow> '''' | Some h \<Rightarrow> h) in
        if \<not> HasPrefix authHeader ''Bearer '' then (Ok (http_error ''unauthorized'' 401), sv)
        else let got = TrimPrefix authHeader ''Bearer '' in
          if got \<noteq> token then (Ok (http_error ''forbidden'' 403), sv) else next r sv))"

definition serve_ui :: "http_request \<Rightarrow> 'st \<Rightarrow> http_response result \<times> 'st" where
  "serve_ui r sv =
     (if rq_Path r = ''/'' \<or> rq_Path r = ''/ui'' \<or> HasPrefix (rq_Path r) ''/ui/''
      then (Ok \<lparr>hr_Status = 200, hr_Header = [(''Content-Type'', ''text/html; charset=utf-8'')], hr_Body = BodyUI\<rparr>, sv)
      else (Ok (http_error ''404 page not found'' 404), sv))"

definition mux ::
  "('w, 'f, 'b, 'v, 's) env \<Rightarrow> moment \<Rightarrow> http_request \<Rightarrow> ('f, 'b, 's) server \<Rightarrow> http_response result \<times> ('f, 'b, 's) server" where
  "mux E mo r sv =
     (let p = rq_Path r in
      if p = ''/index'' \<or> p = ''/search'' then (Ok \<lparr>hr_Status = 301, hr_Header = [(''Location'', p @ ''/'')], hr_Body = BodyEmpty\<rparr>, sv)
      else if HasPrefix p ''/index/'' then routeIndex E mo r sv
      else if HasPrefix p ''/search/'' then routeSearch E mo r sv
      else if p = ''/metrics'' then (Ok \<lparr>hr_Status = 200, hr_Header = [], hr_Body = BodyMetrics\<rparr>, sv)
      else if p = ''/health'' then (Ok \<lparr>hr_Status = 200, hr_Header = [], hr_Body = BodyText ''ok''\<rparr>, sv)
      else serve_ui r sv)"

definition Handler ::
  "('w, 'f, 'b, 'v, 's) env \<Rightarrow> moment \<Rightarrow> http_request \<Rightarrow> ('f, 'b, 's) server \<Rightarrow> http_response result \<times> ('f, 'b, 's) server" where
  "Handler E mo = corsMiddleware (mux E mo)"

section \<open>Ingest in chunks\<close>

text \<open>The documents of a request body, and a reference definition of how they are added: in chunks of
  \<open>streamBatchSize\<close>, in order.\<close>

definition ingest_docs :: "bytes \<Rightarrow> bytes list" where
  "ingest_docs data = map bytes_of (filter (\<lambda>l. l \<noteq> '''') (map (\<lambda>l. TrimSpace (string_of (dropCR l))) (scan_lines data)))"

function add_chunks ::
  "('w, 'f, 'b, 'v, 's) env \<Rightarrow> moment \<Rightarrow> bytes list \<Rightarrow> nat \<Rightarrow> 'b Index \<times> 's \<Rightarrow> nat result \<times> 'b Index \<times> 's" where
  "add_chunks E mo docs n st =
     (if docs = [] then (Ok n, st)
      else st_bind (AddBatch (en_R E) (en_Z E) (en_V E) (en_FJ E) (en_U E) (en_tok E) (en_B E) (en_J E)
             (mo_hcFirst1 mo n) (mo_ck1 mo n) (mo_ck mo n) (take streamBatchSize docs) st)
        (\<lambda>_ st. add_chunks E mo (drop streamBatchSize docs) (n + length (take streamBatchSize docs)) st))"
  by pat_completeness auto
termination
  by (relation "measure (\<lambda>(E, mo, docs, n, st). length docs)") (auto simp: streamBatchSize_def)

declare add_chunks.simps [simp del]

lemma add_chunks_Nil [simp]: "add_chunks E mo [] n = Pair (Ok n)"
  by (rule ext) (simp add: add_chunks.simps)

lemma add_chunks_count: "add_chunks E mo docs n st = (Ok m, st') \<Longrightarrow> m = n + length docs"
proof (induction E mo docs n st arbitrary: m st' rule: add_chunks.induct)
  case (1 E mo docs n st)
  show ?case
  proof (cases "docs = []")
    case False
    then obtain st1 where "add_chunks E mo (drop streamBatchSize docs) (n + length (take streamBatchSize docs)) st1 = (Ok m, st')"
      using 1(2) unfolding add_chunks.simps [of E mo docs] by (auto simp: st_bind_eq_Ok)
    then have "m = n + length (take streamBatchSize docs) + length (drop streamBatchSize docs)" using 1(1) [OF False] by blast
    then show ?thesis by simp
  qed (use 1(2) in simp)
qed

lemma respond_bind:
  "respond msg code (st_bind p f) k = respond msg code p (\<lambda>x st. respond msg code (f x st) k)"
  by (cases p; cases "fst p") (auto simp: respond_def)

lemma take_drop_append: "length xs = n \<Longrightarrow> take n (xs @ ys) = xs \<and> drop n (xs @ ys) = ys"
  by auto

lemma ingest_loop_chunks:
  assumes "\<forall>l \<in> set ls. length l < ingest_max_line" and "length batch < streamBatchSize"
  shows "ingest_loop E mo None ls batch n st =
    respond ''ingest error: '' 500
      (add_chunks E mo (batch @ map bytes_of (filter (\<lambda>l. l \<noteq> '''') (map (\<lambda>l. TrimSpace (string_of (dropCR l))) ls))) n st)
      (\<lambda>n st. (Ok \<lparr>hr_Status = 200, hr_Header = [], hr_Body = BodyIndexed n\<rparr>, st))"
  using assms
proof (induction ls arbitrary: batch n st)
  case Nil
  then have "take streamBatchSize batch = batch" "drop streamBatchSize batch = []" by simp_all
  then have "add_chunks E mo batch n st = ingest_flush E mo batch n st"
    unfolding add_chunks.simps [of E mo batch] ingest_flush_def by simp
  then show ?case by simp
next
  case (Cons l ls)
  let ?line = "TrimSpace (string_of (dropCR l))"
  let ?rest = "map bytes_of (filter (\<lambda>l. l \<noteq> '''') (map (\<lambda>l. TrimSpace (string_of (dropCR l))) ls))"
  have short: "\<not> ingest_max_line \<le> length l" using Cons.prems(1) by simp
  show ?case
  proof (cases "?line = ''''")
    case True
    then show ?thesis using Cons short by simp
  next
    case False
    let ?batch = "batch @ [bytes_of ?line]"
    show ?thesis
    proof (cases "streamBatchSize \<le> length ?batch")
      case full: True
      then have len: "length ?batch = streamBatchSize" using Cons.prems(2) by simp
      have chunk: "take streamBatchSize (?batch @ ?rest) = ?batch" "drop streamBatchSize (?batch @ ?rest) = ?rest"
        using take_drop_append [OF len, of ?rest] by simp_all
      have IH: "ingest_loop E mo None ls [] = (\<lambda>n st. respond ''ingest error: '' 500 (add_chunks E mo ?rest n st)
          (\<lambda>n st. (Ok \<lparr>hr_Status = 200, hr_Header = [], hr_Body = BodyIndexed n\<rparr>, st)))"
        using Cons.IH [of "[]"] Cons.prems(1) by (intro ext) (simp add: streamBatchSize_def)
      have "add_chunks E mo (?batch @ ?rest) n st = st_bind (ingest_flush E mo ?batch n st) (add_chunks E mo ?rest)"
        unfolding add_chunks.simps [of E mo "?batch @ ?rest"] chunk ingest_flush_def
        by (simp add: st_bind_def split: prod.split result.split)
      then show ?thesis using False full short IH by (simp add: respond_bind)
    next
      case False
      then show ?thesis using \<open>?line \<noteq> ''''\<close> Cons.IH [of ?batch] Cons.prems(1) short by simp
    qed
  qed
qed

section \<open>The authentication token\<close>

definition set_token :: "string \<Rightarrow> ('f, 'b, 's) server \<Rightarrow> ('f, 'b, 's) server" where
  "set_token t sv = sv\<lparr>sv_cfg := (sv_cfg sv)\<lparr>cf_AuthToken := t\<rparr>\<rparr>"

lemma set_token_fields [simp]:
  "sv_cache (set_token t sv) = sv_cache sv" "sv_indexes (set_token t sv) = sv_indexes sv" "sv_store (set_token t sv) = sv_store sv"
  "sv_files (set_token t sv) = sv_files sv" "sv_locks (set_token t sv) = sv_locks sv" "cf_FlushCfg (sv_cfg (set_token t sv)) = cf_FlushCfg (sv_cfg sv)"
  "wal_dir_of (set_token t sv) name = wal_dir_of sv name"
  by (simp_all add: set_token_def wal_dir_of_def)

lemma set_token_updates:
  "(set_token t sv)\<lparr>sv_cache := h\<rparr> = set_token t (sv\<lparr>sv_cache := h\<rparr>)"
  "(set_token t sv)\<lparr>sv_indexes := m\<rparr> = set_token t (sv\<lparr>sv_indexes := m\<rparr>)"
  "(set_token t sv)\<lparr>sv_store := s\<rparr> = set_token t (sv\<lparr>sv_store := s\<rparr>)"
  "(set_token t sv)\<lparr>sv_files := f\<rparr> = set_token t (sv\<lparr>sv_files := f\<rparr>)"
  "(set_token t sv)\<lparr>sv_locks := l\<rparr> = set_token t (sv\<lparr>sv_locks := l\<rparr>)"
  by (simp_all add: set_token_def)

abbreviation on_state :: "('a \<Rightarrow> 'b) \<Rightarrow> 'r \<times> 'a \<Rightarrow> 'r \<times> 'b" where
  "on_state f \<equiv> map_prod id f"

lemma respond_token:
  "(\<And>x sv. k x (set_token t sv) = on_state (set_token t) (k x sv)) \<Longrightarrow>
    respond msg code (on_state (set_token t) p) k = on_state (set_token t) (respond msg code p k)"
  by (cases p; cases "fst p") (auto simp: respond_def)

lemma respond_token_pair:
  "(\<And>x sv. k x (set_token t sv) = on_state (set_token t) (k x sv)) \<Longrightarrow>
    respond msg code (r, set_token t sv) k = on_state (set_token t) (respond msg code (r, sv) k)"
  using respond_token [of k t msg code "(r, sv)"] by simp

lemma bind_token:
  "(\<And>x sv. k x (set_token t sv) = on_state (set_token t) (k x sv)) \<Longrightarrow>
    st_bind (on_state (set_token t) p) k = on_state (set_token t) (st_bind p k)"
  by (cases p; cases "fst p") auto

lemma bind_token_pair:
  "(\<And>x sv. k x (set_token t sv) = on_state (set_token t) (k x sv)) \<Longrightarrow>
    st_bind (r, set_token t sv) k = on_state (set_token t) (st_bind (r, sv) k)"
  using bind_token [of k t "(r, sv)"] by simp

lemmas token_rules = respond_token respond_token_pair bind_token bind_token_pair

lemma sv_open_token: "sv_open E mo name sc (set_token t sv) = on_state (set_token t) (sv_open E mo name sc sv)"
  by (simp add: sv_open_def Let_def set_token_updates split: prod.split)

lemma openIndex_token: "openIndex E mo name (set_token t sv) = on_state (set_token t) (openIndex E mo name sv)"
  by (simp add: openIndex_def token_rules sv_open_token set_token_updates split: option.split)

lemma with_index_token: "with_index name op idx (set_token t sv) = on_state (set_token t) (with_index name op idx sv)"
  by (simp add: with_index_def set_token_updates split: prod.split)

lemma handlers_token:
  "handleCreateIndex E mo r name (set_token t sv) = on_state (set_token t) (handleCreateIndex E mo r name sv)"
  "handleIngest E mo r name (set_token t sv) = on_state (set_token t) (handleIngest E mo r name sv)"
  "handleGetIndex E name (set_token t sv) = on_state (set_token t) (handleGetIndex E name sv)"
  "handleSearch E mo r name (set_token t sv) = on_state (set_token t) (handleSearch E mo r name sv)"
  "handleDeleteByQuery E mo r name (set_token t sv) = on_state (set_token t) (handleDeleteByQuery E mo r name sv)"
  "handleCompact E mo name (set_token t sv) = on_state (set_token t) (handleCompact E mo name sv)"
  "handleGC E name (set_token t sv) = on_state (set_token t) (handleGC E name sv)"
  "handleFlush E mo name (set_token t sv) = on_state (set_token t) (handleFlush E mo name sv)"
  by (simp_all add: handleCreateIndex_def handleIngest_def handleGetIndex_def handleSearch_def handleDeleteByQuery_def handleCompact_def
    handleGC_def handleFlush_def token_rules sv_open_token openIndex_token with_index_token set_token_updates
    split: option.split result.split prod.split)

lemma if_token: "(if b then on_state f x else on_state f y) = on_state f (if b then x else y)"
  by simp

lemma Ok_token: "(Ok r, set_token t sv) = on_state (set_token t) (Ok r, sv)"
  by simp

lemma routes_token:
  "routeIndex E mo r (set_token t sv) = on_state (set_token t) (routeIndex E mo r sv)"
  "routeSearch E mo r (set_token t sv) = on_state (set_token t) (routeSearch E mo r sv)"
  "serve_ui r (set_token t sv) = on_state (set_token t) (serve_ui r sv)"
  unfolding routeIndex_def routeSearch_def serve_ui_def Let_def case_prod_beta
  by (simp_all only: handlers_token Ok_token if_token)

lemma Handler_token: "Handler E mo r (set_token t sv) = on_state (set_token t) (Handler E mo r sv)"
proof -
  have mux: "mux E mo r (set_token t sv) = on_state (set_token t) (mux E mo r sv)" for sv
    unfolding mux_def Let_def by (simp only: routes_token Ok_token if_token)
  have "st_bind (mux E mo r (set_token t sv)) (\<lambda>resp sv. (Ok (add_headers cors_headers resp), sv)) =
      on_state (set_token t) (st_bind (mux E mo r sv) (\<lambda>resp sv. (Ok (add_headers cors_headers resp), sv)))"
    unfolding mux by (rule bind_token) simp
  then show ?thesis unfolding Handler_def corsMiddleware_def by simp
qed

section \<open>Flush and search\<close>

lemma split_slash_append: "CHR ''/'' \<notin> set x \<Longrightarrow> split_slash (x @ CHR ''/'' # y) = (x, Some y)"
  by (induction x) (auto simp: split_slash_def Let_def)

lemma trim_slashes_idle: "CHR ''/'' \<notin> set x \<Longrightarrow> trim_slashes x = x"
proof -
  assume x: "CHR ''/'' \<notin> set x"
  have "dropWhile (\<lambda>c. c = CHR ''/'') y = y" if "set y = set x" for y
    using x that hd_in_set [of y] unfolding dropWhile_eq_self_iff by auto
  from this [of x] this [of "rev x"] show ?thesis by (simp add: trim_slashes_def)
qed

lemma Handler_flush:
  assumes "rq_Method r = ''POST''" and "rq_Path r = ''/index/'' @ name @ ''/_flush''" and "name \<noteq> ''''" and "CHR ''/'' \<notin> set name"
  shows "Handler E mo r sv = st_bind (handleFlush E mo name sv) (\<lambda>resp sv. (Ok (add_headers cors_headers resp), sv))"
  using assms split_slash_append [of name "''_flush''"]
  by (simp add: Handler_def corsMiddleware_def mux_def routeIndex_def HasPrefix_iff TrimPrefix_def Let_def)

lemma Handler_search:
  assumes "rq_Method r = ''POST''" and "rq_Path r = ''/search/'' @ name" and "name \<noteq> ''''" and "CHR ''/'' \<notin> set name"
  shows "Handler E mo r sv = st_bind (handleSearch E mo r name sv) (\<lambda>resp sv. (Ok (add_headers cors_headers resp), sv))"
  using assms trim_slashes_idle [OF assms(4)]
  by (simp add: Handler_def corsMiddleware_def mux_def routeSearch_def HasPrefix_iff TrimPrefix_def Let_def)

lemma handleSearch_window:
  assumes store: "blob_store (en_B E) objects" and libs: "roaring_ok (en_R E)" "vellum_ok (en_V E)" "zstd_ok (en_Z E)" "slice_sort (en_srtHits E)"
    and J: "query_json_ok (en_QJ E)" and body: "rq_Body r = (body, None)" and parse: "ParseRequest (en_QJ E) body = Ok sp"
    and win: "sint (sp_From sp) + sint (sp_Size sp) < 2 ^ 63"
    and log: "manifest_log (en_J E) name (objects (sv_store sv)) (ms @ [mf])"
    and view: "index_view (en_R E) (en_Z E) (en_V E) (en_FJ E) (en_U E) (en_tok E) sc name (objects (sv_store sv)) (ActiveSegments mf) vs"
    and cache: "cache_ok (en_V E) (objects (sv_store sv)) (sv_cache sv)" and order: "set (mo_order mo) = {..<length (ActiveSegments mf)}"
  shows "\<exists>resp h scrs rank. handleSearch E mo r name sv = (Ok (http_json (BodySearch resp)), sv\<lparr>sv_cache := h\<rparr>) \<and>
    rs_TotalHits resp = word_of_nat (match_total (en_FJ E) (en_U E) (en_tok E) sc (sp_Query sp) vs) \<and>
    mset rank = mset (all_hits (en_FJ E) (en_U E) (en_tok E) sc (sp_Query sp) vs scrs) \<and>
    sorted_wrt (\<lambda>x y. hit_Score y \<le> hit_Score x) rank \<and>
    rs_Hits resp = take (nat (sint (sp_Size sp))) (drop (nat (sint (sp_From sp))) rank)"
proof -
  let ?req = "\<lparr>rq_Index = name, req_Query = sp_Query sp, req_Size = sp_Size sp, req_From = sp_From sp\<rparr>"
  have sp: "node_ok (sp_Query sp)" "0 < sint (sp_Size sp)" "0 \<le> sint (sp_From sp)"
    using ParseRequest_window [OF J, of body] parse by auto
  have "\<exists>resp h scrs rank. Search (en_V E) (en_R E) (en_Z E) (en_srtHits E) (en_B E) (en_J E) (sv_store sv) (en_spare E) (en_tok E)
      (mo_order mo) ?req (sv_cache sv) = (Ok resp, h) \<and> cache_ok (en_V E) (objects (sv_store sv)) h \<and>
    rs_TotalHits resp = word_of_nat (match_total (en_FJ E) (en_U E) (en_tok E) sc (req_Query ?req) vs) \<and>
    mset rank = mset (all_hits (en_FJ E) (en_U E) (en_tok E) sc (req_Query ?req) vs scrs) \<and>
    sorted_wrt (\<lambda>x y. hit_Score y \<le> hit_Score x) rank \<and>
    rs_Hits resp = take (nat (sint (req_Size ?req))) (drop (nat (sint (req_From ?req))) rank) \<and> rs_Size resp = length (rs_Hits resp)"
    using sp win log view cache order by (intro Search_view [OF store, OF libs]) simp_all
  then show ?thesis using body parse by (fastforce simp: handleSearch_def respond_def read_all_def)
qed

lemma handleFlush_view:
  assumes store: "blob_store (en_B E) objects" and R: "roaring_ok (en_R E)"
    and idx: "sv_indexes sv name = Some ix" "ix_name ix = name" "ix_schema ix = sc" "ix_flushing ix = None" "ix_flushErr ix = None" "wal_clean d ps (ix_wal ix)"
    and log: "manifest_log (en_J E) name (objects (sv_store sv)) ms" "Suc (length ms) < 10 ^ 6"
    and view: "index_view (en_R E) (en_Z E) (en_V E) (en_FJ E) (en_U E) (en_tok E) sc name (objects (sv_store sv)) (log_active ms) vs"
    and docs: "schema_ok sc" "docs_ok (en_FJ E) (en_U E) (en_tok E) sc docs" "docs \<noteq> []"
      "memtable_of (en_R E) (en_Z E) (en_FJ E) (en_U E) (en_tok E) sc docs (ix_memtable ix)"
    and build: "mt_Build (en_R E) (en_Z E) (en_V E) (ix_memtable ix) = Ok res" "length (SegBytes res) < 2 ^ 63" "length (HotcacheBytes res) < 2 ^ 32"
    and fresh: "newSegmentID (ck_nano (mo_ck mo 0)) \<notin> sm_ID ` set (log_active ms)"
    and mf: "mf = next_manifest name (ck_publish (mo_ck mo 0) 4) (length ms)
      (current_segments (log_last ms) @ [new_meta (ck_nano (mo_ck mo 0)) (ck_millis (mo_ck mo 0)) res])" "mj_roundtrip (en_J E) mf"
  shows "\<exists>ix' s'. handleFlush E mo name sv = (Ok (http_json BodyStatusOK), sv\<lparr>sv_indexes := (sv_indexes sv)(name \<mapsto> ix'), sv_store := s'\<rparr>) \<and>
    manifest_log (en_J E) name (objects s') (ms @ [mf]) \<and>
    index_view (en_R E) (en_Z E) (en_V E) (en_FJ E) (en_U E) (en_tok E) sc name (objects s') (ActiveSegments mf) (vs @ [(docs, {})]) \<and>
    (\<forall>k. k \<notin> flush_keys name (newSegmentID (ck_nano (mo_ck mo 0))) \<longrightarrow> objects s' k = objects (sv_store sv) k)"
proof -
  note named = idx(2) [symmetric]
  obtain ix' s' where "FlushNow (en_R E) (en_Z E) (en_V E) (en_B E) (en_J E) (mo_hcFirst1 mo 0) (mo_ck1 mo 0) (mo_hcFirst mo) (mo_ck mo 0)
      (ix, sv_store sv) = (Ok (), ix', s')" "manifest_log (en_J E) name (objects s') (ms @ [mf])"
    "index_view (en_R E) (en_Z E) (en_V E) (en_FJ E) (en_U E) (en_tok E) sc name (objects s') (ActiveSegments mf) (vs @ [(docs, {})])"
    "\<forall>k. k \<notin> flush_keys name (newSegmentID (ck_nano (mo_ck mo 0))) \<longrightarrow> objects s' k = objects (sv_store sv) k"
    using FlushNow_view [where ck = "mo_ck mo 0" and ?ck1.0 = "mo_ck1 mo 0" and hcFirst = "mo_hcFirst mo" and ?hcFirst1.0 = "mo_hcFirst1 mo 0",
      OF store, OF R log(1) [unfolded named] log(2) view [unfolded named] docs(1-3) idx(3) docs(4) idx(4-6) build fresh mf(1) [unfolded named] mf(2)]
    unfolding idx(2) by blast
  then show ?thesis using idx(1) by (intro exI [of _ ix'] exI [of _ s']) (simp add: handleFlush_def with_index_def respond_def)
qed

section \<open>Properties\<close>

lemma auth_Middleware_rejects:
  assumes "t \<noteq> ''''" and "rq_Header r ''Authorization'' \<noteq> Some (''Bearer '' @ t)"
  shows "\<exists>resp. auth_Middleware t next r st = (Ok resp, st) \<and> hr_Status resp \<in> {401, 403}"
proof (cases "rq_Header r ''Authorization''")
  case (Some h)
  have "TrimPrefix h ''Bearer '' = t \<Longrightarrow> HasPrefix h ''Bearer '' \<Longrightarrow> h = ''Bearer '' @ t"
    by (auto simp: HasPrefix_iff TrimPrefix_def)
  then show ?thesis using Some assms by (auto simp: auth_Middleware_def http_error_def)
qed (use assms in \<open>simp add: auth_Middleware_def http_error_def HasPrefix_iff\<close>)

text \<open>C18: The configured token protects nothing. Behind the middleware of the package \<open>auth\<close> a request
  without the right bearer token is refused with 401 or 403 and changes nothing, but the handler that
  the server runs does not go through it: with any token configured every request has the answer and
  the effect it has with any other token.\<close>
theorem auth_token_not_enforced:
  fixes sv :: "('f, 'b, 's) server"
  assumes "t \<noteq> ''''" and "rq_Header r ''Authorization'' \<noteq> Some (''Bearer '' @ t)"
  shows "(\<exists>resp. auth_Middleware t (Handler E mo) r sv = (Ok resp, sv) \<and> hr_Status resp \<in> {401, 403}) \<and>
    Handler E mo r (set_token t sv) = map_prod id (set_token t) (Handler E mo r sv)"
  by (intro conjI auth_Middleware_rejects Handler_token assms)

text \<open>C8: A streamed ingest is the same as adding the documents of the body. On an open index, for a body
  that is read to its end with every line below the limit of 16 MB, the handler does what adding the
  non-empty lines in chunks of 5000 does, in their order: no line is dropped, split, doubled or kept
  from an earlier chunk. It answers 500 when a chunk is refused, and otherwise 200 with the number of
  documents.\<close>
theorem ingest_adds_all_lines:
  assumes "sv_indexes sv name = Some idx" and "snd (rq_Body r) = None"
    and "\<forall>l \<in> set (scan_lines (fst (rq_Body r))). length l < ingest_max_line"
    and "docs = ingest_docs (fst (rq_Body r))"
  shows "handleIngest E mo r name sv = with_index name
      (\<lambda>st. case add_chunks E mo docs 0 st of
         (Ok n, st) \<Rightarrow> (Ok \<lparr>hr_Status = 200, hr_Header = [], hr_Body = BodyIndexed (length docs)\<rparr>, st)
       | (Err e, st) \<Rightarrow> (Ok (http_error ''ingest error: '' 500), st)
       | (Panic, st) \<Rightarrow> (Panic, st)) idx sv"
proof -
  have "ingest_loop E mo None (scan_lines (fst (rq_Body r))) [] 0 =
      (\<lambda>st. case add_chunks E mo docs 0 st of
         (Ok n, st) \<Rightarrow> (Ok \<lparr>hr_Status = 200, hr_Header = [], hr_Body = BodyIndexed (length docs)\<rparr>, st)
       | (Err e, st) \<Rightarrow> (Ok (http_error ''ingest error: '' 500), st)
       | (Panic, st) \<Rightarrow> (Panic, st))"
  proof
    fix st
    have "ingest_loop E mo None (scan_lines (fst (rq_Body r))) [] 0 st =
        respond ''ingest error: '' 500 (add_chunks E mo docs 0 st) (\<lambda>n st. (Ok \<lparr>hr_Status = 200, hr_Header = [], hr_Body = BodyIndexed n\<rparr>, st))"
      using ingest_loop_chunks [OF assms(3), of "[]" E mo 0 st] assms(4) by (simp add: ingest_docs_def streamBatchSize_def)
    also have "\<dots> = (case add_chunks E mo docs 0 st of
         (Ok n, st) \<Rightarrow> (Ok \<lparr>hr_Status = 200, hr_Header = [], hr_Body = BodyIndexed (length docs)\<rparr>, st)
       | (Err e, st) \<Rightarrow> (Ok (http_error ''ingest error: '' 500), st)
       | (Panic, st) \<Rightarrow> (Panic, st))"
      using add_chunks_count [of E mo docs 0 st] by (auto simp: respond_def split: prod.split result.split)
    finally show "ingest_loop E mo None (scan_lines (fst (rq_Body r))) [] 0 st = \<dots>" .
  qed
  then show ?thesis using assms(1,2) by (simp add: handleIngest_def openIndex_def respond_def)
qed

section \<open>Examples\<close>

definition example_env :: "manifest_json \<Rightarrow> query_json \<Rightarrow> ((bytes \<times> u64) list, (bytes \<times> u64) list, u32 list, unit, MemStore) env" where
  "example_env J QJ = \<lparr>en_V = list_vellum, en_R = list_roaring, en_Z = id_zstd, en_FJ = cat_json, en_U = ascii, en_tok = Tokenize ascii,
     en_SJ = one_schema, en_QJ = QJ, en_RJ = same_id_json, en_J = J, en_B = mem_BlobStore, en_spare = (\<lambda>_. []),
     en_srtHits = insertion_sort, en_srtSegs = insertion_sort\<rparr>"

definition example_moment :: moment where
  "example_moment = \<lparr>mo_ck1 = (\<lambda>_. clock_at 1), mo_ck = (\<lambda>_. clock_at 2), mo_hcFirst1 = (\<lambda>_. False), mo_hcFirst = False,
     mo_order = [0], mo_tiers = []\<rparr>"

definition example_server :: "'b Index \<Rightarrow> ('f, 'b, MemStore) server" where
  "example_server ix = (New_server \<lparr>cf_Addr = '':8080'', cf_AuthToken = '''', cf_WalDir = ''wal'', cf_FlushCfg = DefaultFlushConfig\<rparr>
     NewMemStore (\<lambda>_. mkfile []) {})\<lparr>sv_indexes := [''idx'' \<mapsto> ix]\<rparr>"

definition request :: "string \<Rightarrow> string \<Rightarrow> bytes \<Rightarrow> http_request" where
  "request m p b = \<lparr>rq_Method = m, rq_Path = p, rq_Header = Map.empty, rq_Body = (b, None)\<rparr>"

theorem auth_token_not_enforced_witness:
  "\<exists>mt :: u32 list Memtable. let E = example_env (table_json []) huge_request_json; r = request ''POST'' ''/index/idx/_gc'' [];
      sv = example_server (example_ix mt None) in
    (\<exists>resp. auth_Middleware ''secret'' (Handler E example_moment) r sv = (Ok resp, sv) \<and> hr_Status resp \<in> {401, 403}) \<and>
    Handler E example_moment r (set_token ''secret'' sv) = map_prod id (set_token ''secret'') (Handler E example_moment r sv)"
  unfolding Let_def by (rule exI, rule auth_token_not_enforced) (simp_all add: request_def)

theorem ingest_adds_all_lines_witness:
  "\<exists>mt :: u32 list Memtable. let E = example_env (table_json []) huge_request_json; r = request ''POST'' ''/index/idx/docs'' [0x31, 0xa, 0xa, 0x31, 0xd, 0xa];
      idx = example_ix mt None; sv = example_server idx in
    handleIngest E example_moment r ''idx'' sv = with_index ''idx''
      (\<lambda>st. case add_chunks E example_moment [[0x31], [0x31]] 0 st of
         (Ok n, st) \<Rightarrow> (Ok \<lparr>hr_Status = 200, hr_Header = [], hr_Body = BodyIndexed 2\<rparr>, st)
       | (Err e, st) \<Rightarrow> (Ok (http_error ''ingest error: '' 500), st)
       | (Panic, st) \<Rightarrow> (Panic, st)) idx sv"
proof -
  have docs: "ingest_docs [0x31, 0xa, 0xa, 0x31, 0xd, 0xa] = [[0x31], [0x31]]" by code_simp
  have lines: "scan_lines [0x31, 0xa, 0xa, 0x31, 0xd, 0xa] = [[0x31], [], [0x31, 0xd]]" by code_simp
  have two: "length [[0x31], [0x31 :: u8]] = 2" by simp
  show ?thesis
    unfolding Let_def using docs lines
    by (intro exI, intro ingest_adds_all_lines [where docs = "[[0x31], [0x31]]", unfolded two])
      (simp_all add: example_server_def request_def ingest_max_line_def)
qed

text \<open>A decoder that knows one request: the first ten of all documents.\<close>

definition all_request_json :: query_json where
  "all_request_json = \<lparr>qj_node = (\<lambda>_. Err (ErrMsg ''syntax'')),
     qj_request = (\<lambda>_. Ok \<lparr>rq_Query = [], rq_Size = 0, rq_From = 0\<rparr>),
     qj_string = (\<lambda>_. Err (ErrMsg ''syntax'')), qj_int64 = (\<lambda>_. Err (ErrMsg ''syntax''))\<rparr>"

lemma all_request: "ParseRequest all_request_json [] = Ok \<lparr>sp_Query = MatchAll, sp_Size = 10, sp_From = 0\<rparr>"
  by (simp add: ParseRequest_def all_request_json_def MaxSearchSize_def Let_def)

lemma all_answer: "view_answer cat_json ascii (Tokenize ascii) example_schema MatchAll ([[0x31]], {}) = {0}"
  by (auto simp: view_answer_def answer_def MatchAll_def unat_eq_0)

end
