(* ===== verification/Spec2Isabelle.thy ===== *)
theory Spec2Isabelle
  imports Postings Docstore Seg_Format Store Manifest Publish Json Wal Cache Schema Analyze Seg_Writer Seg_Reader Memtable Query_Node BM25 Query_Parser Query_DSL Query_Exec Query_Search Index_View Delete Searcher Compactor Ingest Ingest_Runs Minio Server
begin

text \<open>
  Root of the development.
\<close>

section \<open>From the flush to the answer\<close>

text \<open>C1: What was ingested is found after a flush. Let a server have an open index that is not
  flushing, with the documents \<open>docs\<close> in its memtable and the segments \<open>vs\<close> published. A request
  \<open>POST /index/name/_flush\<close> answers 200, and the request \<open>POST /search/name\<close> after it answers 200 with
  the number of matching live documents of all segments and of \<open>docs\<close>, and with the requested window
  of one ranking by descending score in which each of these documents occurs exactly once with its
  stored bytes, whatever the order in which the goroutines finish. The cache may hold other
  segments.\<close>

theorem flushed_documents_are_found:
  assumes "blob_store (en_B E) objects"
    and "roaring_ok (en_R E)" and "vellum_ok (en_V E)" and "zstd_ok (en_Z E)" and "slice_sort (en_srtHits E)" and "query_json_ok (en_QJ E)"
    and "name \<noteq> ''''" and "CHR ''/'' \<notin> set name"
    and "rq_Method r1 = ''POST''" and "rq_Path r1 = ''/index/'' @ name @ ''/_flush''"
    and "rq_Method r2 = ''POST''" and "rq_Path r2 = ''/search/'' @ name" and "rq_Body r2 = (body, None)"
    and "ParseRequest (en_QJ E) body = Ok sp" and "sint (sp_From sp) + sint (sp_Size sp) < 2 ^ 63"
    and "sv_indexes sv name = Some ix" and "ix_name ix = name" and "ix_schema ix = sc"
    and "ix_flushing ix = None" and "ix_flushErr ix = None" and "wal_clean d ps (ix_wal ix)"
    and "manifest_log (en_J E) name (objects (sv_store sv)) ms" and "Suc (length ms) < 10 ^ 6"
    and "index_view (en_R E) (en_Z E) (en_V E) (en_FJ E) (en_U E) (en_tok E) sc name (objects (sv_store sv)) (log_active ms) vs"
    and "schema_ok sc" and "docs_ok (en_FJ E) (en_U E) (en_tok E) sc docs" and "docs \<noteq> []"
    and "memtable_of (en_R E) (en_Z E) (en_FJ E) (en_U E) (en_tok E) sc docs (ix_memtable ix)"
    and "mt_Build (en_R E) (en_Z E) (en_V E) (ix_memtable ix) = Ok res" and "length (SegBytes res) < 2 ^ 63" and "length (HotcacheBytes res) < 2 ^ 32"
    and "newSegmentID (ck_nano (mo_ck mo 0)) \<notin> sm_ID ` set (log_active ms)"
    and "mf = next_manifest name (ck_publish (mo_ck mo 0) 4) (length ms)
      (current_segments (log_last ms) @ [new_meta (ck_nano (mo_ck mo 0)) (ck_millis (mo_ck mo 0)) res])" and "mj_roundtrip (en_J E) mf"
    and "cache_ok (en_V E) (objects (sv_store sv)) (sv_cache sv)"
    and "fst ` set (lru_pairs (sv_cache sv)) \<inter> flush_keys name (newSegmentID (ck_nano (mo_ck mo 0))) = {}"
    and "set (mo_order mo') = {..<length (ActiveSegments mf)}"
  shows "\<exists>a1 sv1 a2 sv2 resp scrs rank. Handler E mo r1 sv = (Ok a1, sv1) \<and> hr_Status a1 = 200 \<and>
    Handler E mo' r2 sv1 = (Ok a2, sv2) \<and> hr_Status a2 = 200 \<and> hr_Body a2 = BodySearch resp \<and>
    rs_TotalHits resp = word_of_nat (match_total (en_FJ E) (en_U E) (en_tok E) sc (sp_Query sp) (vs @ [(docs, {})])) \<and>
    mset rank = mset (all_hits (en_FJ E) (en_U E) (en_tok E) sc (sp_Query sp) (vs @ [(docs, {})]) scrs) \<and>
    sorted_wrt (\<lambda>x y. hit_Score y \<le> hit_Score x) rank \<and>
    rs_Hits resp = take (nat (sint (sp_Size sp))) (drop (nat (sint (sp_From sp))) rank)"
proof -
  obtain ix' s' where fl: "handleFlush E mo name sv = (Ok (http_json BodyStatusOK), sv\<lparr>sv_indexes := (sv_indexes sv)(name \<mapsto> ix'), sv_store := s'\<rparr>)"
    and log: "manifest_log (en_J E) name (objects s') (ms @ [mf])"
    and view: "index_view (en_R E) (en_Z E) (en_V E) (en_FJ E) (en_U E) (en_tok E) sc name (objects s') (ActiveSegments mf) (vs @ [(docs, {})])"
    and frame: "\<forall>k. k \<notin> flush_keys name (newSegmentID (ck_nano (mo_ck mo 0))) \<longrightarrow> objects s' k = objects (sv_store sv) k"
    using handleFlush_view [OF assms(1), OF assms(2,16-34)] by blast
  let ?sv = "sv\<lparr>sv_indexes := (sv_indexes sv)(name \<mapsto> ix'), sv_store := s'\<rparr>"
  have cache: "cache_ok (en_V E) (objects s') (sv_cache sv)"
    using frame assms(36) by (intro cache_ok_frame [OF assms(35)]) blast
  have at: "manifest_log (en_J E) name (objects (sv_store ?sv)) (ms @ [mf])"
    "index_view (en_R E) (en_Z E) (en_V E) (en_FJ E) (en_U E) (en_tok E) sc name (objects (sv_store ?sv)) (ActiveSegments mf) (vs @ [(docs, {})])"
    "cache_ok (en_V E) (objects (sv_store ?sv)) (sv_cache ?sv)" using log view cache by simp_all
  obtain resp h scrs rank where se: "handleSearch E mo' r2 name ?sv = (Ok (http_json (BodySearch resp)), ?sv\<lparr>sv_cache := h\<rparr>)"
    and resp: "rs_TotalHits resp = word_of_nat (match_total (en_FJ E) (en_U E) (en_tok E) sc (sp_Query sp) (vs @ [(docs, {})]))"
      "mset rank = mset (all_hits (en_FJ E) (en_U E) (en_tok E) sc (sp_Query sp) (vs @ [(docs, {})]) scrs)"
      "sorted_wrt (\<lambda>x y. hit_Score y \<le> hit_Score x) rank"
      "rs_Hits resp = take (nat (sint (sp_Size sp))) (drop (nat (sint (sp_From sp))) rank)"
    using handleSearch_window [OF assms(1), OF assms(2-6,13-15) at assms(37)] by blast
  have "Handler E mo r1 sv = (Ok (add_headers cors_headers (http_json BodyStatusOK)), ?sv)"
    using Handler_flush [OF assms(9,10,7,8), of E mo sv] fl by simp
  moreover have "Handler E mo' r2 ?sv = (Ok (add_headers cors_headers (http_json (BodySearch resp))), ?sv\<lparr>sv_cache := h\<rparr>)"
    using Handler_search [OF assms(11,12,7,8), of E mo' ?sv] se by simp
  ultimately show ?thesis using resp by (fastforce simp: add_headers_def http_json_def)
qed

theorem flushed_documents_are_found_witness:
  "\<exists>J (mt :: u32 list Memtable) a1 sv1 a2 sv2 resp. let E = example_env J all_request_json in
    Handler E example_moment (request ''POST'' ''/index/idx/_flush'' []) (example_server (example_ix mt None)) = (Ok a1, sv1) \<and>
    Handler E example_moment (request ''POST'' ''/search/idx'' []) sv1 = (Ok a2, sv2) \<and>
    hr_Body a2 = BodySearch resp \<and> rs_TotalHits resp = 1 \<and> map hit_Source (rs_Hits resp) = [Some [0x31]]"
proof -
  obtain mt res where mt: "memtable_of list_roaring id_zstd cat_json ascii (Tokenize ascii) example_schema [[0x31]] mt"
    and res: "mt_Build list_roaring id_zstd list_vellum mt = Ok res" "length (SegBytes res) < 2 ^ 63" "length (HotcacheBytes res) < 2 ^ 32"
    by (rule example_flush)
  let ?mf = "next_manifest ''idx'' 2 0 [new_meta 2 2 res]"
  let ?E = "example_env (table_json [?mf]) all_request_json" and ?ix = "example_ix mt None" and ?vs = "[([[0x31]], {})] :: (bytes list \<times> u32 set) list"
  have ix: "ix_name ?ix = ''idx''" "ix_schema ?ix = example_schema" "ix_flushing ?ix = None" "ix_flushErr ?ix = None" "ix_memtable ?ix = mt"
    by (simp_all add: example_ix_def)
  have mo: "mo_ck example_moment 0 = clock_at 2" "mo_order example_moment = [0]" by (simp_all add: example_moment_def)
  have qj: "query_json_ok all_request_json" by (simp add: query_json_ok_def all_request_json_def)
  have "\<exists>a1 sv1 a2 sv2 resp scrs rank. Handler ?E example_moment (request ''POST'' ''/index/idx/_flush'' []) (example_server ?ix) = (Ok a1, sv1) \<and>
      hr_Status a1 = 200 \<and> Handler ?E example_moment (request ''POST'' ''/search/idx'' []) sv1 = (Ok a2, sv2) \<and> hr_Status a2 = 200 \<and>
      hr_Body a2 = BodySearch resp \<and>
      rs_TotalHits resp = word_of_nat (match_total (en_FJ ?E) (en_U ?E) (en_tok ?E) example_schema
        (sp_Query \<lparr>sp_Query = MatchAll, sp_Size = 10, sp_From = 0\<rparr>) ([] @ ?vs)) \<and>
      mset rank = mset (all_hits (en_FJ ?E) (en_U ?E) (en_tok ?E) example_schema
        (sp_Query \<lparr>sp_Query = MatchAll, sp_Size = 10, sp_From = 0\<rparr>) ([] @ ?vs) scrs) \<and>
      sorted_wrt (\<lambda>x y. hit_Score y \<le> hit_Score x) rank \<and>
      rs_Hits resp = take (nat (sint (sp_Size \<lparr>sp_Query = MatchAll, sp_Size = 10, sp_From = 0\<rparr>)))
        (drop (nat (sint (sp_From \<lparr>sp_Query = MatchAll, sp_Size = 10, sp_From = 0\<rparr>))) rank)"
  proof (rule flushed_documents_are_found [where name = "''idx''" and objects = mem_content and ix = ?ix and ms = "[]" and mf = ?mf and res = res
        and d = "''wal''" and ps = "[[0x31]]" and body = "[]"])
    show "wal_clean ''wal'' [[0x31]] (ix_wal ?ix)" by (rule example_ix_clean)
    show "set (mo_order example_moment) = {..<length (ActiveSegments ?mf)}"
      by (simp add: mo ActiveSegments_def next_manifest_def new_meta_def lessThan_Suc)
    show "cache_ok (en_V ?E) (mem_content (sv_store (example_server ?ix))) (sv_cache (example_server ?ix))"
      by (simp add: example_server_def New_server_def cache_ok_New)
    show "fst ` set (lru_pairs (sv_cache (example_server ?ix))) \<inter> flush_keys ''idx'' (newSegmentID (ck_nano (mo_ck example_moment 0))) = {}"
      by (simp add: example_server_def New_server_def New_cache_def NewHotcacheLRU_def lru_pairs_def)
    show "manifest_log (en_J ?E) ''idx'' (mem_content (sv_store (example_server ?ix))) []"
      using empty_log by (simp add: example_server_def New_server_def)
    show "mj_roundtrip (en_J ?E) ?mf" using table_json_roundtrip [of "[?mf]" ?mf] by (simp add: example_env_def)
  qed (use mt res ix mo qj all_request mem.blob_store_axioms list_roaring_ok list_vellum_ok id_zstd_ok example_schema_ok example_docs_ok in
      \<open>simp_all add: example_env_def request_def example_server_def New_server_def log_active_def log_last_def current_segments_def
         index_view_def clock_at_def insertion.slice_sort_axioms\<close>)
  then obtain a1 sv1 a2 sv2 resp scrs rank where
    run: "Handler ?E example_moment (request ''POST'' ''/index/idx/_flush'' []) (example_server ?ix) = (Ok a1, sv1)"
      "Handler ?E example_moment (request ''POST'' ''/search/idx'' []) sv1 = (Ok a2, sv2)" "hr_Body a2 = BodySearch resp"
    and tot: "rs_TotalHits resp = word_of_nat (match_total cat_json ascii (Tokenize ascii) example_schema MatchAll ?vs)"
    and rank: "mset rank = mset (all_hits cat_json ascii (Tokenize ascii) example_schema MatchAll ?vs scrs)"
    and hits: "rs_Hits resp = take 10 rank" by (auto simp: example_env_def)
  have "all_hits cat_json ascii (Tokenize ascii) example_schema MatchAll ?vs scrs = [hit_of (scrs 0) (\<lambda>d. [[0x31]] ! unat d) 0]"
    using all_answer by (simp add: all_hits_def view_hits_def)
  then have "rank = [hit_of (scrs 0) (\<lambda>d. [[0x31]] ! unat d) 0]" using rank by (metis mset_single_iff_right)
  then have src: "map hit_Source (rs_Hits resp) = [Some [0x31]]" using hits by (simp add: hit_of_def)
  have one: "rs_TotalHits resp = 1" using tot all_answer by (simp add: match_total_def)
  show ?thesis
    unfolding Let_def by (intro exI conjI) (rule run(1), rule run(2), rule run(3), rule one, rule src)
qed

end
